(* ===== verification/Go_Prelude.thy ===== *)
theory Go_Prelude
  imports Main "HOL-Library.Word"
begin

text \<open>
  Shared vocabulary of the development: the Go types the sources use (runes, code units,
  machine integers, strings as rune sequences), the collections of rewrite rules the component
  theories extend, and generic facts on lists and on the error sum that more than one component
  needs.
\<close>

named_theorems go_simps \<open>unfolding rules of small Go helpers\<close>
named_theorems wf_intros \<open>introduction rules for well-formedness predicates\<close>

text \<open>
  A Go \<open>rune\<close> is an \<open>int32\<close>. The sources keep code points in \<open>0 .. 0x10FFFF\<close> and use \<open>-1\<close> as
  an end-of-input mark, so the arithmetic on runes never wraps and runes are integers here. The
  few places where a machine integer can wrap use \<open>go_int\<close> (64 bit) and \<open>go_int32\<close>.
\<close>

type_synonym rune = int
type_synonym go_string = "rune list"

definition go_int :: "int \<Rightarrow> int" where
  "go_int x = (x + 2 ^ 63) mod 2 ^ 64 - 2 ^ 63"

definition go_int32 :: "int \<Rightarrow> int" where
  "go_int32 x = (x + 2 ^ 31) mod 2 ^ 32 - 2 ^ 31"

definition max_rune :: rune where
  "max_rune = 0x10FFFF"

text \<open>String literals of the sources are ASCII; \<open>str\<close> turns one into its runes.\<close>

definition str :: "string \<Rightarrow> go_string" where
  "str s = map (\<lambda>c. int (of_char c)) s"

lemma go_int_id: "- (2 ^ 63) \<le> x \<Longrightarrow> x < 2 ^ 63 \<Longrightarrow> go_int x = x"
  by (simp add: go_int_def)

lemma go_int32_id: "- (2 ^ 31) \<le> x \<Longrightarrow> x < 2 ^ 31 \<Longrightarrow> go_int32 x = x"
  by (simp add: go_int32_def)

lemma go_int_bounds: "- (2 ^ 63) \<le> go_int x \<and> go_int x < 2 ^ 63"
  by (simp add: go_int_def)

subsection \<open>Results\<close>

text \<open>
  A fallible operation returns \<open>Inl\<close> of its error or \<open>Inr\<close> of its value. \<open>res_bind\<close> is the
  \<open>if err != nil { return nil, err }\<close> of the sources.
\<close>

definition res_bind :: "'e + 'a \<Rightarrow> ('a \<Rightarrow> 'e + 'b) \<Rightarrow> 'e + 'b" where
  "res_bind r f = (case r of Inl e \<Rightarrow> Inl e | Inr x \<Rightarrow> f x)"

lemma res_bind_simps [simp]:
  "res_bind (Inl e) f = Inl e"
  "res_bind (Inr x) f = f x"
  by (simp_all add: res_bind_def)

lemma res_bind_eq_Inr: "res_bind r f = Inr y \<longleftrightarrow> (\<exists>x. r = Inr x \<and> f x = Inr y)"
  by (cases r) auto

lemma res_bind_eq_Inl:
  "res_bind r f = Inl e \<longleftrightarrow> r = Inl e \<or> (\<exists>x. r = Inr x \<and> f x = Inl e)"
  by (cases r) auto

lemma res_bind_cong [fundef_cong]:
  assumes "r = r'" and "\<And>x. r' = Inr x \<Longrightarrow> f x = f' x"
  shows "res_bind r f = res_bind r' f'"
  using assms by (cases r') auto

subsection \<open>First success in a list\<close>

text \<open>
  \<open>first_some f xs\<close> is the value of \<open>f\<close> at the first element where it is defined: the order
  in which a backtracking search tries its alternatives.
\<close>

fun first_some :: "('a \<Rightarrow> 'b option) \<Rightarrow> 'a list \<Rightarrow> 'b option" where
  "first_some f [] = None"
| "first_some f (x # xs) = (case f x of Some y \<Rightarrow> Some y | None \<Rightarrow> first_some f xs)"

lemma first_some_append:
  "first_some f (xs @ ys) = (case first_some f xs of Some y \<Rightarrow> Some y | None \<Rightarrow> first_some f ys)"
  by (induction xs) (auto split: option.splits)

lemma first_some_concat_map:
  "first_some f (concat (map g xs)) = first_some (\<lambda>x. first_some f (g x)) xs"
  by (induction xs) (auto simp: first_some_append split: option.splits)

lemma first_some_map: "first_some f (map g xs) = first_some (\<lambda>x. f (g x)) xs"
  by (induction xs) (auto split: option.splits)

lemma first_some_cong [fundef_cong]:
  "xs = ys \<Longrightarrow> (\<And>x. x \<in> set ys \<Longrightarrow> f x = g x) \<Longrightarrow> first_some f xs = first_some g ys"
  by (induction xs arbitrary: ys) (auto split: option.splits)

lemma first_some_None: "first_some f xs = None \<longleftrightarrow> (\<forall>x \<in> set xs. f x = None)"
  by (induction xs) (auto split: option.splits)

lemma first_some_Some_hd: "first_some Some xs = (case xs of [] \<Rightarrow> None | x # _ \<Rightarrow> Some x)"
  by (cases xs) auto

lemma first_some_SomeD: "first_some f xs = Some y \<Longrightarrow> \<exists>x \<in> set xs. f x = Some y"
  by (induction xs) (auto split: option.splits)

end
