(* ===== verification/Rune_Set.thy ===== *)
theory Rune_Set
  imports Go_Prelude
begin

text \<open>
  The code-point sets of the regular-expression engine (\<open>src/jsregexp/runeset.go\<close>): a set is a
  list of inclusive ranges; \<open>normalize\<close> sorts and coalesces, \<open>contains\<close> is a binary search, and
  \<open>intersect\<close>, \<open>subtract\<close> and \<open>addComplement\<close> are the operations character classes are compiled
  with. \<open>rset\<close> is the set of code points a range list denotes; the lemmas show that every
  operation computes the set operation it is named after and returns a normalized list.
\<close>

subsection \<open>Ranges and the builder\<close>

record rrange =
  rlo :: rune
  rhi :: rune

abbreviation rr :: "rune \<Rightarrow> rune \<Rightarrow> rrange" where
  "rr a b \<equiv> \<lparr>rlo = a, rhi = b\<rparr>"

record runeSet =
  ranges :: "rrange list"

record setBuilder =
  sb_ranges :: "rrange list"

definition empty_builder :: setBuilder where
  "empty_builder = \<lparr>sb_ranges = []\<rparr>"

definition addRange :: "setBuilder \<Rightarrow> rune \<Rightarrow> rune \<Rightarrow> setBuilder" where
  "addRange b lo hi =
     (let (lo', hi') = (if lo > hi then (hi, lo) else (lo, hi))
      in b\<lparr>sb_ranges := sb_ranges b @ [rr lo' hi']\<rparr>)"

definition addRune :: "setBuilder \<Rightarrow> rune \<Rightarrow> setBuilder" where
  "addRune b r = addRange b r r"

fun addRanges :: "setBuilder \<Rightarrow> rrange list \<Rightarrow> setBuilder" where
  "addRanges b [] = b"
| "addRanges b (r # rs) = addRanges (addRange b (rlo r) (rhi r)) rs"

subsection \<open>Normalization\<close>

text \<open>
  The loop of \<open>normalize\<close> after the sort: \<open>out\<close> is the coalesced prefix, its last element the
  range that may still grow. \<open>coalesce l rs\<close> is the part of \<open>out\<close> from that element on.
\<close>

fun coalesce :: "rrange \<Rightarrow> rrange list \<Rightarrow> rrange list" where
  "coalesce l [] = [l]"
| "coalesce l (r # rs) =
     (if rlo r \<le> rhi l + 1
      then coalesce (if rhi r > rhi l then l\<lparr>rhi := rhi r\<rparr> else l) rs
      else l # coalesce r rs)"

definition normalize :: "rrange list \<Rightarrow> rrange list" where
  "normalize rs = (case sort_key rlo rs of [] \<Rightarrow> [] | r # rest \<Rightarrow> coalesce r rest)"

definition build :: "setBuilder \<Rightarrow> runeSet" where
  "build b = \<lparr>ranges = normalize (sb_ranges b)\<rparr>"

subsection \<open>Complement, membership, intersection, difference\<close>

fun addComplement_loop :: "setBuilder \<Rightarrow> rune \<Rightarrow> rrange list \<Rightarrow> setBuilder \<times> rune" where
  "addComplement_loop b prev [] = (b, prev)"
| "addComplement_loop b prev (r # rs) =
     (let b' = (if rlo r > prev then addRange b prev (rlo r - 1) else b);
          prev' = (if rhi r + 1 > prev then rhi r + 1 else prev)
      in addComplement_loop b' prev' rs)"

definition addComplement :: "setBuilder \<Rightarrow> rrange list \<Rightarrow> setBuilder" where
  "addComplement b rs =
     (let (b', prev) = addComplement_loop b 0 (normalize rs)
      in if prev \<le> 0x10FFFF then addRange b' prev 0x10FFFF else b')"

function contains_loop :: "rrange list \<Rightarrow> rune \<Rightarrow> nat \<Rightarrow> nat \<Rightarrow> bool" where
  "contains_loop rs r lo hi =
     (if lo < hi then
        let mid = (lo + hi) div 2 in
        if r < rlo (rs ! mid) then contains_loop rs r lo mid
        else if r > rhi (rs ! mid) then contains_loop rs r (mid + 1) hi
        else True
      else False)"
  by pat_completeness auto
termination
  by (relation "measure (\<lambda>(rs, r, lo, hi). hi - lo)") auto

declare contains_loop.simps [simp del]

definition contains :: "runeSet \<Rightarrow> rune \<Rightarrow> bool" where
  "contains s r = contains_loop (ranges s) r 0 (length (ranges s))"

fun intersect_inner :: "setBuilder \<Rightarrow> rrange \<Rightarrow> rrange list \<Rightarrow> setBuilder" where
  "intersect_inner out ra [] = out"
| "intersect_inner out ra (rb # rbs) =
     (let lo = (if rlo rb > rlo ra then rlo rb else rlo ra);
          hi = (if rhi rb < rhi ra then rhi rb else rhi ra)
      in intersect_inner (if lo \<le> hi then addRange out lo hi else out) ra rbs)"

fun intersect_outer :: "setBuilder \<Rightarrow> rrange list \<Rightarrow> rrange list \<Rightarrow> setBuilder" where
  "intersect_outer out [] rbs = out"
| "intersect_outer out (ra # ras) rbs = intersect_outer (intersect_inner out ra rbs) ras rbs"

definition intersect :: "runeSet \<Rightarrow> runeSet \<Rightarrow> runeSet" where
  "intersect a b = build (intersect_outer empty_builder (ranges a) (ranges b))"

text \<open>
  One row of \<open>subtract\<close>: \<open>lo\<close> is the first code point of \<open>ra\<close> not yet handled. \<open>continue\<close> skips a
  range of \<open>b\<close> that does not meet \<open>[lo, ra.hi]\<close>, \<open>break\<close> leaves once \<open>lo\<close> is past \<open>ra.hi\<close>.
\<close>

fun subtract_inner :: "setBuilder \<Rightarrow> rrange \<Rightarrow> rune \<Rightarrow> rrange list \<Rightarrow> setBuilder \<times> rune" where
  "subtract_inner out ra lo [] = (out, lo)"
| "subtract_inner out ra lo (rb # rbs) =
     (if rhi rb < lo \<or> rlo rb > rhi ra then subtract_inner out ra lo rbs
      else
        let out' = (if rlo rb > lo then addRange out lo (rlo rb - 1) else out);
            lo' = (if rhi rb + 1 > lo then rhi rb + 1 else lo)
        in if lo' > rhi ra then (out', lo') else subtract_inner out' ra lo' rbs)"

fun subtract_outer :: "setBuilder \<Rightarrow> rrange list \<Rightarrow> rrange list \<Rightarrow> setBuilder" where
  "subtract_outer out [] rbs = out"
| "subtract_outer out (ra # ras) rbs =
     (let (out', lo) = subtract_inner out ra (rlo ra) rbs
      in subtract_outer (if lo \<le> rhi ra then addRange out' lo (rhi ra) else out') ras rbs)"

definition subtract :: "runeSet \<Rightarrow> runeSet \<Rightarrow> runeSet" where
  "subtract a b = build (subtract_outer empty_builder (ranges a) (ranges b))"

subsection \<open>The tables of the class escapes\<close>

definition digitRanges :: "rrange list" where
  "digitRanges = [rr 0x30 0x39]"

definition wordRanges :: "rrange list" where
  "wordRanges = [rr 0x30 0x39, rr 0x41 0x5A, rr 0x5F 0x5F, rr 0x61 0x7A]"

definition wordFoldRanges :: "rrange list" where
  "wordFoldRanges =
     [rr 0x30 0x39, rr 0x41 0x5A, rr 0x5F 0x5F, rr 0x61 0x7A, rr 0x017F 0x017F, rr 0x212A 0x212A]"

definition spaceRanges :: "rrange list" where
  "spaceRanges =
     [rr 0x0009 0x000D, rr 0x0020 0x0020, rr 0x00A0 0x00A0, rr 0x1680 0x1680, rr 0x2000 0x200A,
      rr 0x2028 0x2029, rr 0x202F 0x202F, rr 0x205F 0x205F, rr 0x3000 0x3000, rr 0xFEFF 0xFEFF]"

datatype ClassEscKind =
  EscDigit | EscNotDigit | EscWord | EscNotWord | EscSpace | EscNotSpace

definition addClassEscape :: "setBuilder \<Rightarrow> ClassEscKind \<Rightarrow> bool \<Rightarrow> setBuilder" where
  "addClassEscape b k foldWord =
     (let wr = (if foldWord then wordFoldRanges else wordRanges) in
      case k of
        EscDigit \<Rightarrow> addRange b 0x30 0x39
      | EscNotDigit \<Rightarrow> addComplement b digitRanges
      | EscWord \<Rightarrow> addRanges b wr
      | EscNotWord \<Rightarrow> addComplement b wr
      | EscSpace \<Rightarrow> addRanges b spaceRanges
      | EscNotSpace \<Rightarrow> addComplement b spaceRanges)"

definition isLineTerminator :: "rune \<Rightarrow> bool" where
  "isLineTerminator r \<longleftrightarrow> r = 0x000A \<or> r = 0x000D \<or> r = 0x2028 \<or> r = 0x2029"

definition isWordChar :: "rune \<Rightarrow> bool" where
  "isWordChar r \<longleftrightarrow> r = 0x5F \<or> (r \<ge> 0x30 \<and> r \<le> 0x39) \<or> (r \<ge> 0x61 \<and> r \<le> 0x7A)
     \<or> (r \<ge> 0x41 \<and> r \<le> 0x5A)"

definition wordCharFold :: "rune \<Rightarrow> bool \<Rightarrow> bool" where
  "wordCharFold r fld =
     (if isWordChar r then True else fld \<and> (r = 0x017F \<or> r = 0x212A))"

subsection \<open>Denotation and the normal form\<close>

text \<open>The code points of a range list, and when a list is in normal form.\<close>

definition rset :: "rrange list \<Rightarrow> rune set" where
  "rset rs = (\<Union>r \<in> set rs. {rlo r .. rhi r})"

definition wf_ranges :: "rrange list \<Rightarrow> bool" where
  "wf_ranges rs \<longleftrightarrow> (\<forall>r \<in> set rs. rlo r \<le> rhi r)"

definition normal :: "rrange list \<Rightarrow> bool" where
  "normal rs \<longleftrightarrow> wf_ranges rs \<and> sorted_wrt (\<lambda>a b. rhi a + 1 < rlo b) rs"

lemma rset_simps [simp]:
  "rset [] = {}"
  "rset (r # rs) = {rlo r .. rhi r} \<union> rset rs"
  "rset (rs @ rs') = rset rs \<union> rset rs'"
  by (auto simp: rset_def)

lemma wf_ranges_simps [simp]:
  "wf_ranges []"
  "wf_ranges (r # rs) \<longleftrightarrow> rlo r \<le> rhi r \<and> wf_ranges rs"
  "wf_ranges (rs @ rs') \<longleftrightarrow> wf_ranges rs \<and> wf_ranges rs'"
  by (auto simp: wf_ranges_def)

lemma normal_simps [simp]:
  "normal []"
  "normal (r # rs) \<longleftrightarrow> rlo r \<le> rhi r \<and> (\<forall>x \<in> set rs. rhi r + 1 < rlo x) \<and> normal rs"
  by (auto simp: normal_def)

lemma normal_wf: "normal rs \<Longrightarrow> wf_ranges rs"
  by (simp add: normal_def)

lemma rset_sort_key [simp]: "rset (sort_key f rs) = rset rs"
  by (simp add: rset_def)

lemma wf_ranges_sort_key [simp]: "wf_ranges (sort_key f rs) = wf_ranges rs"
  by (simp add: wf_ranges_def)

subsection \<open>The builder\<close>

lemma sb_ranges_addRange:
  "sb_ranges (addRange b lo hi) = sb_ranges b @ [rr (min lo hi) (max lo hi)]"
  by (auto simp: addRange_def Let_def min_def max_def)

lemma rset_addRange [simp]:
  "rset (sb_ranges (addRange b lo hi)) = rset (sb_ranges b) \<union> {min lo hi .. max lo hi}"
  by (simp add: sb_ranges_addRange)

lemma wf_addRange [simp]: "wf_ranges (sb_ranges (addRange b lo hi)) = wf_ranges (sb_ranges b)"
  by (auto simp: sb_ranges_addRange)

lemma rset_addRune [simp]: "rset (sb_ranges (addRune b r)) = insert r (rset (sb_ranges b))"
  by (auto simp: addRune_def)

lemma wf_addRune [simp]: "wf_ranges (sb_ranges (addRune b r)) = wf_ranges (sb_ranges b)"
  by (simp add: addRune_def)

lemma rset_addRanges:
  "wf_ranges rs \<Longrightarrow> rset (sb_ranges (addRanges b rs)) = rset (sb_ranges b) \<union> rset rs"
  by (induction b rs rule: addRanges.induct) auto

lemma wf_addRanges [simp]: "wf_ranges (sb_ranges (addRanges b rs)) = wf_ranges (sb_ranges b)"
  by (induction b rs rule: addRanges.induct) auto

lemma empty_builder_simps [simp]: "sb_ranges empty_builder = []"
  by (simp add: empty_builder_def)

subsection \<open>Normalization\<close>

lemma coalesce_lo: "\<forall>r \<in> set rs. rlo l \<le> rlo r \<Longrightarrow> x \<in> set (coalesce l rs) \<Longrightarrow> rlo l \<le> rlo x"
proof (induction l rs rule: coalesce.induct)
  case (2 l r rs)
  show ?case
  proof (cases "rlo r \<le> rhi l + 1")
    case True
    with "2.IH"(1) "2.prems" show ?thesis by (auto split: if_splits)
  next
    case False
    with "2.prems" consider "x = l" | "x \<in> set (coalesce r rs)" by auto
    then show ?thesis
    proof cases
      case 2
      have "\<exists>y \<in> set (r # rs). rlo x = rlo y"
        using 2
      proof (induction r rs rule: coalesce.induct)
        case (2 l r rs)
        then show ?case by (auto split: if_splits)
      qed simp
      with "2.prems" show ?thesis by auto
    qed simp
  qed
qed simp

lemma rset_coalesce:
  "rlo l \<le> rhi l \<Longrightarrow> wf_ranges rs \<Longrightarrow> sorted (map rlo (l # rs)) \<Longrightarrow>
   rset (coalesce l rs) = {rlo l .. rhi l} \<union> rset rs"
proof (induction l rs rule: coalesce.induct)
  case (2 l r rs)
  show ?case
  proof (cases "rlo r \<le> rhi l + 1")
    case True
    let ?l = "if rhi r > rhi l then l\<lparr>rhi := rhi r\<rparr> else l"
    have "{rlo ?l .. rhi ?l} = {rlo l .. rhi l} \<union> {rlo r .. rhi r}"
      using True "2.prems" by auto
    moreover have "rset (coalesce ?l rs) = {rlo ?l .. rhi ?l} \<union> rset rs"
      using True "2.prems" by (intro "2.IH"(1)) auto
    ultimately show ?thesis using True by auto
  next
    case False
    with 2 show ?thesis by auto
  qed
qed simp

lemma normal_coalesce:
  "rlo l \<le> rhi l \<Longrightarrow> wf_ranges rs \<Longrightarrow> sorted (map rlo (l # rs)) \<Longrightarrow> normal (coalesce l rs)"
proof (induction l rs rule: coalesce.induct)
  case (2 l r rs)
  show ?case
  proof (cases "rlo r \<le> rhi l + 1")
    case True
    let ?l = "if rhi r > rhi l then l\<lparr>rhi := rhi r\<rparr> else l"
    have "normal (coalesce ?l rs)"
      using True "2.prems" by (intro "2.IH"(1)) auto
    with True show ?thesis by simp
  next
    case False
    have "\<forall>x \<in> set (coalesce r rs). rlo r \<le> rlo x"
      using "2.prems" coalesce_lo [of rs r] by auto
    with False 2 show ?thesis by auto
  qed
qed simp

lemma sort_key_Cons_props:
  assumes "sort_key rlo rs = r # rest" and "wf_ranges rs"
  shows "rlo r \<le> rhi r" "wf_ranges rest" "sorted (map rlo (r # rest))"
    and "rset rs = {rlo r .. rhi r} \<union> rset rest"
proof -
  have "wf_ranges (r # rest)" "sorted (map rlo (r # rest))" "rset (r # rest) = rset rs"
    using assms wf_ranges_sort_key [of rlo rs] sorted_sort_key [of rlo rs]
      rset_sort_key [of rlo rs] by simp_all
  then show "rlo r \<le> rhi r" "wf_ranges rest" "sorted (map rlo (r # rest))"
    "rset rs = {rlo r .. rhi r} \<union> rset rest" by auto
qed

lemma normalize_correct:
  assumes "wf_ranges rs"
  shows "rset (normalize rs) = rset rs \<and> normal (normalize rs)"
proof (cases "sort_key rlo rs")
  case Nil
  then have "rset rs = {}" using rset_sort_key [of rlo rs] by simp
  with Nil show ?thesis by (simp add: normalize_def)
next
  case (Cons r rest)
  note props = sort_key_Cons_props [OF Cons assms]
  show ?thesis
    using Cons props(4) rset_coalesce [OF props(1-3)] normal_coalesce [OF props(1-3)]
    by (simp add: normalize_def)
qed

lemmas rset_normalize [simp] = normalize_correct [THEN conjunct1]
lemmas normal_normalize [simp, wf_intros] = normalize_correct [THEN conjunct2]

lemma normal_build [wf_intros]: "wf_ranges (sb_ranges b) \<Longrightarrow> normal (ranges (build b))"
  by (simp add: build_def)

lemma rset_build: "wf_ranges (sb_ranges b) \<Longrightarrow> rset (ranges (build b)) = rset (sb_ranges b)"
  by (simp add: build_def)

text \<open>
  A normal form is determined by the set it denotes. So the tie order of Go's unstable
  \<open>sort.Slice\<close> cannot change the result of \<open>normalize\<close>.
\<close>

lemma normal_rset_empty: "normal rs \<Longrightarrow> rset rs = {} \<longleftrightarrow> rs = []"
  by (cases rs) auto

lemma normal_Cons_rlo: "normal (r # rs) \<Longrightarrow> x \<in> rset (r # rs) \<Longrightarrow> rlo r \<le> x"
  by (fastforce simp: rset_def)

lemma normal_gap: "normal (r # rs) \<Longrightarrow> rhi r + 1 \<notin> rset (r # rs)"
  by (fastforce simp: rset_def)

lemma normal_head_unique:
  assumes "normal (r # rs)" "normal (r' # rs')" "rset (r # rs) = rset (r' # rs')"
  shows "rlo r = rlo r'" and "rhi r = rhi r'"
proof -
  have in1: "rlo r \<in> rset (r' # rs')" and in2: "rlo r' \<in> rset (r # rs)"
    using assms by (metis normal_simps(2) rset_simps(2) UnI1 atLeastAtMost_iff order_refl)+
  show lo: "rlo r = rlo r'"
    using normal_Cons_rlo [OF assms(1) in2] normal_Cons_rlo [OF assms(2) in1] by simp
  have "rhi r + 1 \<notin> {rlo r' .. rhi r'}"
    using normal_gap [OF assms(1)] assms(3) by (simp only: rset_simps) blast
  moreover have "rhi r' + 1 \<notin> {rlo r .. rhi r}"
    using normal_gap [OF assms(2)] assms(3) by (simp only: rset_simps) blast
  moreover have "rlo r \<le> rhi r" "rlo r' \<le> rhi r'" using assms by simp_all
  ultimately show "rhi r = rhi r'" using lo by auto
qed

lemma normal_tail_rset: "normal (r # rs) \<Longrightarrow> rset rs = rset (r # rs) - {rlo r .. rhi r}"
  by (fastforce simp: rset_def)

lemma normal_unique: "normal rs \<Longrightarrow> normal rs' \<Longrightarrow> rset rs = rset rs' \<Longrightarrow> rs = rs'"
proof (induction rs arbitrary: rs')
  case Nil
  then show ?case using normal_rset_empty by fastforce
next
  case (Cons r rs)
  then obtain s ss where rs': "rs' = s # ss"
    using normal_rset_empty by (metis list.exhaust list.discI)
  have head: "rlo r = rlo s" "rhi r = rhi s"
    using normal_head_unique Cons.prems rs' by blast+
  have "rset rs = rset ss"
    using normal_tail_rset Cons.prems rs' head by metis
  then have "rs = ss" using Cons rs' by simp
  with head rs' show ?case by simp
qed

subsection \<open>Complement\<close>

lemma addComplement_loop_correct:
  "normal rs \<Longrightarrow> \<forall>r \<in> set rs. prev \<le> rhi r + 1 \<Longrightarrow> addComplement_loop b prev rs = (b', prev') \<Longrightarrow>
   prev \<le> prev'
   \<and> rset (sb_ranges b') = rset (sb_ranges b) \<union> ({prev ..< prev'} - rset rs)
   \<and> (\<forall>r \<in> set rs. rhi r < prev')
   \<and> wf_ranges (sb_ranges b') = wf_ranges (sb_ranges b)"
proof (induction b prev rs arbitrary: b' prev' rule: addComplement_loop.induct)
  case (2 b prev r rs)
  let ?b = "if rlo r > prev then addRange b prev (rlo r - 1) else b"
  let ?p = "if rhi r + 1 > prev then rhi r + 1 else prev"
  have p: "?p = rhi r + 1" using "2.prems" by auto
  have wf: "\<forall>x \<in> set rs. rlo x \<le> rhi x"
    using "2.prems"(1) by (simp add: normal_def wf_ranges_def)
  have ih: "?p \<le> prev' \<and> rset (sb_ranges b') = rset (sb_ranges ?b) \<union> ({?p ..< prev'} - rset rs)
      \<and> (\<forall>r \<in> set rs. rhi r < prev') \<and> wf_ranges (sb_ranges b') = wf_ranges (sb_ranges ?b)"
    using "2.prems" wf by (intro "2.IH" [OF refl refl]) (force simp: Let_def)+
  have eb: "rset (sb_ranges ?b) = rset (sb_ranges b) \<union> {prev ..< rlo r}"
    by auto
  have gap: "rset rs \<inter> {..rhi r + 1} = {}"
    using "2.prems"(1) by (fastforce simp: rset_def)
  have lohi: "rlo r \<le> rhi r" using "2.prems"(1) by simp
  have "{prev ..< rlo r} \<union> ({rhi r + 1 ..< prev'} - rset rs) = {prev ..< prev'} - rset (r # rs)"
    using gap lohi ih p "2.prems"(2) by auto
  with ih eb p "2.prems"(2) show ?case by (auto split: if_splits)
qed auto

lemma addComplement_loop_le:
  "addComplement_loop b prev rs = (b', prev') \<Longrightarrow> \<forall>r \<in> set rs. rhi r \<le> m \<Longrightarrow> prev \<le> m + 1 \<Longrightarrow>
   prev' \<le> m + 1"
  by (induction b prev rs rule: addComplement_loop.induct) (auto simp: Let_def split: if_splits)

lemma addComplement_correct:
  assumes "wf_ranges rs" and "rset rs \<subseteq> {0 .. 0x10FFFF}"
  shows "rset (sb_ranges (addComplement b rs)) = rset (sb_ranges b) \<union> ({0 .. 0x10FFFF} - rset rs)"
    and "wf_ranges (sb_ranges (addComplement b rs)) = wf_ranges (sb_ranges b)"
proof -
  obtain b' prev where loop: "addComplement_loop b 0 (normalize rs) = (b', prev)"
    by force
  have n: "normal (normalize rs)" "rset (normalize rs) = rset rs" using assms by simp_all
  have hi: "\<forall>r \<in> set (normalize rs). 0 \<le> rlo r \<and> rlo r \<le> rhi r \<and> rhi r \<le> 0x10FFFF"
  proof
    fix r assume r: "r \<in> set (normalize rs)"
    then have "rlo r \<le> rhi r" using normal_wf [OF n(1)] by (simp add: wf_ranges_def)
    moreover have "{rlo r .. rhi r} \<subseteq> rset (normalize rs)"
      using r by (auto simp: rset_def)
    then have "{rlo r .. rhi r} \<subseteq> {0 .. 0x10FFFF}"
      using n(2) assms(2) by blast
    ultimately show "0 \<le> rlo r \<and> rlo r \<le> rhi r \<and> rhi r \<le> 0x10FFFF" by auto
  qed
  have c: "rset (sb_ranges b') = rset (sb_ranges b) \<union> ({0 ..< prev} - rset rs)"
    "\<forall>r \<in> set (normalize rs). rhi r < prev" "0 \<le> prev"
    "wf_ranges (sb_ranges b') = wf_ranges (sb_ranges b)"
    using addComplement_loop_correct [OF n(1) _ loop] hi n(2) by force+
  have le: "prev \<le> 0x10FFFF + 1"
    using addComplement_loop_le [OF loop, of "0x10FFFF"] hi by simp
  have top: "rset rs \<inter> {prev ..} = {}"
    using c(2) unfolding n(2) [symmetric] by (auto simp: rset_def)
  show "rset (sb_ranges (addComplement b rs)) = rset (sb_ranges b) \<union> ({0 .. 0x10FFFF} - rset rs)"
    using loop le c(1,3) top assms(2) by (auto simp: addComplement_def split: if_splits)
  show "wf_ranges (sb_ranges (addComplement b rs)) = wf_ranges (sb_ranges b)"
    using loop c(4) by (simp add: addComplement_def)
qed

subsection \<open>Membership: the binary search\<close>

lemma normal_nth_less:
  "normal rs \<Longrightarrow> i < j \<Longrightarrow> j < length rs \<Longrightarrow> rhi (rs ! i) + 1 < rlo (rs ! j)"
  by (simp add: normal_def sorted_wrt_iff_nth_less)

lemma normal_nth_wf: "normal rs \<Longrightarrow> i < length rs \<Longrightarrow> rlo (rs ! i) \<le> rhi (rs ! i)"
  by (simp add: normal_def wf_ranges_def)

lemma contains_loop_correct:
  "normal rs \<Longrightarrow> hi \<le> length rs \<Longrightarrow>
   contains_loop rs r lo hi \<longleftrightarrow> (\<exists>i. lo \<le> i \<and> i < hi \<and> rlo (rs ! i) \<le> r \<and> r \<le> rhi (rs ! i))"
proof (induction rs r lo hi rule: contains_loop.induct)
  case (1 rs r lo hi)
  show ?case
  proof (cases "lo < hi")
    case False
    then show ?thesis by (subst contains_loop.simps) auto
  next
    case True
    define mid where "mid = (lo + hi) div 2"
    have mid: "lo \<le> mid" "mid < hi" using True by (auto simp: mid_def)
    have step: "contains_loop rs r lo hi \<longleftrightarrow>
        (if r < rlo (rs ! mid) then contains_loop rs r lo mid
         else if r > rhi (rs ! mid) then contains_loop rs r (mid + 1) hi else True)"
      using True by (subst contains_loop.simps) (simp add: mid_def Let_def)
    have below: "rhi (rs ! i) < rlo (rs ! mid)" if "i < mid" for i
      using that mid normal_nth_less [OF "1.prems"(1), of i mid] "1.prems"(2) by simp
    have above: "rhi (rs ! mid) < rlo (rs ! i)" if "mid < i" "i < hi" for i
      using that normal_nth_less [OF "1.prems"(1), of mid i] "1.prems"(2) by simp
    have wf: "rlo (rs ! mid) \<le> rhi (rs ! mid)"
      using normal_nth_wf [OF "1.prems"(1)] mid "1.prems"(2) by simp
    consider (lt) "r < rlo (rs ! mid)" | (gt) "r > rhi (rs ! mid)"
      | (eq) "rlo (rs ! mid) \<le> r" "r \<le> rhi (rs ! mid)" by linarith
    then show ?thesis
    proof cases
      case lt
      have "r < rlo (rs ! i)" if "mid \<le> i" "i < hi" for i
        using that lt above [of i] wf by (cases "i = mid") auto
      moreover have "contains_loop rs r lo mid \<longleftrightarrow>
          (\<exists>i. lo \<le> i \<and> i < mid \<and> rlo (rs ! i) \<le> r \<and> r \<le> rhi (rs ! i))"
        using "1.IH"(1) [OF True mid_def lt] "1.prems" mid by simp
      moreover have "\<exists>i. lo \<le> i \<and> i < mid \<and> rlo (rs ! i) \<le> r \<and> r \<le> rhi (rs ! i)"
        if "lo \<le> i" "i < hi" "rlo (rs ! i) \<le> r" "r \<le> rhi (rs ! i)" for i
        using that calculation(1) [of i] by (intro exI [of _ i]) force
      ultimately show ?thesis using step lt mid order_less_trans by (simp, blast)
    next
      case gt
      have "rhi (rs ! i) < r" if "i \<le> mid" for i
        using that gt below [of i] wf by (cases "i = mid") auto
      moreover have "contains_loop rs r (mid + 1) hi \<longleftrightarrow>
          (\<exists>i. mid + 1 \<le> i \<and> i < hi \<and> rlo (rs ! i) \<le> r \<and> r \<le> rhi (rs ! i))"
        using "1.IH"(2) [OF True mid_def] gt wf "1.prems" by simp
      moreover have "\<exists>i. mid + 1 \<le> i \<and> i < hi \<and> rlo (rs ! i) \<le> r \<and> r \<le> rhi (rs ! i)"
        if "lo \<le> i" "i < hi" "rlo (rs ! i) \<le> r" "r \<le> rhi (rs ! i)" for i
        using that calculation(1) [of i] by (intro exI [of _ i]) force
      moreover have "lo \<le> i" if "mid + 1 \<le> i" for i using that mid by simp
      ultimately show ?thesis using step gt wf by (simp, blast)
    next
      case eq
      then show ?thesis using step mid by auto
    qed
  qed
qed

lemma contains_correct: "normal (ranges s) \<Longrightarrow> contains s r \<longleftrightarrow> r \<in> rset (ranges s)"
  by (simp add: contains_def contains_loop_correct rset_def Bex_def in_set_conv_nth) blast

subsection \<open>Intersection and difference\<close>

lemma intersect_inner_correct:
  "rset (sb_ranges (intersect_inner out ra rbs)) =
     rset (sb_ranges out) \<union> ({rlo ra .. rhi ra} \<inter> rset rbs)"
  "wf_ranges (sb_ranges (intersect_inner out ra rbs)) = wf_ranges (sb_ranges out)"
  by (induction out ra rbs rule: intersect_inner.induct) (auto simp: Let_def)

lemma intersect_outer_correct:
  "rset (sb_ranges (intersect_outer out ras rbs)) = rset (sb_ranges out) \<union> (rset ras \<inter> rset rbs)"
  "wf_ranges (sb_ranges (intersect_outer out ras rbs)) = wf_ranges (sb_ranges out)"
  by (induction out ras rbs rule: intersect_outer.induct) (auto simp: intersect_inner_correct)

lemma intersect_correct:
  "rset (ranges (intersect a b)) = rset (ranges a) \<inter> rset (ranges b)"
  "normal (ranges (intersect a b))"
  by (simp_all add: intersect_def rset_build normal_build intersect_outer_correct)

lemma subtract_inner_correct:
  "normal rbs \<Longrightarrow> subtract_inner out ra lo rbs = (out', lo') \<Longrightarrow>
   rset (sb_ranges out') \<union> {lo' .. rhi ra} = rset (sb_ranges out) \<union> ({lo .. rhi ra} - rset rbs)
   \<and> wf_ranges (sb_ranges out') = wf_ranges (sb_ranges out)"
proof (induction out ra lo rbs arbitrary: out' lo' rule: subtract_inner.induct)
  case (2 out ra lo rb rbs)
  have gap: "rset rbs \<inter> {..rhi rb} = {}" "rlo rb \<le> rhi rb"
    using "2.prems"(1) by (fastforce simp: rset_def)+
  let ?out = "if rlo rb > lo then addRange out lo (rlo rb - 1) else out"
  have out: "rset (sb_ranges ?out) = rset (sb_ranges out) \<union> {lo ..< rlo rb}"
    by auto
  consider (skip) "rhi rb < lo \<or> rlo rb > rhi ra"
    | (leave) "\<not> (rhi rb < lo \<or> rlo rb > rhi ra)" "rhi rb + 1 > rhi ra"
    | (go) "\<not> (rhi rb < lo \<or> rlo rb > rhi ra)" "\<not> rhi rb + 1 > rhi ra" by blast
  then show ?case
  proof cases
    case skip
    then have "{lo .. rhi ra} - rset (rb # rbs) = {lo .. rhi ra} - rset rbs" by auto
    with skip 2 show ?thesis by auto
  next
    case leave
    then have "out' = ?out" "lo' = rhi rb + 1" using "2.prems"(2) by (auto simp: Let_def)
    moreover have "{lo .. rhi ra} - rset (rb # rbs) = {lo ..< rlo rb}"
      using leave gap by auto
    ultimately show ?thesis using leave out by auto
  next
    case go
    then have "subtract_inner ?out ra (rhi rb + 1) rbs = (out', lo')"
      using "2.prems"(2) by (auto simp: Let_def)
    then have ih: "rset (sb_ranges out') \<union> {lo' .. rhi ra} =
        rset (sb_ranges ?out) \<union> ({rhi rb + 1 .. rhi ra} - rset rbs)
        \<and> wf_ranges (sb_ranges out') = wf_ranges (sb_ranges ?out)"
      using "2.IH"(2) [OF go(1) refl refl] go "2.prems"(1) by (auto split: if_splits)
    moreover have "{lo ..< rlo rb} \<union> ({rhi rb + 1 .. rhi ra} - rset rbs) =
        {lo .. rhi ra} - rset (rb # rbs)"
      using go gap by auto
    ultimately show ?thesis using out by (auto split: if_splits)
  qed
qed auto

lemma subtract_outer_correct:
  "normal rbs \<Longrightarrow>
   rset (sb_ranges (subtract_outer out ras rbs)) = rset (sb_ranges out) \<union> (rset ras - rset rbs)
   \<and> wf_ranges (sb_ranges (subtract_outer out ras rbs)) = wf_ranges (sb_ranges out)"
proof (induction out ras rbs rule: subtract_outer.induct)
  case (2 out ra ras rbs)
  obtain out' lo where inner: "subtract_inner out ra (rlo ra) rbs = (out', lo)" by force
  let ?out = "if lo \<le> rhi ra then addRange out' lo (rhi ra) else out'"
  have "rset (sb_ranges ?out) = rset (sb_ranges out') \<union> {lo .. rhi ra}" by auto
  then have "rset (sb_ranges ?out) = rset (sb_ranges out) \<union> ({rlo ra .. rhi ra} - rset rbs)"
    and "wf_ranges (sb_ranges ?out) = wf_ranges (sb_ranges out)"
    using subtract_inner_correct [OF "2.prems" inner] by auto
  with "2.IH" [OF inner [symmetric] refl] "2.prems" inner show ?case by auto
qed simp

lemma subtract_correct:
  assumes "normal (ranges b)"
  shows "rset (ranges (subtract a b)) = rset (ranges a) - rset (ranges b)"
    and "normal (ranges (subtract a b))"
  using subtract_outer_correct [OF assms, of empty_builder "ranges a"]
  by (simp_all add: subtract_def rset_build normal_build)

subsection \<open>Class escapes\<close>

text \<open>
  The code points each class escape denotes, as sets: digits, word characters (with the two
  code points that fold to word characters under \<open>/iu\<close>) and white space.
\<close>

fun escape_set :: "ClassEscKind \<Rightarrow> bool \<Rightarrow> rune set" where
  "escape_set EscDigit f = {0x30 .. 0x39}"
| "escape_set EscNotDigit f = {0 .. 0x10FFFF} - {0x30 .. 0x39}"
| "escape_set EscWord f = {r. wordCharFold r f}"
| "escape_set EscNotWord f = {0 .. 0x10FFFF} - {r. wordCharFold r f}"
| "escape_set EscSpace f = rset spaceRanges"
| "escape_set EscNotSpace f = {0 .. 0x10FFFF} - rset spaceRanges"

lemma escape_tables_wf [simp]:
  "wf_ranges digitRanges" "wf_ranges wordRanges" "wf_ranges wordFoldRanges" "wf_ranges spaceRanges"
  by (simp_all add: digitRanges_def wordRanges_def wordFoldRanges_def spaceRanges_def)

lemma escape_tables_code_points:
  "rset digitRanges \<subseteq> {0 .. 0x10FFFF}" "rset wordRanges \<subseteq> {0 .. 0x10FFFF}"
  "rset wordFoldRanges \<subseteq> {0 .. 0x10FFFF}" "rset spaceRanges \<subseteq> {0 .. 0x10FFFF}"
  by (auto simp: digitRanges_def wordRanges_def wordFoldRanges_def spaceRanges_def)

lemma rset_wordRanges:
  "rset (if f then wordFoldRanges else wordRanges) = {r. wordCharFold r f}"
  by (auto simp: wordRanges_def wordFoldRanges_def wordCharFold_def isWordChar_def)

lemma addClassEscape_correct:
  "rset (sb_ranges (addClassEscape b k f)) = rset (sb_ranges b) \<union> escape_set k f"
  "wf_ranges (sb_ranges (addClassEscape b k f)) = wf_ranges (sb_ranges b)"
proof -
  let ?wr = "if f then wordFoldRanges else wordRanges"
  have wr: "wf_ranges ?wr" "rset ?wr \<subseteq> {0 .. 0x10FFFF}"
    using escape_tables_code_points by auto
  have d: "rset digitRanges = {0x30 .. 0x39}" by (simp add: digitRanges_def)
  show "rset (sb_ranges (addClassEscape b k f)) = rset (sb_ranges b) \<union> escape_set k f"
    using wr d escape_tables_code_points
    by (cases k) (simp_all add: addClassEscape_def Let_def rset_addRanges addComplement_correct
        rset_wordRanges)
  show "wf_ranges (sb_ranges (addClassEscape b k f)) = wf_ranges (sb_ranges b)"
    using wr escape_tables_code_points
    by (cases k) (simp_all add: addClassEscape_def Let_def addComplement_correct)
qed

subsection \<open>The interface the class compiler relies on\<close>

text \<open>
  What a client of the code-point sets may assume: a membership test that decides the denoted
  set, and intersection, difference and complement that compute the set operation and keep the
  invariant. Intersections and differences of several operands are folds, as in
  \<open>compileClassSet\<close>.
\<close>

definition complementSet :: "runeSet \<Rightarrow> runeSet" where
  "complementSet s = build (addComplement empty_builder (ranges s))"

locale point_sets =
  fixes invar :: "'s \<Rightarrow> bool"
    and points :: "'s \<Rightarrow> rune set"
    and mem :: "'s \<Rightarrow> rune \<Rightarrow> bool"
    and inter :: "'s \<Rightarrow> 's \<Rightarrow> 's"
    and diff :: "'s \<Rightarrow> 's \<Rightarrow> 's"
    and compl :: "'s \<Rightarrow> 's"
  assumes mem: "invar s \<Longrightarrow> mem s r \<longleftrightarrow> r \<in> points s"
    and inter: "points (inter s t) = points s \<inter> points t" "invar (inter s t)"
    and diff: "invar t \<Longrightarrow> points (diff s t) = points s - points t" "invar t \<Longrightarrow> invar (diff s t)"
    and compl: "invar s \<Longrightarrow> points s \<subseteq> {0 .. 0x10FFFF} \<Longrightarrow> points (compl s) = {0 .. 0x10FFFF} - points s"
      "invar s \<Longrightarrow> points s \<subseteq> {0 .. 0x10FFFF} \<Longrightarrow> invar (compl s)"
begin

lemma foldl_inter:
  "invar s \<Longrightarrow> points (foldl inter s ts) = points s \<inter> (\<Inter>t \<in> set ts. points t) \<and> invar (foldl inter s ts)"
  by (induction ts arbitrary: s) (auto simp: inter)

lemma foldl_diff:
  "invar s \<Longrightarrow> \<forall>t \<in> set ts. invar t \<Longrightarrow>
   points (foldl diff s ts) = points s - (\<Union>t \<in> set ts. points t) \<and> invar (foldl diff s ts)"
  by (induction ts arbitrary: s) (auto simp: diff)

lemma mem_compl:
  "invar s \<Longrightarrow> points s \<subseteq> {0 .. 0x10FFFF} \<Longrightarrow> 0 \<le> r \<Longrightarrow> r \<le> 0x10FFFF \<Longrightarrow>
   mem (compl s) r \<longleftrightarrow> \<not> mem s r"
  by (simp add: mem compl)

lemma compl_inter_mem:
  assumes "invar s" "points s \<subseteq> {0 .. 0x10FFFF}" "0 \<le> r" "r \<le> 0x10FFFF" "invar t"
  shows "mem (inter t (compl s)) r \<longleftrightarrow> mem (diff t s) r"
  using assms by (simp add: mem inter diff compl)

end

interpretation runes: point_sets "\<lambda>s. normal (ranges s)" "\<lambda>s. rset (ranges s)" contains intersect subtract
  complementSet
proof unfold_locales
  fix s t :: runeSet and r :: rune
  assume s: "normal (ranges s)"
  show "contains s r \<longleftrightarrow> r \<in> rset (ranges s)" using s by (rule contains_correct)
  assume "rset (ranges s) \<subseteq> {0 .. 0x10FFFF}"
  then show "rset (ranges (complementSet s)) = {0 .. 0x10FFFF} - rset (ranges s)"
    "normal (ranges (complementSet s))"
    using normal_wf [OF s]
    by (simp_all add: complementSet_def rset_build normal_build addComplement_correct)
qed (simp_all add: intersect_correct subtract_correct)

subsection \<open>Properties\<close>

text \<open>
  C11: Building a set and searching it. For every builder with well-formed ranges (any order, any
  overlaps) the binary search of \<open>contains\<close> on the built set answers exactly whether some added
  range covers the code point, and two builders that cover the same code points build equal sets,
  so the unstable sort of \<open>normalize\<close> has no visible effect.
\<close>

theorem build_contains:
  assumes "wf_ranges (sb_ranges b)" "wf_ranges (sb_ranges b')"
  shows "(contains (build b) r \<longleftrightarrow> (\<exists>g \<in> set (sb_ranges b). rlo g \<le> r \<and> r \<le> rhi g)) \<and>
    (rset (sb_ranges b) = rset (sb_ranges b') \<longrightarrow> build b = build b')"
proof -
  have "contains (build b) r \<longleftrightarrow> r \<in> rset (sb_ranges b)"
    using contains_correct [OF normal_build [OF assms(1)]] rset_build [OF assms(1)] by simp
  moreover have "build b = build b'" if "rset (sb_ranges b) = rset (sb_ranges b')"
    using normal_unique [OF normal_build [OF assms(1)] normal_build [OF assms(2)]] that
      rset_build [OF assms(1)] rset_build [OF assms(2)] by simp
  ultimately show ?thesis by (auto simp: rset_def)
qed

theorem build_contains_witness:
  "contains (build \<lparr>sb_ranges = [rr 70 80, rr 1 5, rr 3 9]\<rparr>) 8 \<and>
   build \<lparr>sb_ranges = [rr 70 80, rr 1 5, rr 3 9]\<rparr> = build \<lparr>sb_ranges = [rr 1 9, rr 70 80]\<rparr>"
proof -
  let ?a = "\<lparr>sb_ranges = [rr 70 80, rr 1 5, rr 3 9]\<rparr>" and ?b = "\<lparr>sb_ranges = [rr 1 9, rr 70 80]\<rparr>"
  have "wf_ranges (sb_ranges ?a)" "wf_ranges (sb_ranges ?b)" by simp_all
  from build_contains [OF this, of 8] show ?thesis by auto
qed

text \<open>
  C12: The set operations of character classes. On normalized sets \<open>intersect\<close>, \<open>subtract\<close> and the
  complement that negation builds return normalized sets that contain exactly the code points of
  the intersection, the difference and the complement within U+0000..U+10FFFF.
\<close>

theorem set_operations:
  assumes "normal (ranges a)" "normal (ranges b)" "rset (ranges a) \<subseteq> {0 .. 0x10FFFF}"
  shows "normal (ranges (intersect a b)) \<and> normal (ranges (subtract a b)) \<and> normal (ranges (complementSet a)) \<and>
    (contains (intersect a b) r \<longleftrightarrow> contains a r \<and> contains b r) \<and>
    (contains (subtract a b) r \<longleftrightarrow> contains a r \<and> \<not> contains b r) \<and>
    (contains (complementSet a) r \<longleftrightarrow> r \<in> {0 .. 0x10FFFF} \<and> \<not> contains a r)"
  using runes.inter [of a b] runes.diff [OF assms(2), of a] runes.compl [OF assms(1,3)] runes.mem assms(1,2)
  by auto

theorem set_operations_witness:
  "let a = build \<lparr>sb_ranges = [rr 10 20, rr 40 50]\<rparr>; b = build \<lparr>sb_ranges = [rr 15 45]\<rparr> in
   contains (intersect a b) 42 \<and> \<not> contains (subtract a b) 42 \<and> contains (complementSet a) 0x10FFFF"
proof -
  let ?a = "\<lparr>sb_ranges = [rr 10 20, rr 40 50]\<rparr>" and ?b = "\<lparr>sb_ranges = [rr 15 45]\<rparr>"
  have w: "wf_ranges (sb_ranges ?a)" "wf_ranges (sb_ranges ?b)" by simp_all
  have n: "normal (ranges (build ?a))" "normal (ranges (build ?b))" using w normal_build by blast+
  have m: "contains (build ?a) x \<longleftrightarrow> x \<in> rset (sb_ranges ?a)" "contains (build ?b) x \<longleftrightarrow> x \<in> rset (sb_ranges ?b)" for x
    using contains_correct [OF n(1)] contains_correct [OF n(2)] rset_build [OF w(1)] rset_build [OF w(2)] by simp_all
  have "rset (ranges (build ?a)) \<subseteq> {0 .. 0x10FFFF}" using rset_build [OF w(1)] by auto
  note ops = set_operations [OF n this]
  show ?thesis using ops [of 42] ops [of "0x10FFFF"] by (simp add: m Let_def)
qed


end
