(* ===== verification/Case_Fold.thy ===== *)
theory Case_Fold
  imports Rune_Set
begin

text \<open>
  Case folding for the \<open>i\<close> flag (the second half of \<open>src/jsregexp/runeset.go\<close>). Go's \<open>unicode\<close>
  package supplies the case tables; they are data of the standard library, so the model takes
  them as a record of functions. What the code relies on is that the orbit of
  \<open>unicode.SimpleFold\<close> is a cycle, as its documentation states.
\<close>

record unicode_db =
  ToUpper :: "rune \<Rightarrow> rune"
  ToLower :: "rune \<Rightarrow> rune"
  SimpleFold :: "rune \<Rightarrow> rune"
  IsLetter :: "rune \<Rightarrow> bool"
  IsDigit :: "rune \<Rightarrow> bool"
  IsNl :: "rune \<Rightarrow> bool"
  IsMn :: "rune \<Rightarrow> bool"
  IsMc :: "rune \<Rightarrow> bool"
  IsNd :: "rune \<Rightarrow> bool"
  IsPc :: "rune \<Rightarrow> bool"

text \<open>
  The loop \<open>for c := SimpleFold(r); c != r; c = SimpleFold(c)\<close>: the code points it visits, in
  order. An orbit has at most as many elements as there are code points, so \<open>0x110000\<close> rounds
  are enough whenever the orbit closes (lemma \<open>orbit_from_enough\<close>).
\<close>

function orbit_from :: "(rune \<Rightarrow> rune) \<Rightarrow> rune \<Rightarrow> int \<Rightarrow> rune \<Rightarrow> rune list" where
  "orbit_from f r fuel c =
     (if fuel \<le> 0 \<or> c = r then [] else c # orbit_from f r (fuel - 1) (f c))"
  by pat_completeness auto
termination
  by (relation "measure (\<lambda>(f, r, fuel, c). nat fuel)") auto

declare orbit_from.simps [simp del]

definition orbit_fuel :: int where
  "orbit_fuel = 0x110000"

definition fold_orbit :: "unicode_db \<Rightarrow> rune \<Rightarrow> rune list" where
  "fold_orbit db r = orbit_from (SimpleFold db) r orbit_fuel (SimpleFold db r)"

definition scfSimplePairs :: "(rune \<times> rune) list" where
  "scfSimplePairs =
    [(0x1E9E, 0x00DF), (0x1F88, 0x1F80), (0x1F89, 0x1F81), (0x1F8A, 0x1F82),
     (0x1F8B, 0x1F83), (0x1F8C, 0x1F84), (0x1F8D, 0x1F85), (0x1F8E, 0x1F86),
     (0x1F8F, 0x1F87), (0x1F98, 0x1F90), (0x1F99, 0x1F91), (0x1F9A, 0x1F92),
     (0x1F9B, 0x1F93), (0x1F9C, 0x1F94), (0x1F9D, 0x1F95), (0x1F9E, 0x1F96),
     (0x1F9F, 0x1F97), (0x1FA8, 0x1FA0), (0x1FA9, 0x1FA1), (0x1FAA, 0x1FA2),
     (0x1FAB, 0x1FA3), (0x1FAC, 0x1FA4), (0x1FAD, 0x1FA5), (0x1FAE, 0x1FA6),
     (0x1FAF, 0x1FA7), (0x1FBC, 0x1FB3), (0x1FCC, 0x1FC3), (0x1FD3, 0x0390),
     (0x1FE3, 0x03B0), (0x1FFC, 0x1FF3), (0xFB05, 0xFB06)]"

text \<open>
  \<open>foldExtra[r]\<close>: the other members of every class \<open>r\<close> belongs to, a class being the two orbits
  of one pair. Go builds it from maps, so the order of the list is unspecified there; it is
  only ever searched and minimised over.
\<close>

definition fold_class :: "unicode_db \<Rightarrow> rune \<times> rune \<Rightarrow> rune list" where
  "fold_class db p = (fst p # fold_orbit db (fst p)) @ (snd p # fold_orbit db (snd p))"

definition foldExtra :: "unicode_db \<Rightarrow> rune \<Rightarrow> rune list" where
  "foldExtra db r =
     remdups (concat (map (\<lambda>p. let cls = fold_class db p in
       if r \<in> set cls then filter (\<lambda>c. c \<noteq> r) cls else []) scfSimplePairs))"

definition simpleFold :: "unicode_db \<Rightarrow> rune \<Rightarrow> rune" where
  "simpleFold db r =
     foldl (\<lambda>m c. if c < m then c else m)
       (foldl (\<lambda>m c. if c < m then c else m) r (fold_orbit db r)) (foldExtra db r)"

definition canonicalize :: "unicode_db \<Rightarrow> rune \<Rightarrow> bool \<Rightarrow> rune" where
  "canonicalize db r unicodeMode =
     (if unicodeMode then simpleFold db r
      else let up = ToUpper db r in if r \<ge> 128 \<and> up < 128 then r else up)"

definition classContainsFold :: "unicode_db \<Rightarrow> runeSet \<Rightarrow> rune \<Rightarrow> bool \<Rightarrow> bool \<Rightarrow> bool" where
  "classContainsFold db s r ic unicodeMode =
     (if contains s r then True
      else if \<not> ic then False
      else if unicodeMode then
        if list_ex (contains s) (fold_orbit db r) then True
        else list_ex (contains s) (foldExtra db r)
      else list_ex (\<lambda>v. v \<noteq> r \<and> (r < 128) = (v < 128) \<and> contains s v) [ToUpper db r, ToLower db r])"

subsection \<open>Orbits\<close>

text \<open>The documented behaviour of \<open>unicode.SimpleFold\<close> the loops rely on.\<close>

definition orbits_close :: "unicode_db \<Rightarrow> bool" where
  "orbits_close db \<longleftrightarrow> (\<forall>r. \<exists>n. 0 < n \<and> n \<le> 0x110000 \<and> (SimpleFold db ^^ n) r = r)"

lemma orbit_from_closes:
  "(f ^^ n) c = r \<Longrightarrow> \<forall>i < n. (f ^^ i) c \<noteq> r \<Longrightarrow> int n \<le> fuel \<Longrightarrow>
   orbit_from f r fuel c = map (\<lambda>i. (f ^^ i) c) [0 ..< n]"
proof (induction n arbitrary: c fuel)
  case 0
  then show ?case by (simp add: orbit_from.simps)
next
  case (Suc n)
  have "(f ^^ n) (f c) = r" using Suc.prems(1) by (simp add: funpow_swap1)
  moreover have "\<forall>i < n. (f ^^ i) (f c) \<noteq> r"
    using Suc.prems(2) by (metis Suc_less_eq funpow_Suc_right comp_apply)
  ultimately have "orbit_from f r (fuel - 1) (f c) = map (\<lambda>i. (f ^^ i) (f c)) [0 ..< n]"
    using Suc.prems(3) by (intro Suc.IH) auto
  moreover have "c \<noteq> r" "\<not> fuel \<le> 0" using Suc.prems by fastforce+
  moreover have "map (\<lambda>i. (f ^^ i) c) [0 ..< Suc n] = c # map (\<lambda>i. (f ^^ i) (f c)) [0 ..< n]"
    by (simp add: map_upt_Suc funpow_swap1 del: upt_Suc)
  ultimately show ?case by (simp add: orbit_from.simps [of f r fuel c])
qed

definition orbit :: "unicode_db \<Rightarrow> rune \<Rightarrow> rune set" where
  "orbit db r = {(SimpleFold db ^^ i) r | i. True}"

lemma orbit_from_enough:
  assumes "orbits_close db"
  shows "insert r (set (fold_orbit db r)) = orbit db r"
proof -
  let ?f = "SimpleFold db"
  obtain n where n: "0 < n" "n \<le> 0x110000" "(?f ^^ n) r = r"
    using assms by (auto simp: orbits_close_def)
  define m where "m = (LEAST m. 0 < m \<and> (?f ^^ m) r = r)"
  have m: "0 < m" "(?f ^^ m) r = r" and min: "\<And>i. 0 < i \<Longrightarrow> i < m \<Longrightarrow> (?f ^^ i) r \<noteq> r"
    using LeastI [of "\<lambda>m. 0 < m \<and> (?f ^^ m) r = r"] n not_less_Least
    unfolding m_def by blast+
  have "m \<le> n" using n min by (meson leI)
  obtain k where k: "m = Suc k" using m(1) gr0_implies_Suc by blast
  have "fold_orbit db r = map (\<lambda>i. (?f ^^ i) (?f r)) [0 ..< k]"
    unfolding fold_orbit_def
  proof (rule orbit_from_closes)
    show "(?f ^^ k) (?f r) = r" using m(2) k by (simp add: funpow_swap1)
    show "\<forall>i < k. (?f ^^ i) (?f r) \<noteq> r" using min k
      by (metis Suc_less_eq zero_less_Suc funpow_Suc_right comp_apply)
    show "int k \<le> orbit_fuel" using k \<open>m \<le> n\<close> n(2) by (simp add: orbit_fuel_def)
  qed
  then have "insert r (set (fold_orbit db r)) = (\<lambda>i. (?f ^^ i) r) ` {0 ..< m}"
    unfolding k by (simp add: image_Suc_atLeastLessThan funpow_swap1 lessThan_Suc_eq_insert_0
        lessThan_atLeast0 [symmetric] image_image)
  also have "\<dots> = orbit db r"
  proof -
    have "(?f ^^ i) r \<in> (\<lambda>i. (?f ^^ i) r) ` {0 ..< m}" for i
      using funpow_mod_eq [OF m(2), of i, symmetric] m(1) by auto
    then show ?thesis by (auto simp: orbit_def)
  qed
  finally show ?thesis .
qed

lemma orbit_refl: "r \<in> orbit db r"
  by (auto simp: orbit_def intro: exI [of _ 0])

lemma orbit_same:
  assumes "orbits_close db" and "s \<in> orbit db r"
  shows "orbit db s = orbit db r"
proof -
  let ?f = "SimpleFold db"
  obtain i where s: "s = (?f ^^ i) r" using assms(2) by (auto simp: orbit_def)
  obtain n where n: "0 < n" "(?f ^^ n) r = r" using assms(1) by (auto simp: orbits_close_def)
  have "(?f ^^ (n * i)) r = r" using funpow_mod_eq [OF n(2), of "n * i"] by simp
  moreover have "n * i - i + i = n * i" using n(1) by simp
  ultimately have "(?f ^^ (n * i - i)) s = r" by (metis s funpow_add comp_apply)
  then have "r \<in> orbit db s" by (auto simp: orbit_def)
  then show ?thesis using assms(2) by (auto simp: orbit_def) (metis funpow_add comp_apply)+
qed

text \<open>The fold class of \<open>r\<close>: its orbit and everything \<open>foldExtra\<close> links it to.\<close>

definition fold_set :: "unicode_db \<Rightarrow> rune \<Rightarrow> rune set" where
  "fold_set db r = insert r (set (fold_orbit db r) \<union> set (foldExtra db r))"

lemma set_fold_class: "orbits_close db \<Longrightarrow> set (fold_class db p) = orbit db (fst p) \<union> orbit db (snd p)"
  using orbit_from_enough [of db "fst p"] orbit_from_enough [of db "snd p"]
  by (auto simp: fold_class_def)

lemma fold_set_orbits:
  assumes "orbits_close db"
  shows "fold_set db r =
    orbit db r \<union> (\<Union>p \<in> set scfSimplePairs. if r \<in> orbit db (fst p) \<union> orbit db (snd p)
                                           then orbit db (fst p) \<union> orbit db (snd p) else {})"
proof -
  have "fold_set db r = orbit db r \<union> set (foldExtra db r)"
    using orbit_from_enough [OF assms, of r] by (auto simp: fold_set_def)
  also have "\<dots> = orbit db r \<union> (\<Union>p \<in> set scfSimplePairs.
      if r \<in> set (fold_class db p) then set (fold_class db p) else {})"
    using orbit_refl [of r db] by (auto simp: foldExtra_def Let_def split: if_splits)
  finally show ?thesis by (simp only: set_fold_class [OF assms])
qed

lemma orbit_mem_iff:
  "orbits_close db \<Longrightarrow> s \<in> orbit db r \<Longrightarrow> s \<in> orbit db x \<longleftrightarrow> r \<in> orbit db x"
  by (metis orbit_same orbit_refl)

lemma fold_set_same:
  assumes "orbits_close db" and "s \<in> orbit db r"
  shows "fold_set db s = fold_set db r"
  unfolding fold_set_orbits [OF assms(1)] Un_iff
  using assms by (simp only: orbit_same [OF assms] orbit_mem_iff [OF assms])

lemma foldl_min: "foldl (\<lambda>m c. if c < m then c else m) (a :: rune) cs = Min (insert a (set cs))"
proof (induction cs arbitrary: a)
  case (Cons c cs)
  have "(if c < a then c else a) = min a c" by auto
  with Cons show ?case by (cases "cs = []") (simp_all add: min.assoc Min_insert2 min.left_commute)
qed simp

lemma simpleFold_Min: "simpleFold db r = Min (fold_set db r)"
proof -
  have "simpleFold db r = Min (insert (Min (insert r (set (fold_orbit db r)))) (set (foldExtra db r)))"
    by (simp add: simpleFold_def foldl_min)
  also have "\<dots> = Min (insert r (set (fold_orbit db r)) \<union> set (foldExtra db r))"
  proof (cases "set (foldExtra db r) = {}")
    case False
    then show ?thesis
      using Min_Un [of "insert r (set (fold_orbit db r))" "set (foldExtra db r)"]
      by (simp del: Min_insert add: Min_insert [of "set (foldExtra db r)"])
  qed simp
  finally show ?thesis by (simp add: fold_set_def)
qed

lemma classContainsFold_unicode:
  assumes "normal (ranges s)"
  shows "classContainsFold db s r True True \<longleftrightarrow> rset (ranges s) \<inter> fold_set db r \<noteq> {}"
  by (auto simp: classContainsFold_def fold_set_def list_ex_iff contains_correct [OF assms])

lemma classContainsFold_plain:
  "normal (ranges s) \<Longrightarrow> classContainsFold db s r False u \<longleftrightarrow> r \<in> rset (ranges s)"
  by (simp add: classContainsFold_def contains_correct)

subsection \<open>A concrete instance\<close>

text \<open>Case tables restricted to ASCII, where the examples of the development evaluate.\<close>

definition ascii_db :: unicode_db where
  "ascii_db =
     \<lparr>ToUpper = (\<lambda>r. if 0x61 \<le> r \<and> r \<le> 0x7A then r - 32 else r),
      ToLower = (\<lambda>r. if 0x41 \<le> r \<and> r \<le> 0x5A then r + 32 else r),
      SimpleFold = (\<lambda>r. if 0x61 \<le> r \<and> r \<le> 0x7A then r - 32 else if 0x41 \<le> r \<and> r \<le> 0x5A then r + 32 else r),
      IsLetter = (\<lambda>r. (0x61 \<le> r \<and> r \<le> 0x7A) \<or> (0x41 \<le> r \<and> r \<le> 0x5A)), IsDigit = (\<lambda>r. 0x30 \<le> r \<and> r \<le> 0x39),
      IsNl = (\<lambda>_. False), IsMn = (\<lambda>_. False), IsMc = (\<lambda>_. False),
      IsNd = (\<lambda>r. 0x30 \<le> r \<and> r \<le> 0x39), IsPc = (\<lambda>r. r = 0x5F)\<rparr>"

lemma ascii_orbits_close: "orbits_close ascii_db"
proof -
  have "(SimpleFold ascii_db ^^ 2) r = r" for r by (auto simp: ascii_db_def numeral_2_eq_2)
  then show ?thesis unfolding orbits_close_def by (intro allI exI [of _ 2]) simp
qed

subsection \<open>Properties\<close>

text \<open>
  C14: Case-insensitive matching is consistent. In Unicode mode \<open>canonicalize\<close> maps every member of
  a \<open>SimpleFold\<close> orbit to one and the same representative, which lies in the fold class; and a
  class, whatever its ranges, contains either every member of an orbit or none of them.
\<close>

theorem fold_consistent:
  assumes "orbits_close db" "b \<in> orbit db a" "normal (ranges s)"
  shows "canonicalize db b True = canonicalize db a True \<and> canonicalize db a True \<in> fold_set db a \<and>
    classContainsFold db s b True True = classContainsFold db s a True True"
proof -
  have f: "finite (fold_set db a)" "fold_set db a \<noteq> {}" by (simp_all add: fold_set_def)
  show ?thesis
    using Min_in [OF f] fold_set_same [OF assms(1,2)]
    by (simp add: canonicalize_def simpleFold_Min classContainsFold_unicode [OF assms(3)])
qed

theorem fold_consistent_witness:
  "canonicalize ascii_db 0x61 True = canonicalize ascii_db 0x41 True \<and>
   canonicalize ascii_db 0x41 True \<in> fold_set ascii_db 0x41 \<and>
   classContainsFold ascii_db (build (addRange empty_builder 0x40 0x42)) 0x61 True True =
     classContainsFold ascii_db (build (addRange empty_builder 0x40 0x42)) 0x41 True True"
proof (rule fold_consistent [OF ascii_orbits_close])
  have "SimpleFold ascii_db 0x41 = 0x61" by (simp add: ascii_db_def)
  then show "0x61 \<in> orbit ascii_db 0x41" unfolding orbit_def by (auto intro: exI [of _ 1])
  show "normal (ranges (build (addRange empty_builder 0x40 0x42)))" by (rule normal_build) simp
qed

end
