(* ===== verification/Regexp_Ast.thy ===== *)
theory Regexp_Ast
  imports Case_Fold "HOL-Library.Multiset"
begin

text \<open>
  The data model of the regular-expression engine: syntax errors (\<open>errors.go\<close>), flags
  (\<open>flags.go\<close>), the pattern tree (\<open>ast.go\<close>), character classes (\<open>charclass.go\<close>) and the small
  character helpers of \<open>helpers.go\<close>. The lemmas show that the canonical flag string round-trips
  through \<open>ParseFlags\<close> and that \<open>ParseFlags\<close> accepts exactly the strings the grammar allows.
\<close>

record SyntaxError =
  Msg :: go_string
  Pos :: int

definition errAt :: "nat \<Rightarrow> string \<Rightarrow> SyntaxError" where
  "errAt pos msg = \<lparr>Msg = str msg, Pos = int pos\<rparr>"

subsection \<open>Flags\<close>

record Flags =
  HasIndices :: bool
  Global :: bool
  IgnoreCase :: bool
  Multiline :: bool
  DotAll :: bool
  Unicode :: bool
  UnicodeSets :: bool
  Sticky :: bool

definition noFlags :: Flags where
  "noFlags = \<lparr>HasIndices = False, Global = False, IgnoreCase = False, Multiline = False,
     DotAll = False, Unicode = False, UnicodeSets = False, Sticky = False\<rparr>"

definition UnicodeMode :: "Flags \<Rightarrow> bool" where
  "UnicodeMode f \<longleftrightarrow> Unicode f \<or> UnicodeSets f"

definition FlagsString :: "Flags \<Rightarrow> go_string" where
  "FlagsString f =
     (if HasIndices f then [0x64] else []) @ (if Global f then [0x67] else []) @
     (if IgnoreCase f then [0x69] else []) @ (if Multiline f then [0x6D] else []) @
     (if DotAll f then [0x73] else []) @ (if Unicode f then [0x75] else []) @
     (if UnicodeSets f then [0x76] else []) @ (if Sticky f then [0x79] else [])"

text \<open>
  \<open>seen0\<close> marks a flag byte as seen; \<open>None\<close> is its \<open>false\<close> (an unknown or repeated flag). The
  Go array \<open>seen\<close> is the list of the bytes marked so far.
\<close>

definition seen0 :: "int \<Rightarrow> int list \<Rightarrow> int list option" where
  "seen0 c seen =
     (if c \<in> {0x64, 0x67, 0x69, 0x6D, 0x73, 0x75, 0x76, 0x79}
      then if c \<in> set seen then None else Some (c # seen)
      else None)"

definition set_flag :: "Flags \<Rightarrow> int \<Rightarrow> Flags option" where
  "set_flag f c =
     (if c = 0x64 then Some (f\<lparr>HasIndices := True\<rparr>)
      else if c = 0x67 then Some (f\<lparr>Global := True\<rparr>)
      else if c = 0x69 then Some (f\<lparr>IgnoreCase := True\<rparr>)
      else if c = 0x6D then Some (f\<lparr>Multiline := True\<rparr>)
      else if c = 0x73 then Some (f\<lparr>DotAll := True\<rparr>)
      else if c = 0x75 then Some (f\<lparr>Unicode := True\<rparr>)
      else if c = 0x76 then Some (f\<lparr>UnicodeSets := True\<rparr>)
      else if c = 0x79 then Some (f\<lparr>Sticky := True\<rparr>)
      else None)"

fun ParseFlags_loop :: "int list \<Rightarrow> int list \<Rightarrow> Flags \<Rightarrow> SyntaxError + Flags" where
  "ParseFlags_loop [] seen f = Inr f"
| "ParseFlags_loop (c # s) seen f =
     (case (if c \<ge> 128 then None else seen0 c seen) of
        None \<Rightarrow> Inl \<lparr>Msg = str ''invalid or duplicate regular expression flag'', Pos = -1\<rparr>
      | Some seen' \<Rightarrow>
          (case set_flag f c of
             None \<Rightarrow> Inl \<lparr>Msg = str ''invalid regular expression flag'', Pos = -1\<rparr>
           | Some f' \<Rightarrow> ParseFlags_loop s seen' f'))"

definition ParseFlags :: "go_string \<Rightarrow> SyntaxError + Flags" where
  "ParseFlags s = res_bind (ParseFlags_loop s [] noFlags) (\<lambda>f.
     if Unicode f \<and> UnicodeSets f
     then Inl \<lparr>Msg = str ''the u and v regular expression flags are mutually exclusive'', Pos = -1\<rparr>
     else Inr f)"

subsection \<open>Character classes\<close>

datatype SetOp = SetUnion | SetIntersection | SetSubtraction

datatype ClassItem =
    ClassRange (Lo: rune) (Hi: rune)
  | ClassEscape ClassEscKind
  | ClassProperty (PropName: go_string) (PropValue: go_string) (PropNegate: bool)
  | ClassString "rune list"
  | NestedClass (NestNegate: bool) ClassSet
  | ClassStringDisjunction "rune list list"
and ClassSet = ClassSet (Op: SetOp) (Items: "ClassItem list")

subsection \<open>The pattern tree\<close>

datatype AssertKind = AssertBOL | AssertEOL | AssertWordB | AssertNotWordB

record Modifiers =
  AddI :: bool
  AddM :: bool
  AddS :: bool
  SubI :: bool
  SubM :: bool
  SubS :: bool

definition noModifiers :: Modifiers where
  "noModifiers = \<lparr>AddI = False, AddM = False, AddS = False, SubI = False, SubM = False, SubS = False\<rparr>"

text \<open>\<open>Max = -1\<close> in a \<open>Quantifier\<close> means unbounded; capture indices start at 1.\<close>

datatype Node =
    Disjunction "Node list"
  | Concat "Node list"
  | Empty
  | CharN rune
  | AnyChar
  | Assertion AssertKind
  | Lookaround (Behind: bool) (LNegate: bool) Node
  | Capture nat go_string Node
  | Group "Modifiers option" Node
  | BackRef nat
  | NamedBackRef go_string
  | Quantifier nat int bool Node
  | CharClass (CNegate: bool) ClassSet

type_synonym group_names = "(go_string \<times> nat list) list"

record Pattern =
  Body :: Node
  GroupCount :: nat
  GroupNames :: group_names
  PFlags :: Flags

subsection \<open>Character helpers\<close>

definition isHexDigit :: "rune \<Rightarrow> bool" where
  "isHexDigit r \<longleftrightarrow> (r \<ge> 0x30 \<and> r \<le> 0x39) \<or> (r \<ge> 0x61 \<and> r \<le> 0x66) \<or> (r \<ge> 0x41 \<and> r \<le> 0x46)"

definition hexVal :: "rune \<Rightarrow> int" where
  "hexVal r =
     (if r \<ge> 0x30 \<and> r \<le> 0x39 then r - 0x30
      else if r \<ge> 0x61 \<and> r \<le> 0x66 then r - 0x61 + 10
      else r - 0x41 + 10)"

definition isASCIILetter :: "rune \<Rightarrow> bool" where
  "isASCIILetter r \<longleftrightarrow> (r \<ge> 0x61 \<and> r \<le> 0x7A) \<or> (r \<ge> 0x41 \<and> r \<le> 0x5A)"

definition isSyntaxChar :: "rune \<Rightarrow> bool" where
  "isSyntaxChar r \<longleftrightarrow> r \<in> {0x5E, 0x24, 0x5C, 0x2E, 0x2A, 0x2B, 0x3F, 0x28, 0x29, 0x5B, 0x5D, 0x7B, 0x7D, 0x7C}"

definition classEscKind :: "rune \<Rightarrow> ClassEscKind" where
  "classEscKind c =
     (if c = 0x64 then EscDigit
      else if c = 0x44 then EscNotDigit
      else if c = 0x77 then EscWord
      else if c = 0x57 then EscNotWord
      else if c = 0x73 then EscSpace
      else EscNotSpace)"

text \<open>
  Go's conversion \<open>string([]rune)\<close>: a surrogate or a value outside the code space becomes U+FFFD.
\<close>

definition string_of_runes :: "rune list \<Rightarrow> go_string" where
  "string_of_runes rs =
     map (\<lambda>r. if (0xD800 \<le> r \<and> r \<le> 0xDFFF) \<or> r < 0 \<or> r > 0x10FFFF then 0xFFFD else r) rs"

subsection \<open>Flags: the grammar and the round trip\<close>

definition flag_bytes :: "int set" where
  "flag_bytes = {0x64, 0x67, 0x69, 0x6D, 0x73, 0x75, 0x76, 0x79}"

definition has_flag :: "Flags \<Rightarrow> int \<Rightarrow> bool" where
  "has_flag f c \<longleftrightarrow> c \<in> set (FlagsString f)"

lemma has_flag_iff:
  "has_flag f c \<longleftrightarrow> (c = 0x64 \<and> HasIndices f) \<or> (c = 0x67 \<and> Global f) \<or> (c = 0x69 \<and> IgnoreCase f)
     \<or> (c = 0x6D \<and> Multiline f) \<or> (c = 0x73 \<and> DotAll f) \<or> (c = 0x75 \<and> Unicode f)
     \<or> (c = 0x76 \<and> UnicodeSets f) \<or> (c = 0x79 \<and> Sticky f)"
  by (auto simp: has_flag_def FlagsString_def)

lemma set_flag_cases:
  "c \<in> flag_bytes \<Longrightarrow> \<exists>f'. set_flag f c = Some f' \<and> (\<forall>d. has_flag f' d \<longleftrightarrow> has_flag f d \<or> d = c)"
  by (auto simp: flag_bytes_def set_flag_def has_flag_iff)

lemma flags_eqI: "(\<And>c. has_flag f c \<longleftrightarrow> has_flag g c) \<Longrightarrow> f = g"
proof -
  assume h: "\<And>c. has_flag f c \<longleftrightarrow> has_flag g c"
  show "f = g"
    using h [of "0x64"] h [of "0x67"] h [of "0x69"] h [of "0x6D"] h [of "0x73"] h [of "0x75"] h [of "0x76"] h [of "0x79"]
    by (intro Flags.equality) (simp_all add: has_flag_iff)
qed

lemma has_flag_noFlags [simp]: "\<not> has_flag noFlags c"
  by (simp add: has_flag_iff noFlags_def)

lemma ParseFlags_loop_iff:
  "(\<exists>g. ParseFlags_loop s seen f = Inr g \<and> (\<forall>c. has_flag g c \<longleftrightarrow> has_flag f c \<or> c \<in> set s))
     \<longleftrightarrow> distinct s \<and> set s \<subseteq> flag_bytes \<and> set s \<inter> set seen = {}"
  "(\<nexists>g. ParseFlags_loop s seen f = Inr g)
     \<longleftrightarrow> \<not> (distinct s \<and> set s \<subseteq> flag_bytes \<and> set s \<inter> set seen = {})"
proof (induction s seen f rule: ParseFlags_loop.induct)
  case (2 c s seen f)
  let ?ok = "c \<in> flag_bytes \<and> c \<notin> set seen"
  have seen: "(if c \<ge> 128 then None else seen0 c seen) = (if ?ok then Some (c # seen) else None)"
    by (auto simp: seen0_def flag_bytes_def)
  have iff: "(distinct (c # s) \<and> set (c # s) \<subseteq> flag_bytes \<and> set (c # s) \<inter> set seen = {})
      \<longleftrightarrow> ?ok \<and> distinct s \<and> set s \<subseteq> flag_bytes \<and> set s \<inter> set (c # seen) = {}"
    by auto
  { case 1
    show ?case
    proof (cases ?ok)
      case True
      then obtain f' where f': "set_flag f c = Some f'" "\<And>d. has_flag f' d \<longleftrightarrow> has_flag f d \<or> d = c"
        using set_flag_cases by blast
      have "ParseFlags_loop (c # s) seen f = ParseFlags_loop s (c # seen) f'"
        using True seen f'(1) by simp
      then show ?thesis
        using "2.IH"(1) [of "c # seen" f'] True seen f' iff by (auto simp: f'(2))
    qed (use seen iff in \<open>auto\<close>)
  next
    case 2
    show ?case
    proof (cases ?ok)
      case True
      then obtain f' where f': "set_flag f c = Some f'" using set_flag_cases by blast
      then show ?thesis using "2.IH"(2) [of "c # seen" f'] True seen iff by simp
    qed (use seen iff in \<open>auto\<close>)
  }
qed auto

lemma ParseFlags_Inr:
  "ParseFlags s = Inr f \<longleftrightarrow>
     distinct s \<and> set s \<subseteq> flag_bytes \<and> \<not> {0x75, 0x76} \<subseteq> set s \<and> set (FlagsString f) = set s"
proof -
  let ?ok = "distinct s \<and> set s \<subseteq> flag_bytes"
  show ?thesis
  proof (cases ?ok)
    case False
    then show ?thesis
      using ParseFlags_loop_iff(2) [of s "[]" noFlags]
      by (auto simp: ParseFlags_def res_bind_eq_Inr)
  next
    case True
    then obtain g where g: "ParseFlags_loop s [] noFlags = Inr g" "\<And>c. has_flag g c \<longleftrightarrow> c \<in> set s"
      using ParseFlags_loop_iff(1) [of s "[]" noFlags] by auto
    have uv: "Unicode g \<and> UnicodeSets g \<longleftrightarrow> {0x75, 0x76} \<subseteq> set s"
      using g(2) [of "0x75"] g(2) [of "0x76"] by (simp add: has_flag_iff)
    have fg: "set (FlagsString f) = set s \<longleftrightarrow> f = g"
      using g(2) flags_eqI [of f g] by (auto simp: has_flag_def set_eq_iff)
    show ?thesis using True g(1) uv fg by (auto simp: ParseFlags_def)
  qed
qed

lemma FlagsString_flags: "distinct (FlagsString f) \<and> set (FlagsString f) \<subseteq> flag_bytes"
  by (auto simp: FlagsString_def flag_bytes_def)

lemma flags_of_letters: "set s \<subseteq> flag_bytes \<Longrightarrow> \<exists>f. set (FlagsString f) = set s"
proof -
  assume s: "set s \<subseteq> flag_bytes"
  let ?f = "\<lparr>HasIndices = 0x64 \<in> set s, Global = 0x67 \<in> set s, IgnoreCase = 0x69 \<in> set s, Multiline = 0x6D \<in> set s,
    DotAll = 0x73 \<in> set s, Unicode = 0x75 \<in> set s, UnicodeSets = 0x76 \<in> set s, Sticky = 0x79 \<in> set s\<rparr>"
  have "c \<in> set (FlagsString ?f) \<longleftrightarrow> c \<in> set s" for c
  proof (cases "c \<in> flag_bytes")
    case True
    then have "c = 0x64 \<or> c = 0x67 \<or> c = 0x69 \<or> c = 0x6D \<or> c = 0x73 \<or> c = 0x75 \<or> c = 0x76 \<or> c = 0x79"
      by (simp add: flag_bytes_def)
    then show ?thesis unfolding has_flag_def [symmetric] has_flag_iff by (elim disjE) simp_all
  next
    case False
    then show ?thesis using s FlagsString_flags [of ?f] by blast
  qed
  then show ?thesis by blast
qed

subsection \<open>Properties\<close>

text \<open>
  C15: \<open>ParseFlags\<close> accepts exactly the flag strings of the grammar (known letters, no letter twice,
  not both \<open>u\<close> and \<open>v\<close>), and the flags it returns are the letters of the string: its canonical
  rendering has the same letters.
\<close>

theorem ParseFlags_exact:
  "((\<exists>f. ParseFlags s = Inr f) \<longleftrightarrow>
      distinct s \<and> set s \<subseteq> set (str ''dgimsuvy'') \<and> \<not> {0x75, 0x76} \<subseteq> set s) \<and>
   (ParseFlags s = Inr f \<longleftrightarrow>
      distinct s \<and> set s \<subseteq> set (str ''dgimsuvy'') \<and> \<not> {0x75, 0x76} \<subseteq> set s \<and> set (FlagsString f) = set s)"
proof -
  have "flag_bytes = set (str ''dgimsuvy'')" by (auto simp: flag_bytes_def str_def)
  then show ?thesis unfolding ParseFlags_Inr using flags_of_letters [of s] by auto
qed

text \<open>
  C16: The canonical flag string round-trips: parsing what \<open>Flags.String\<close> prints gives the flags back,
  unless both \<open>u\<close> and \<open>v\<close> are set (which no parsed value has), and printing what \<open>ParseFlags\<close> read is
  a rearrangement of the input.
\<close>

theorem flags_roundtrip:
  "(ParseFlags (FlagsString f) = Inr f \<longleftrightarrow> \<not> (Unicode f \<and> UnicodeSets f)) \<and>
   (ParseFlags s = Inr f \<longrightarrow> mset (FlagsString f) = mset s)"
proof -
  have "Unicode f \<and> UnicodeSets f \<longleftrightarrow> {0x75, 0x76} \<subseteq> set (FlagsString f)"
    using has_flag_iff [of f "0x75"] has_flag_iff [of f "0x76"] by (simp add: has_flag_def)
  then show ?thesis
    using FlagsString_flags [of f] by (auto simp: ParseFlags_Inr set_eq_iff_mset_eq_distinct)
qed

theorem flags_roundtrip_witness:
  "ParseFlags (str ''vig'') = Inr (noFlags\<lparr>UnicodeSets := True, IgnoreCase := True, Global := True\<rparr>) \<and>
   mset (FlagsString (noFlags\<lparr>UnicodeSets := True, IgnoreCase := True, Global := True\<rparr>)) = mset (str ''vig'')"
  using flags_roundtrip [of "noFlags\<lparr>UnicodeSets := True, IgnoreCase := True, Global := True\<rparr>" "str ''vig''"]
  by (simp add: ParseFlags_def str_def seen0_def set_flag_def noFlags_def)

end
