(* ===== verification/Regexp_Scan.thy ===== *)
theory Regexp_Scan
  imports Regexp_Ast
begin

text \<open>
  The pre-scan of a pattern (\<open>src/jsregexp/scan.go\<close>): a linear pass that counts capturing groups
  and collects the indices of named ones before the parser runs. Positions are indices into the
  pattern's runes; every loop moves to the right. The hexadecimal value of a \<open>\u{...}\<close> escape is
  accumulated in a machine integer and may wrap.
\<close>

subsection \<open>Escapes and names\<close>

function scan_hex :: "rune list \<Rightarrow> nat \<Rightarrow> int \<Rightarrow> nat \<times> int" where
  "scan_hex src i v =
     (if i < length src \<and> isHexDigit (src ! i)
      then scan_hex src (i + 1) (go_int (v * 16 + hexVal (src ! i)))
      else (i, v))"
  by pat_completeness auto
termination by (relation "measure (\<lambda>(src, i, v). length src - i)") auto

declare scan_hex.simps [simp del]

definition hex4 :: "rune list \<Rightarrow> nat \<Rightarrow> int" where
  "hex4 src i = foldl (\<lambda>v k. v * 16 + hexVal (src ! (i + k))) 0 [0, 1, 2, 3]"

definition scanUnicodeEscape :: "rune list \<Rightarrow> nat \<Rightarrow> (rune \<times> nat) option" where
  "scanUnicodeEscape src i =
     (if i < length src \<and> src ! i = 0x7B then
        let start = i + 1; (j, v) = scan_hex src start 0 in
        if j = start \<or> j \<ge> length src \<or> src ! j \<noteq> 0x7D \<or> v > 0x10FFFF then None
        else Some (go_int32 v, j + 1)
      else if i + 3 \<ge> length src then None
      else if \<exists>k \<in> set [0, 1, 2, 3]. \<not> isHexDigit (src ! (i + k)) then None
      else Some (hex4 src i, i + 4))"

lemma scan_hex_le: "i \<le> fst (scan_hex src i v)"
  by (induction src i v rule: scan_hex.induct) (subst scan_hex.simps, auto)

lemma scanUnicodeEscape_progress: "scanUnicodeEscape src i = Some (r, j) \<Longrightarrow> i < j \<and> j \<le> length src"
  using scan_hex_le [of "i + 1" src 0]
  by (auto simp: scanUnicodeEscape_def Let_def split: if_splits prod.splits)

text \<open>
  One escaped code point of a group name, with its index past the escape: a high surrogate
  directly followed by an escaped low surrogate is combined.
\<close>

definition scan_name_escape :: "rune list \<Rightarrow> nat \<Rightarrow> (rune \<times> nat) option" where
  "scan_name_escape src i =
     (case scanUnicodeEscape src (i + 2) of
        None \<Rightarrow> None
      | Some (r, ni) \<Rightarrow>
          if r \<ge> 0xD800 \<and> r \<le> 0xDBFF \<and> ni + 1 < length src \<and> src ! ni = 0x5C \<and> src ! (ni + 1) = 0x75 then
            (case scanUnicodeEscape src (ni + 2) of
               Some (lo, ni2) \<Rightarrow>
                 if lo \<ge> 0xDC00 \<and> lo \<le> 0xDFFF
                 then Some ((r - 0xD800) * 1024 + (lo - 0xDC00) + 0x10000, ni2) else Some (r, ni)
             | None \<Rightarrow> Some (r, ni))
          else Some (r, ni))"

lemma scan_name_escape_progress: "scan_name_escape src i = Some (r, j) \<Longrightarrow> i + 2 < j \<and> j \<le> length src"
  by (auto simp: scan_name_escape_def split: option.splits if_splits dest!: scanUnicodeEscape_progress)

function scan_name_loop :: "rune list \<Rightarrow> nat \<Rightarrow> rune list \<Rightarrow> (go_string \<times> nat) option" where
  "scan_name_loop src i name =
     (if i < length src then
        if src ! i = 0x3E then
          if name = [] then None else Some (string_of_runes name, i + 1)
        else if src ! i = 0x5C then
          if i + 1 < length src \<and> src ! (i + 1) = 0x75 then
            (case scan_name_escape src i of
               None \<Rightarrow> None
             | Some (r, ni) \<Rightarrow> scan_name_loop src ni (name @ [r]))
          else None
        else scan_name_loop src (i + 1) (name @ [src ! i])
      else None)"
  by pat_completeness auto
termination
  by (relation "measure (\<lambda>(src, i, name). length src - i)")
    (auto dest: scan_name_escape_progress simp: diff_less_mono2)

declare scan_name_loop.simps [simp del]

definition scanGroupName :: "rune list \<Rightarrow> nat \<Rightarrow> (go_string \<times> nat) option" where
  "scanGroupName src i = scan_name_loop src i []"

lemma scan_name_loop_progress: "scan_name_loop src i name = Some (n, j) \<Longrightarrow> i < j \<and> j \<le> length src"
proof (induction src i name rule: scan_name_loop.induct)
  case (1 src i name)
  show ?case
  proof (cases "i < length src \<and> src ! i \<noteq> 0x3E")
    case True
    consider "src ! i = 0x5C" | "src ! i \<noteq> 0x5C" by blast
    then show ?thesis
    proof cases
      case 1
      then obtain r ni where e: "scan_name_escape src i = Some (r, ni)" "scan_name_loop src ni (name @ [r]) = Some (n, j)"
          "i + 1 < length src \<and> src ! (i + 1) = 0x75"
        using "1.prems" True by (subst (asm) scan_name_loop.simps) (auto split: if_splits option.splits)
      then show ?thesis
        using "1.IH"(1) [OF _ _ _ e(3) e(1) refl e(2)] True 1 scan_name_escape_progress [OF e(1)] by auto
    next
      case 2
      then have "scan_name_loop src (i + 1) (name @ [src ! i]) = Some (n, j)"
        using "1.prems" True by (subst (asm) scan_name_loop.simps) auto
      then show ?thesis using "1.IH"(2) True 2 by auto
    qed
  next
    case False
    then show ?thesis using "1.prems" by (subst (asm) scan_name_loop.simps) (auto split: if_splits)
  qed
qed

lemma scanGroupName_progress: "scanGroupName src i = Some (n, j) \<Longrightarrow> i < j \<and> j \<le> length src"
  unfolding scanGroupName_def by (rule scan_name_loop_progress)

subsection \<open>The scan\<close>

definition add_name :: "group_names \<Rightarrow> go_string \<Rightarrow> nat \<Rightarrow> group_names" where
  "add_name names n i =
     (case map_of names n of
        None \<Rightarrow> names @ [(n, [i])]
      | Some idxs \<Rightarrow> map (\<lambda>(k, v). if k = n then (k, v @ [i]) else (k, v)) names)"

definition is_named_group :: "rune list \<Rightarrow> nat \<Rightarrow> bool" where
  "is_named_group src i \<longleftrightarrow>
     i + 2 < length src \<and> src ! (i + 2) = 0x3C \<and>
     (i + 3 \<ge> length src \<or> (src ! (i + 3) \<noteq> 0x3D \<and> src ! (i + 3) \<noteq> 0x21))"

function scan_loop :: "rune list \<Rightarrow> nat \<Rightarrow> bool \<Rightarrow> nat \<Rightarrow> group_names \<Rightarrow> SyntaxError + nat \<times> group_names" where
  "scan_loop src i inClass cnt names =
     (if i < length src then
        let c = src ! i in
        if c = 0x5C then scan_loop src (i + 2) inClass cnt names
        else if c = 0x5B \<and> \<not> inClass then scan_loop src (i + 1) True cnt names
        else if c = 0x5D \<and> inClass then scan_loop src (i + 1) False cnt names
        else if c = 0x28 \<and> \<not> inClass then
          if i + 1 < length src \<and> src ! (i + 1) = 0x3F then
            if is_named_group src i then
              (case scanGroupName src (i + 3) of
                 None \<Rightarrow> Inl (errAt i ''invalid capture group name'')
               | Some (name, end) \<Rightarrow> scan_loop src end inClass (cnt + 1) (add_name names name (cnt + 1)))
            else scan_loop src (i + 1) inClass cnt names
          else scan_loop src (i + 1) inClass (cnt + 1) names
        else scan_loop src (i + 1) inClass cnt names
      else Inr (cnt, names))"
  by pat_completeness auto
termination
  by (relation "measure (\<lambda>(src, i, inClass, cnt, names). length src - i)")
    (auto dest!: scanGroupName_progress)

declare scan_loop.simps [simp del]

definition scanGroups :: "rune list \<Rightarrow> SyntaxError + nat \<times> group_names" where
  "scanGroups src = scan_loop src 0 False 0 []"

end
