(* ===== verification/Regexp_Parser.thy ===== *)
theory Regexp_Parser
  imports Regexp_Scan
begin

text \<open>
  The pattern parser (\<open>src/jsregexp/parser.go\<close>, \<open>escapes.go\<close>, \<open>class.go\<close>, \<open>dupnames.go\<close>). The Go
  parser reports a syntax error by panicking with a \<open>*SyntaxError\<close> that \<open>Parse\<close> recovers; any other
  panic goes on to the caller. So a parsing function returns the parser it leaves behind or one of
  three errors: a syntax error, the run-time panic of reading past the end of the pattern, or an
  exhausted recursion fuel, which \<open>Regexp_Parse_Correct\<close> shows never happens from \<open>Parse\<close>.
\<close>

subsection \<open>The parser state\<close>

record parser =
  p_src :: "rune list"
  p_pos :: nat
  p_flags :: Flags
  p_numGroups :: nat
  p_names :: group_names
  p_capIndex :: nat

datatype parse_err = Syntax SyntaxError | IndexPanic | OutOfFuel

type_synonym 'a pres = "parse_err + 'a \<times> parser"

definition eof :: "parser \<Rightarrow> bool" where
  "eof p \<longleftrightarrow> p_pos p \<ge> length (p_src p)"

definition peekAt :: "parser \<Rightarrow> nat \<Rightarrow> rune" where
  "peekAt p k = (if p_pos p + k < length (p_src p) then p_src p ! (p_pos p + k) else -1)"

definition peek :: "parser \<Rightarrow> rune" where
  "peek p = peekAt p 0"

definition skip :: "parser \<Rightarrow> parser" where
  "skip p = p\<lparr>p_pos := p_pos p + 1\<rparr>"

definition advance :: "parser \<Rightarrow> rune pres" where
  "advance p = (if p_pos p < length (p_src p) then Inr (p_src p ! p_pos p, skip p) else Inl IndexPanic)"

definition fail_msg :: "parser \<Rightarrow> go_string \<Rightarrow> 'a pres" where
  "fail_msg p msg = Inl (Syntax \<lparr>Msg = msg, Pos = int (p_pos p)\<rparr>)"

definition fail :: "parser \<Rightarrow> string \<Rightarrow> 'a pres" where
  "fail p msg = fail_msg p (str msg)"

definition expect :: "parser \<Rightarrow> rune \<Rightarrow> unit pres" where
  "expect p r =
     (if peek p \<noteq> r then fail_msg p (str ''expected '' @ [0x27] @ string_of_runes [r] @ [0x27])
      else Inr ((), skip p))"

definition p_unicode :: "parser \<Rightarrow> bool" where
  "p_unicode p = UnicodeMode (p_flags p)"

subsection \<open>Numbers, names and escapes\<close>

text \<open>A digit under the cursor is never the end of the pattern, so \<open>advance\<close> is \<open>skip\<close> here.\<close>

function decimal_loop :: "parser \<Rightarrow> int \<Rightarrow> int \<times> parser" where
  "decimal_loop p v =
     (if peek p \<ge> 0x30 \<and> peek p \<le> 0x39 then
        decimal_loop (skip p) (if v < 1073741824 then v * 10 + (peek p - 0x30) else v)
      else (v, p))"
  by pat_completeness auto
termination
  by (relation "measure (\<lambda>(p, v). length (p_src p) - p_pos p)")
    (auto simp: peek_def peekAt_def skip_def split: if_splits)

declare decimal_loop.simps [simp del]

definition readDecimalInt :: "parser \<Rightarrow> (int \<times> bool) \<times> parser" where
  "readDecimalInt p = (let (v, p') = decimal_loop p 0 in ((v, p_pos p' > p_pos p), p'))"

definition has4Hex :: "parser \<Rightarrow> bool" where
  "has4Hex p \<longleftrightarrow> isHexDigit (peek p) \<and> isHexDigit (peekAt p 1) \<and> isHexDigit (peekAt p 2) \<and> isHexDigit (peekAt p 3)"

definition read4Hex :: "parser \<Rightarrow> rune pres" where
  "read4Hex p =
     res_bind (advance p) (\<lambda>(a, p).
     res_bind (advance p) (\<lambda>(b, p).
     res_bind (advance p) (\<lambda>(c, p).
     res_bind (advance p) (\<lambda>(d, p).
       Inr (((hexVal a * 16 + hexVal b) * 16 + hexVal c) * 16 + hexVal d, p)))))"

function hex_loop :: "parser \<Rightarrow> int \<Rightarrow> int pres" where
  "hex_loop p v =
     (if isHexDigit (peek p) then
        let v' = v * 16 + hexVal (peek p); p' = skip p in
        if v' > 0x10FFFF then fail p' ''Unicode code point out of range'' else hex_loop p' v'
      else Inr (v, p))"
  by pat_completeness auto
termination
  by (relation "measure (\<lambda>(p, v). length (p_src p) - p_pos p)")
    (auto simp: peek_def peekAt_def skip_def isHexDigit_def split: if_splits)

declare hex_loop.simps [simp del]

definition readUnicodeEscapeValueMode :: "bool \<Rightarrow> parser \<Rightarrow> rune pres" where
  "readUnicodeEscapeValueMode unicode p =
     (if unicode \<and> peek p = 0x7B then
        res_bind (advance p) (\<lambda>(_, p1).
        res_bind (hex_loop p1 0) (\<lambda>(v, p2).
          if p_pos p2 = p_pos p1 \<or> peek p2 \<noteq> 0x7D then fail p2 ''invalid Unicode escape''
          else res_bind (advance p2) (\<lambda>(_, p3). Inr (v, p3))))
      else if \<not> has4Hex p then
        if unicode then fail p ''invalid Unicode escape'' else Inr (0x75, p)
      else
        res_bind (read4Hex p) (\<lambda>(hi, p1).
          if unicode \<and> hi \<ge> 0xD800 \<and> hi \<le> 0xDBFF \<and> peek p1 = 0x5C \<and> peekAt p1 1 = 0x75 then
            res_bind (advance p1) (\<lambda>(_, p2).
            res_bind (advance p2) (\<lambda>(_, p3).
              if peek p3 \<noteq> 0x7B \<and> has4Hex p3 then
                res_bind (read4Hex p3) (\<lambda>(lo, p4).
                  if lo \<ge> 0xDC00 \<and> lo \<le> 0xDFFF
                  then Inr ((hi - 0xD800) * 1024 + (lo - 0xDC00) + 0x10000, p4)
                  else Inr (hi, p1))
              else Inr (hi, p1)))
          else Inr (hi, p1)))"

definition readUnicodeEscapeValue :: "parser \<Rightarrow> rune pres" where
  "readUnicodeEscapeValue p = readUnicodeEscapeValueMode (p_unicode p) p"

fun octal_loop :: "nat \<Rightarrow> parser \<Rightarrow> int \<Rightarrow> int \<times> parser" where
  "octal_loop 0 p v = (v, p)"
| "octal_loop (Suc n) p v =
     (if peek p \<ge> 0x30 \<and> peek p \<le> 0x37 then
        let nv = v * 8 + (peek p - 0x30) in
        if nv > 255 then (v, p) else octal_loop n (skip p) nv
      else (v, p))"

definition parseLegacyOctalOrIdentity :: "parser \<Rightarrow> rune \<times> parser" where
  "parseLegacyOctalOrIdentity p =
     (if peek p = 0x38 \<or> peek p = 0x39 then (peek p, skip p) else octal_loop 3 p 0)"

text \<open>The case \<open>'0'\<close> puts the digit back (\<open>p.pos--\<close>), which is the parser the function was called with.\<close>

definition parseCharacterEscape :: "parser \<Rightarrow> rune pres" where
  "parseCharacterEscape p =
     res_bind (advance p) (\<lambda>(c, p1).
       if c = 0x66 then Inr (0x0C, p1)
       else if c = 0x6E then Inr (0x0A, p1)
       else if c = 0x72 then Inr (0x0D, p1)
       else if c = 0x74 then Inr (0x09, p1)
       else if c = 0x76 then Inr (0x0B, p1)
       else if c = 0x30 then
         if peek p1 \<ge> 0x30 \<and> peek p1 \<le> 0x39 then
           if p_unicode p1 then fail p1 ''invalid decimal escape''
           else Inr (parseLegacyOctalOrIdentity p)
         else Inr (0, p1)
       else if c = 0x78 then
         if \<not> isHexDigit (peek p1) \<or> \<not> isHexDigit (peekAt p1 1) then
           if p_unicode p1 then fail p1 ''invalid hexadecimal escape'' else Inr (0x78, p1)
         else
           res_bind (advance p1) (\<lambda>(a, p2).
           res_bind (advance p2) (\<lambda>(b, p3). Inr (hexVal a * 16 + hexVal b, p3)))
       else if c = 0x75 then readUnicodeEscapeValue p1
       else if c = 0x63 then
         if isASCIILetter (peek p1) then res_bind (advance p1) (\<lambda>(a, p2). Inr (a mod 32, p2))
         else if p_unicode p1 then fail p1 ''invalid control escape''
         else Inr (0x5C, p1)
       else if p_unicode p1 \<and> \<not> isSyntaxChar c \<and> c \<noteq> 0x2F then fail p1 ''invalid identity escape''
       else Inr (c, p1))"

function prop_name_loop :: "parser \<Rightarrow> rune list \<Rightarrow> rune list \<times> parser" where
  "prop_name_loop p name =
     (if \<not> eof p \<and> peek p \<noteq> 0x7D \<and> peek p \<noteq> 0x3D then prop_name_loop (skip p) (name @ [peek p])
      else (name, p))"
  by pat_completeness auto
termination
  by (relation "measure (\<lambda>(p, name). length (p_src p) - p_pos p)") (auto simp: eof_def skip_def)

function prop_value_loop :: "parser \<Rightarrow> rune list \<Rightarrow> rune list \<times> parser" where
  "prop_value_loop p value =
     (if \<not> eof p \<and> peek p \<noteq> 0x7D then prop_value_loop (skip p) (value @ [peek p]) else (value, p))"
  by pat_completeness auto
termination
  by (relation "measure (\<lambda>(p, value). length (p_src p) - p_pos p)") (auto simp: eof_def skip_def)

declare prop_name_loop.simps [simp del] prop_value_loop.simps [simp del]

definition parsePropertyEscape :: "bool \<Rightarrow> parser \<Rightarrow> ClassItem pres" where
  "parsePropertyEscape negate p =
     res_bind (advance p) (\<lambda>(_, p1).
       if peek p1 \<noteq> 0x7B then fail p1 ''invalid property escape''
       else res_bind (advance p1) (\<lambda>(_, p2).
         let (name, p3) = prop_name_loop p2 [];
             hasValue = (peek p3 = 0x3D);
             (value, p4) = (if hasValue then prop_value_loop (skip p3) [] else ([], p3))
         in if peek p4 \<noteq> 0x7D then fail p4 ''unterminated property escape''
            else res_bind (advance p4) (\<lambda>(_, p5).
              if name = [] \<or> (hasValue \<and> value = []) then fail p5 ''invalid property name''
              else Inr (ClassProperty (string_of_runes name) (string_of_runes value) negate, p5))))"

definition isIDStart :: "unicode_db \<Rightarrow> rune \<Rightarrow> bool" where
  "isIDStart db r \<longleftrightarrow> r = 0x24 \<or> r = 0x5F \<or> IsLetter db r \<or> IsNl db r"

definition isIDContinue :: "unicode_db \<Rightarrow> rune \<Rightarrow> bool" where
  "isIDContinue db r \<longleftrightarrow> r = 0x24 \<or> r = 0x5F \<or> IsLetter db r \<or> IsDigit db r \<or> IsMn db r \<or> IsMc db r
     \<or> IsNd db r \<or> IsPc db r \<or> r = 0x200C \<or> r = 0x200D"

text \<open>
  The loop of \<open>readGroupName\<close>; every round reads at least one rune, so the length of the pattern
  is enough fuel.
\<close>

fun group_name_loop :: "nat \<Rightarrow> unicode_db \<Rightarrow> parser \<Rightarrow> rune list \<Rightarrow> rune list pres" where
  "group_name_loop 0 db p name = Inl OutOfFuel"
| "group_name_loop (Suc n) db p name =
     (if eof p then fail p ''unterminated group name''
      else
        res_bind (advance p) (\<lambda>(c, p1).
          if c = 0x3E then Inr (name, p1)
          else
            res_bind
              (if c = 0x5C then
                 if peek p1 \<noteq> 0x75 then fail p1 ''invalid group name escape''
                 else res_bind (advance p1) (\<lambda>(_, p2). readUnicodeEscapeValueMode True p2)
               else Inr (c, p1))
              (\<lambda>(r, p2).
                 if (if name = [] then isIDStart db r else isIDContinue db r)
                 then group_name_loop n db p2 (name @ [r])
                 else fail p2 ''invalid group name'')))"

definition readGroupName :: "unicode_db \<Rightarrow> parser \<Rightarrow> go_string pres" where
  "readGroupName db p =
     res_bind (group_name_loop (length (p_src p) + 1) db p []) (\<lambda>(name, p1).
       if name = [] then fail p1 ''empty group name'' else Inr (string_of_runes name, p1))"

subsection \<open>Quantifiers and modifiers\<close>

record quant =
  q_min :: int
  q_max :: int
  q_greedy :: bool

definition lazy_mark :: "int \<Rightarrow> int \<Rightarrow> parser \<Rightarrow> quant option pres" where
  "lazy_mark mn mx p =
     (if peek p = 0x3F
      then res_bind (advance p) (\<lambda>(_, p1). Inr (Some \<lparr>q_min = mn, q_max = mx, q_greedy = False\<rparr>, p1))
      else Inr (Some \<lparr>q_min = mn, q_max = mx, q_greedy = True\<rparr>, p))"

definition parseBraceQuantifier :: "parser \<Rightarrow> quant option pres" where
  "parseBraceQuantifier p =
     res_bind (advance p) (\<lambda>(_, p1).
       let ((mn, okMin), p2) = readDecimalInt p1 in
       if \<not> okMin then Inr (None, p)
       else
         let close = (\<lambda>mx p3.
           if peek p3 \<noteq> 0x7D then Inr (None, p)
           else res_bind (advance p3) (\<lambda>(_, p4).
             if mx \<noteq> -1 \<and> mx < mn then fail p4 ''numbers out of order in {} quantifier''
             else lazy_mark mn mx p4))
         in if peek p2 = 0x2C then
              res_bind (advance p2) (\<lambda>(_, p3).
                if peek p3 = 0x7D then close (-1) p3
                else let ((mx, okMax), p4) = readDecimalInt p3 in
                  if \<not> okMax then Inr (None, p) else close mx p4)
            else close mn p2)"

definition parseQuantifier :: "parser \<Rightarrow> quant option pres" where
  "parseQuantifier p =
     (let simple = (\<lambda>mn mx. res_bind (advance p) (\<lambda>(_, p1). lazy_mark mn mx p1)) in
      if peek p = 0x2A then simple 0 (-1)
      else if peek p = 0x2B then simple 1 (-1)
      else if peek p = 0x3F then simple 0 1
      else if peek p = 0x7B then parseBraceQuantifier p
      else Inr (None, p))"

definition set_modifier :: "bool \<Rightarrow> rune \<Rightarrow> Modifiers \<Rightarrow> Modifiers" where
  "set_modifier add c m =
     (if c = 0x69 then (if add then m\<lparr>AddI := True\<rparr> else m\<lparr>SubI := True\<rparr>)
      else if c = 0x6D then (if add then m\<lparr>AddM := True\<rparr> else m\<lparr>SubM := True\<rparr>)
      else (if add then m\<lparr>AddS := True\<rparr> else m\<lparr>SubS := True\<rparr>))"

function modifier_loop :: "bool \<Rightarrow> parser \<Rightarrow> rune list \<Rightarrow> Modifiers \<Rightarrow> (rune list \<times> Modifiers) pres" where
  "modifier_loop add p seen m =
     (if peek p \<noteq> 0x69 \<and> peek p \<noteq> 0x6D \<and> peek p \<noteq> 0x73 then Inr ((seen, m), p)
      else if peek p \<in> set seen then fail p ''duplicate regular expression modifier''
      else modifier_loop add (skip p) (peek p # seen) (set_modifier add (peek p) m))"
  by pat_completeness auto
termination
  by (relation "measure (\<lambda>(add, p, seen, m). length (p_src p) - p_pos p)")
    (auto simp: peek_def peekAt_def skip_def split: if_splits)

declare modifier_loop.simps [simp del]

definition parseModifiers :: "parser \<Rightarrow> Modifiers pres" where
  "parseModifiers p =
     res_bind (modifier_loop True p [] noModifiers) (\<lambda>((seen, m), p1).
       let hasAdd = (AddI m \<or> AddM m \<or> AddS m);
           rest = (\<lambda>m p. if peek p \<noteq> 0x3A then fail p ''invalid inline modifier'' else Inr (m, p))
       in if peek p1 = 0x2D then
            res_bind (advance p1) (\<lambda>(_, p2).
            res_bind (modifier_loop False p2 seen m) (\<lambda>((seen', m'), p3).
              if \<not> hasAdd \<and> \<not> SubI m' \<and> \<not> SubM m' \<and> \<not> SubS m'
              then fail p3 ''empty regular expression modifiers''
              else rest m' p3))
          else rest m p1)"

subsection \<open>Class atoms\<close>

text \<open>A class atom is a code point, which can end a range, or a set-valued item.\<close>

datatype classAtom = CharAtom rune | SetAtom ClassItem

fun toItem :: "classAtom \<Rightarrow> ClassItem" where
  "toItem (CharAtom r) = ClassRange r r"
| "toItem (SetAtom i) = i"

definition classSetSyntaxChar :: "rune \<Rightarrow> bool" where
  "classSetSyntaxChar r \<longleftrightarrow> r \<in> {0x28, 0x29, 0x5B, 0x5D, 0x7B, 0x7D, 0x2F, 0x2D, 0x5C, 0x7C}"

definition classSetDoublePunctChar :: "rune \<Rightarrow> bool" where
  "classSetDoublePunctChar r \<longleftrightarrow> r \<in> {0x26, 0x21, 0x23, 0x24, 0x25, 0x2A, 0x2B, 0x2C, 0x2E,
     0x3A, 0x3B, 0x3C, 0x3D, 0x3E, 0x3F, 0x40, 0x5E, 0x60, 0x7E}"

definition checkClassSetChar :: "parser \<Rightarrow> unit pres" where
  "checkClassSetChar p =
     (if classSetSyntaxChar (peek p) then fail p ''invalid character in character class''
      else if classSetDoublePunctChar (peek p) \<and> peekAt p 1 = peek p then fail p ''invalid set operation''
      else Inr ((), p))"

definition is_class_letter :: "rune \<Rightarrow> bool" where
  "is_class_letter c \<longleftrightarrow> c = 0x64 \<or> c = 0x44 \<or> c = 0x77 \<or> c = 0x57 \<or> c = 0x73 \<or> c = 0x53"

definition parseClassEscape :: "parser \<Rightarrow> classAtom pres" where
  "parseClassEscape p =
     res_bind (advance p) (\<lambda>(_, p1).
       if eof p1 then fail p1 (CHR 0x5C # '' at end of pattern'')
       else
         let c = peek p1 in
         if is_class_letter c then
           res_bind (advance p1) (\<lambda>(_, p2). Inr (SetAtom (ClassEscape (classEscKind c)), p2))
         else if c = 0x62 then res_bind (advance p1) (\<lambda>(_, p2). Inr (CharAtom 0x08, p2))
         else if c = 0x2D then res_bind (advance p1) (\<lambda>(_, p2). Inr (CharAtom 0x2D, p2))
         else if (c = 0x70 \<or> c = 0x50) \<and> p_unicode p1 then
           res_bind (parsePropertyEscape (c = 0x50) p1) (\<lambda>(i, p2). Inr (SetAtom i, p2))
         else res_bind (parseCharacterEscape p1) (\<lambda>(r, p2). Inr (CharAtom r, p2)))"

definition parseClassAtom :: "parser \<Rightarrow> classAtom pres" where
  "parseClassAtom p =
     (if peek p = 0x5C then parseClassEscape p
      else
        res_bind (if UnicodeSets (p_flags p) then checkClassSetChar p else Inr ((), p)) (\<lambda>(_, p1).
        res_bind (advance p1) (\<lambda>(r, p2). Inr (CharAtom r, p2))))"

definition requireClassClose :: "ClassSet \<Rightarrow> parser \<Rightarrow> ClassSet pres" where
  "requireClassClose s p =
     (if peek p \<noteq> 0x5D then fail p ''unterminated character class'' else Inr (s, p))"

fun qstring_loop :: "nat \<Rightarrow> parser \<Rightarrow> rune list list \<Rightarrow> rune list \<Rightarrow> (rune list list \<times> rune list) pres" where
  "qstring_loop 0 p alts runes = Inl OutOfFuel"
| "qstring_loop (Suc n) p alts runes =
     (if \<not> eof p \<and> peek p \<noteq> 0x7D then
        if peek p = 0x7C then
          res_bind (advance p) (\<lambda>(_, p1). qstring_loop n p1 (alts @ [runes]) [])
        else if peek p = 0x5C then
          res_bind (advance p) (\<lambda>(_, p1).
          res_bind (parseCharacterEscape p1) (\<lambda>(r, p2). qstring_loop n p2 alts (runes @ [r])))
        else res_bind (advance p) (\<lambda>(r, p1). qstring_loop n p1 alts (runes @ [r]))
      else Inr ((alts, runes), p))"

definition parseClassStringDisjunction :: "parser \<Rightarrow> ClassItem pres" where
  "parseClassStringDisjunction p =
     res_bind (advance p) (\<lambda>(_, p1).
     res_bind (advance p1) (\<lambda>(_, p2).
       if peek p2 \<noteq> 0x7B then fail p2 (''invalid '' @ [CHR 0x5C, CHR ''q''])
       else
         res_bind (advance p2) (\<lambda>(_, p3).
         res_bind (qstring_loop (length (p_src p3) + 1) p3 [] []) (\<lambda>((alts, runes), p4).
           if peek p4 \<noteq> 0x7D then fail p4 (''unterminated '' @ [CHR 0x5C, CHR ''q''])
           else res_bind (advance p4) (\<lambda>(_, p5). Inr (ClassStringDisjunction (alts @ [runes]), p5))))))"

definition at_op :: "parser \<Rightarrow> rune \<Rightarrow> bool" where
  "at_op p c \<longleftrightarrow> peek p = c \<and> peekAt p 1 = c"

definition at_q :: "parser \<Rightarrow> bool" where
  "at_q p \<longleftrightarrow> peek p = 0x5C \<and> peekAt p 1 = 0x71"

subsection \<open>Character classes\<close>

text \<open>
  The v-mode grammar is recursive through nested classes: the functions below take the parser of
  a nested class set as an argument \<open>rec\<close>, and \<open>parseClassSetV\<close> ties the knot with one unit of fuel
  per nesting level. Every round of a loop reads at least one rune, so the length of the pattern
  bounds the rounds.
\<close>

definition parseNestedClassV :: "(parser \<Rightarrow> ClassSet pres) \<Rightarrow> parser \<Rightarrow> ClassItem pres" where
  "parseNestedClassV rec p =
     res_bind (advance p) (\<lambda>(_, p1).
       let neg = (peek p1 = 0x5E); p2 = (if neg then skip p1 else p1) in
       res_bind (rec p2) (\<lambda>(inner, p3).
       res_bind (expect p3 0x5D) (\<lambda>(_, p4). Inr (NestedClass neg inner, p4))))"

definition parseClassSetMember :: "(parser \<Rightarrow> ClassSet pres) \<Rightarrow> parser \<Rightarrow> ClassItem pres" where
  "parseClassSetMember rec p =
     (if peek p = 0x5B then parseNestedClassV rec p
      else if at_q p then parseClassStringDisjunction p
      else
        res_bind (parseClassAtom p) (\<lambda>(lo, p1).
          case lo of
            CharAtom l \<Rightarrow>
              if peek p1 = 0x2D \<and> peekAt p1 1 \<noteq> 0x2D \<and> peekAt p1 1 \<noteq> 0x5D \<and> peekAt p1 1 \<noteq> -1 then
                res_bind (advance p1) (\<lambda>(_, p2).
                res_bind (parseClassAtom p2) (\<lambda>(hi, p3).
                  case hi of
                    SetAtom _ \<Rightarrow> fail p3 ''invalid character class range''
                  | CharAtom h \<Rightarrow>
                      if l > h then fail p3 ''range out of order in character class''
                      else Inr (ClassRange l h, p3)))
              else Inr (toItem lo, p1)
          | SetAtom _ \<Rightarrow> Inr (toItem lo, p1)))"

definition parseClassSetOperand :: "(parser \<Rightarrow> ClassSet pres) \<Rightarrow> parser \<Rightarrow> ClassItem pres" where
  "parseClassSetOperand rec p =
     (if peek p = 0x5B then parseNestedClassV rec p
      else if at_q p then parseClassStringDisjunction p
      else res_bind (parseClassAtom p) (\<lambda>(a, p1). Inr (toItem a, p1)))"

fun class_op_loop :: "nat \<Rightarrow> (parser \<Rightarrow> ClassSet pres) \<Rightarrow> rune \<Rightarrow> parser \<Rightarrow> ClassItem list \<Rightarrow> ClassItem list pres" where
  "class_op_loop 0 rec c p items = Inl OutOfFuel"
| "class_op_loop (Suc n) rec c p items =
     (if at_op p c then
        res_bind (advance p) (\<lambda>(_, p1).
        res_bind (advance p1) (\<lambda>(_, p2).
          if c = 0x26 \<and> peek p2 = 0x26 then fail p2 ''invalid set operation''
          else res_bind (parseClassSetOperand rec p2) (\<lambda>(i, p3). class_op_loop n rec c p3 (items @ [i]))))
      else Inr (items, p))"

fun class_union_loop :: "nat \<Rightarrow> (parser \<Rightarrow> ClassSet pres) \<Rightarrow> parser \<Rightarrow> ClassItem list \<Rightarrow> ClassItem list pres" where
  "class_union_loop 0 rec p items = Inl OutOfFuel"
| "class_union_loop (Suc n) rec p items =
     (if \<not> eof p \<and> peek p \<noteq> 0x5D then
        if at_op p 0x26 \<or> at_op p 0x2D then fail p ''mixed set operations''
        else res_bind (parseClassSetMember rec p) (\<lambda>(i, p1). class_union_loop n rec p1 (items @ [i]))
      else Inr (items, p))"

definition class_set_body :: "(parser \<Rightarrow> ClassSet pres) \<Rightarrow> parser \<Rightarrow> ClassSet pres" where
  "class_set_body rec p =
     res_bind (parseClassSetMember rec p) (\<lambda>(first, p1).
       let n = length (p_src p) + 1 in
       if at_op p1 0x26 then
         res_bind (class_op_loop n rec 0x26 p1 [first])
           (\<lambda>(items, p2). requireClassClose (ClassSet SetIntersection items) p2)
       else if at_op p1 0x2D then
         res_bind (class_op_loop n rec 0x2D p1 [first])
           (\<lambda>(items, p2). requireClassClose (ClassSet SetSubtraction items) p2)
       else
         res_bind (class_union_loop n rec p1 [first])
           (\<lambda>(items, p2). requireClassClose (ClassSet SetUnion items) p2))"

fun parseClassSetV :: "nat \<Rightarrow> parser \<Rightarrow> ClassSet pres" where
  "parseClassSetV 0 p = Inl OutOfFuel"
| "parseClassSetV (Suc n) p = class_set_body (parseClassSetV n) p"

fun class_loop :: "nat \<Rightarrow> parser \<Rightarrow> ClassItem list \<Rightarrow> ClassItem list pres" where
  "class_loop 0 p items = Inl OutOfFuel"
| "class_loop (Suc n) p items =
     (if eof p then fail p ''unterminated character class''
      else if peek p = 0x5D then Inr (items, p)
      else
        res_bind (parseClassAtom p) (\<lambda>(lo, p1).
          if peek p1 = 0x2D \<and> peekAt p1 1 \<noteq> 0x5D \<and> peekAt p1 1 \<noteq> -1 then
            (case lo of
               SetAtom _ \<Rightarrow>
                 if p_unicode p1 then fail p1 ''invalid character class range''
                 else class_loop n p1 (items @ [toItem lo])
             | CharAtom l \<Rightarrow>
                 res_bind (advance p1) (\<lambda>(_, p2).
                 res_bind (parseClassAtom p2) (\<lambda>(hi, p3).
                   case hi of
                     SetAtom _ \<Rightarrow>
                       if p_unicode p3 then fail p3 ''invalid character class range''
                       else class_loop n p3 (items @ [ClassRange l l, ClassRange 0x2D 0x2D, toItem hi])
                   | CharAtom h \<Rightarrow>
                       if l > h then fail p3 ''range out of order in character class''
                       else class_loop n p3 (items @ [ClassRange l h]))))
          else class_loop n p1 (items @ [toItem lo])))"

definition parseCharClass :: "parser \<Rightarrow> Node pres" where
  "parseCharClass p =
     res_bind (advance p) (\<lambda>(_, p1).
       let negate = (peek p1 = 0x5E); p2 = (if negate then skip p1 else p1); n = length (p_src p) + 1 in
       if UnicodeSets (p_flags p2) then
         res_bind (parseClassSetV n p2) (\<lambda>(set, p3).
         res_bind (expect p3 0x5D) (\<lambda>(_, p4). Inr (CharClass negate set, p4)))
       else
         res_bind (class_loop n p2 []) (\<lambda>(items, p3).
         res_bind (advance p3) (\<lambda>(_, p4). Inr (CharClass negate (ClassSet SetUnion items), p4))))"

subsection \<open>The grammar\<close>

definition parseAtomEscape :: "unicode_db \<Rightarrow> parser \<Rightarrow> Node pres" where
  "parseAtomEscape db p =
     res_bind (advance p) (\<lambda>(_, p1).
       if eof p1 then fail p1 (CHR 0x5C # '' at end of pattern'')
       else
         let c = peek p1 in
         if is_class_letter c then
           res_bind (advance p1) (\<lambda>(_, p2).
             Inr (CharClass False (ClassSet SetUnion [ClassEscape (classEscKind c)]), p2))
         else if c = 0x70 \<or> c = 0x50 then
           if p_unicode p1 then
             res_bind (parsePropertyEscape (c = 0x50) p1) (\<lambda>(prop, p2).
               Inr (CharClass False (ClassSet SetUnion [prop]), p2))
           else res_bind (advance p1) (\<lambda>(_, p2). Inr (CharN c, p2))
         else if c = 0x6B then
           if p_unicode p1 \<or> p_names p1 \<noteq> [] then
             res_bind (advance p1) (\<lambda>(_, p2).
               if peek p2 \<noteq> 0x3C then fail p2 ''invalid named backreference''
               else
                 res_bind (advance p2) (\<lambda>(_, p3).
                 res_bind (readGroupName db p3) (\<lambda>(name, p4).
                   if map_of (p_names p4) name = None then fail p4 ''reference to undefined named group''
                   else Inr (NamedBackRef name, p4))))
           else res_bind (advance p1) (\<lambda>(_, p2). Inr (CharN 0x6B, p2))
         else if c \<ge> 0x31 \<and> c \<le> 0x39 then
           let ((n, _), p2) = readDecimalInt p1 in
           if n \<le> int (p_numGroups p2) then Inr (BackRef (nat n), p2)
           else if p_unicode p2 then fail p2 ''invalid backreference''
           else let (r, p3) = parseLegacyOctalOrIdentity p1 in Inr (CharN r, p3)
         else res_bind (parseCharacterEscape p1) (\<lambda>(r, p2). Inr (CharN r, p2)))"

text \<open>
  The name of an unnamed-syntax capture is looked up in the pre-scanned table; the Go code ranges
  over the map and takes the entry that holds the index.
\<close>

definition name_of_index :: "group_names \<Rightarrow> nat \<Rightarrow> go_string" where
  "name_of_index names idx =
     (case find (\<lambda>(n, idxs). n \<noteq> [] \<and> idx \<in> set idxs) names of Some (n, _) \<Rightarrow> n | None \<Rightarrow> [])"

text \<open>
  The grammar is recursive through groups: \<open>rec\<close> parses the disjunction inside a group, and
  \<open>parseDisjunction\<close> ties the knot with one unit of fuel per nesting level.
\<close>

definition group_inner :: "(parser \<Rightarrow> Node pres) \<Rightarrow> parser \<Rightarrow> (Node \<Rightarrow> Node) \<Rightarrow> bool \<Rightarrow> (Node \<times> bool) pres" where
  "group_inner rec p f quantifiable =
     res_bind (rec p) (\<lambda>(body, p1).
     res_bind (expect p1 0x29) (\<lambda>(_, p2). Inr ((f body, quantifiable), p2)))"

definition parseGroup :: "unicode_db \<Rightarrow> (parser \<Rightarrow> Node pres) \<Rightarrow> parser \<Rightarrow> (Node \<times> bool) pres" where
  "parseGroup db rec p =
     res_bind (advance p) (\<lambda>(_, p1).
       if peek p1 \<noteq> 0x3F then
         let idx = p_capIndex p1 + 1 in
         group_inner rec (p1\<lparr>p_capIndex := idx\<rparr>) (Capture idx (name_of_index (p_names p1) idx)) True
       else
         res_bind (advance p1) (\<lambda>(_, p2).
           let c = peek p2 in
           if c = 0x3A then res_bind (advance p2) (\<lambda>(_, p3). group_inner rec p3 (Group None) True)
           else if c = 0x3D then
             res_bind (advance p2) (\<lambda>(_, p3). group_inner rec p3 (Lookaround False False) (\<not> p_unicode p))
           else if c = 0x21 then
             res_bind (advance p2) (\<lambda>(_, p3). group_inner rec p3 (Lookaround False True) (\<not> p_unicode p))
           else if c = 0x3C \<and> (peekAt p2 1 = 0x3D \<or> peekAt p2 1 = 0x21) then
             res_bind (advance p2) (\<lambda>(_, p3).
             res_bind (advance p3) (\<lambda>(k, p4). group_inner rec p4 (Lookaround True (k = 0x21)) False))
           else if c = 0x3C then
             res_bind (advance p2) (\<lambda>(_, p3).
               let idx = p_capIndex p3 + 1 in
               res_bind (readGroupName db (p3\<lparr>p_capIndex := idx\<rparr>)) (\<lambda>(name, p4).
                 group_inner rec p4 (Capture idx name) True))
           else
             res_bind (parseModifiers p2) (\<lambda>(mods, p3).
             res_bind (expect p3 0x3A) (\<lambda>(_, p4). group_inner rec p4 (Group (Some mods)) True))))"

definition parseAtom :: "unicode_db \<Rightarrow> (parser \<Rightarrow> Node pres) \<Rightarrow> parser \<Rightarrow> Node pres" where
  "parseAtom db rec p =
     (let c = peek p in
      if c = 0x2E then res_bind (advance p) (\<lambda>(_, p1). Inr (AnyChar, p1))
      else if c = 0x5C then parseAtomEscape db p
      else if c = 0x5B then parseCharClass p
      else if c = 0x28 then res_bind (parseGroup db rec p) (\<lambda>((g, _), p1). Inr (g, p1))
      else if c = 0x2A \<or> c = 0x2B \<or> c = 0x3F then fail p ''nothing to repeat''
      else if c = 0x7B then
        res_bind (parseBraceQuantifier p) (\<lambda>(q, p1).
          if q \<noteq> None then fail p1 ''nothing to repeat''
          else if p_unicode p1 then fail p1 ''lone quantifier bracket''
          else res_bind (advance p1) (\<lambda>(_, p2). Inr (CharN 0x7B, p2)))
      else if c = 0x7D \<or> c = 0x5D then
        if p_unicode p then fail_msg p (str ''lone '' @ [0x27] @ string_of_runes [c] @ [0x27])
        else res_bind (advance p) (\<lambda>(_, p1). Inr (CharN c, p1))
      else res_bind (advance p) (\<lambda>(_, p1). Inr (CharN c, p1)))"

definition parseAssertionOrAtom :: "unicode_db \<Rightarrow> (parser \<Rightarrow> Node pres) \<Rightarrow> parser \<Rightarrow> (Node \<times> bool) pres" where
  "parseAssertionOrAtom db rec p =
     (if peek p = 0x5E then res_bind (advance p) (\<lambda>(_, p1). Inr ((Assertion AssertBOL, False), p1))
      else if peek p = 0x24 then res_bind (advance p) (\<lambda>(_, p1). Inr ((Assertion AssertEOL, False), p1))
      else if peek p = 0x5C \<and> (peekAt p 1 = 0x62 \<or> peekAt p 1 = 0x42) then
        res_bind (advance p) (\<lambda>(_, p1).
        res_bind (advance p1) (\<lambda>(n, p2).
          Inr ((Assertion (if n = 0x42 then AssertNotWordB else AssertWordB), False), p2)))
      else if peek p = 0x28 then parseGroup db rec p
      else res_bind (parseAtom db rec p) (\<lambda>(a, p1). Inr ((a, True), p1)))"

definition parseTerm :: "unicode_db \<Rightarrow> (parser \<Rightarrow> Node pres) \<Rightarrow> parser \<Rightarrow> Node pres" where
  "parseTerm db rec p =
     res_bind (parseAssertionOrAtom db rec p) (\<lambda>((node, quantifiable), p1).
     res_bind (parseQuantifier p1) (\<lambda>(q, p2).
       case q of
         Some q \<Rightarrow>
           if \<not> quantifiable then fail p2 ''nothing to repeat''
           else Inr (Quantifier (nat (q_min q)) (q_max q) (q_greedy q) node, p2)
       | None \<Rightarrow> Inr (node, p2)))"

fun alternative_loop :: "nat \<Rightarrow> unicode_db \<Rightarrow> (parser \<Rightarrow> Node pres) \<Rightarrow> parser \<Rightarrow> Node list \<Rightarrow> Node list pres" where
  "alternative_loop 0 db rec p terms = Inl OutOfFuel"
| "alternative_loop (Suc n) db rec p terms =
     (if \<not> eof p \<and> peek p \<noteq> 0x7C \<and> peek p \<noteq> 0x29 then
        res_bind (parseTerm db rec p) (\<lambda>(t, p1). alternative_loop n db rec p1 (terms @ [t]))
      else Inr (terms, p))"

definition parseAlternative :: "unicode_db \<Rightarrow> (parser \<Rightarrow> Node pres) \<Rightarrow> parser \<Rightarrow> Node pres" where
  "parseAlternative db rec p =
     res_bind (alternative_loop (length (p_src p) + 1) db rec p []) (\<lambda>(terms, p1).
       Inr (case terms of [] \<Rightarrow> Empty | [t] \<Rightarrow> t | _ \<Rightarrow> Concat terms, p1))"

fun disjunction_loop :: "nat \<Rightarrow> unicode_db \<Rightarrow> (parser \<Rightarrow> Node pres) \<Rightarrow> parser \<Rightarrow> Node list \<Rightarrow> Node pres" where
  "disjunction_loop 0 db rec p alts = Inl OutOfFuel"
| "disjunction_loop (Suc n) db rec p alts =
     (if peek p = 0x7C then
        res_bind (advance p) (\<lambda>(_, p1).
        res_bind (parseAlternative db rec p1) (\<lambda>(a, p2). disjunction_loop n db rec p2 (alts @ [a])))
      else Inr (Disjunction alts, p))"

definition disjunction_body :: "unicode_db \<Rightarrow> (parser \<Rightarrow> Node pres) \<Rightarrow> parser \<Rightarrow> Node pres" where
  "disjunction_body db rec p =
     res_bind (parseAlternative db rec p) (\<lambda>(first, p1).
       if peek p1 \<noteq> 0x7C then Inr (first, p1)
       else disjunction_loop (length (p_src p) + 1) db rec p1 [first])"

fun parseDisjunction :: "unicode_db \<Rightarrow> nat \<Rightarrow> parser \<Rightarrow> Node pres" where
  "parseDisjunction db 0 p = Inl OutOfFuel"
| "parseDisjunction db (Suc n) p = disjunction_body db (parseDisjunction db n) p"

subsection \<open>Duplicate names and the entry point\<close>

text \<open>
  The sets of names are lists without duplicates; Go iterates over maps, so which of several
  duplicated names an error mentions is unspecified there.
\<close>

definition dup_err :: "go_string \<Rightarrow> SyntaxError" where
  "dup_err n = \<lparr>Msg = str ''duplicate capture group name '' @ n, Pos = -1\<rparr>"

fun mergeExclusive :: "go_string list \<Rightarrow> go_string list \<Rightarrow> SyntaxError + go_string list" where
  "mergeExclusive a [] = Inr a"
| "mergeExclusive a (k # ks) = (if k \<in> set a then Inl (dup_err k) else mergeExclusive (a @ [k]) ks)"

fun dupCheckNames :: "Node \<Rightarrow> SyntaxError + go_string list"
  and dup_alternatives :: "Node list \<Rightarrow> go_string list \<Rightarrow> SyntaxError + go_string list"
  and dup_terms :: "Node list \<Rightarrow> go_string list \<Rightarrow> SyntaxError + go_string list" where
  "dupCheckNames (Disjunction alts) = dup_alternatives alts []"
| "dupCheckNames (Concat terms) = dup_terms terms []"
| "dupCheckNames (Capture i name body) =
     res_bind (dupCheckNames body) (\<lambda>s.
       if name \<noteq> [] then if name \<in> set s then Inl (dup_err name) else Inr (s @ [name]) else Inr s)"
| "dupCheckNames (Group mods body) = dupCheckNames body"
| "dupCheckNames (Quantifier mn mx g body) = dupCheckNames body"
| "dupCheckNames (Lookaround bh ng body) = dupCheckNames body"
| "dupCheckNames n = Inr []"
| "dup_alternatives [] acc = Inr acc"
| "dup_alternatives (a # as) acc =
     res_bind (dupCheckNames a) (\<lambda>s. dup_alternatives as (acc @ filter (\<lambda>k. k \<notin> set acc) s))"
| "dup_terms [] acc = Inr acc"
| "dup_terms (t # ts) acc =
     res_bind (dupCheckNames t) (\<lambda>s. res_bind (mergeExclusive acc s) (dup_terms ts))"

definition parse_fuel :: "rune list \<Rightarrow> nat" where
  "parse_fuel src = length src + 1"

definition lift_syntax :: "SyntaxError + 'a \<Rightarrow> parse_err + 'a" where
  "lift_syntax r = (case r of Inl e \<Rightarrow> Inl (Syntax e) | Inr x \<Rightarrow> Inr x)"

definition Parse :: "unicode_db \<Rightarrow> rune list \<Rightarrow> Flags \<Rightarrow> parse_err + Pattern" where
  "Parse db src flags =
     res_bind (lift_syntax (scanGroups src)) (\<lambda>(n, names).
       let p = \<lparr>p_src = src, p_pos = 0, p_flags = flags, p_numGroups = n, p_names = names, p_capIndex = 0\<rparr> in
       res_bind (parseDisjunction db (parse_fuel src) p) (\<lambda>(body, p1).
         if p_pos p1 \<noteq> length src then
           Inl (Syntax \<lparr>Msg = str ''unmatched '' @ [0x27, 0x29, 0x27], Pos = int (p_pos p1)\<rparr>)
         else res_bind (lift_syntax (dupCheckNames body)) (\<lambda>_.
           Inr \<lparr>Body = body, GroupCount = n, GroupNames = names, PFlags = flags\<rparr>)))"

end
