(* ===== verification/Regexp_Parser_Facts.thy ===== *)
theory Regexp_Parser_Facts
  imports Regexp_Parser
begin

text \<open>
  What a parse leaves behind. \<open>wp\<close> is the weakest precondition of a parsing function for a
  postcondition on its result and the parser it returns: it demands that the recursion fuel is
  not exhausted and that a read past the end happens only where \<open>v\<close> allows it. With it every
  function is shown to move to the right within the pattern and to be transparent to the
  pre-scan: scanning from where it started gives what scanning from where it stopped gives,
  shifted by the groups it parsed.
\<close>

subsection \<open>Weakest preconditions\<close>

definition wp :: "bool \<Rightarrow> 'a pres \<Rightarrow> ('a \<Rightarrow> parser \<Rightarrow> bool) \<Rightarrow> bool" where
  "wp v r Q = (case r of
      Inl e \<Rightarrow> e \<noteq> OutOfFuel \<and> (e = IndexPanic \<longrightarrow> v)
    | Inr (x, p) \<Rightarrow> Q x p)"

named_theorems wp_simps \<open>computation rules of the weakest precondition\<close>

lemma wp_Inr [wp_simps]: "wp v (Inr (x, p)) Q = Q x p"
  by (simp add: wp_def)

lemma wp_fail [wp_simps]: "wp v (fail p msg) Q" "wp v (fail_msg p msg') Q"
  by (simp_all add: wp_def fail_def fail_msg_def)

lemma wp_bind [wp_simps]: "wp v (res_bind r f) Q = wp v r (\<lambda>x p. wp v (f (x, p)) Q)"
  by (cases r) (auto simp: wp_def)

lemma wp_if [wp_simps]: "wp v (if b then r else s) Q = (if b then wp v r Q else wp v s Q)"
  by simp

lemma wp_advance [wp_simps]:
  "wp v (advance p) Q = (if p_pos p < length (p_src p) then Q (p_src p ! p_pos p) (skip p) else v)"
  by (simp add: wp_def advance_def)

lemma wp_expect [wp_simps]: "wp v (expect p r) Q = (peek p = r \<longrightarrow> Q () (skip p))"
  by (simp add: wp_def expect_def fail_msg_def)

lemma wp_mono: "wp v r Q \<Longrightarrow> (\<And>x p. Q x p \<Longrightarrow> Q' x p) \<Longrightarrow> wp v r Q'"
  by (auto simp: wp_def split: sum.splits)

lemma wp_Inl_iff: "wp v (Inl e) Q \<longleftrightarrow> e \<noteq> OutOfFuel \<and> (e = IndexPanic \<longrightarrow> v)"
  by (simp add: wp_def)

lemma skip_simps [simp]:
  "p_src (skip p) = p_src p" "p_pos (skip p) = p_pos p + 1" "p_flags (skip p) = p_flags p"
  "p_numGroups (skip p) = p_numGroups p" "p_names (skip p) = p_names p" "p_capIndex (skip p) = p_capIndex p"
  by (simp_all add: skip_def)

lemma peekAtD: "peekAt p k = c \<Longrightarrow> c \<noteq> -1 \<Longrightarrow> p_pos p + k < length (p_src p) \<and> p_src p ! (p_pos p + k) = c"
  by (auto simp: peekAt_def split: if_splits)

lemma peekD: "peek p = c \<Longrightarrow> c \<noteq> -1 \<Longrightarrow> p_pos p < length (p_src p) \<and> p_src p ! p_pos p = c"
  using peekAtD [of p 0 c] by (simp add: peek_def)

lemma peek_ge: "0 \<le> peek p \<Longrightarrow> p_pos p < length (p_src p) \<and> peek p = p_src p ! p_pos p"
  using peekD [of p "peek p"] by auto

lemma eof_peek: "\<not> eof p \<Longrightarrow> p_pos p < length (p_src p) \<and> peek p = p_src p ! p_pos p"
  by (simp add: eof_def peek_def peekAt_def)

subsection \<open>Moving to the right\<close>

definition same :: "parser \<Rightarrow> parser \<Rightarrow> bool" where
  "same p q \<longleftrightarrow> p_src q = p_src p \<and> p_flags q = p_flags p \<and> p_numGroups q = p_numGroups p \<and> p_names q = p_names p"

definition moves_to :: "parser \<Rightarrow> parser \<Rightarrow> bool" where
  "moves_to p q \<longleftrightarrow> same p q \<and> p_capIndex q = p_capIndex p \<and> p_pos p \<le> p_pos q \<and> p_pos q \<le> length (p_src p)"

lemma moves_to_refl: "p_pos p \<le> length (p_src p) \<Longrightarrow> moves_to p p"
  by (simp add: moves_to_def same_def)

lemma moves_to_trans: "moves_to p q \<Longrightarrow> moves_to q r \<Longrightarrow> moves_to p r"
  by (simp add: moves_to_def same_def)

lemma moves_to_skip: "p_pos p < length (p_src p) \<Longrightarrow> moves_to p (skip p)"
  by (simp add: moves_to_def same_def)

lemma moves_toD:
  "moves_to p q \<Longrightarrow> p_src q = p_src p \<and> p_flags q = p_flags p \<and> p_numGroups q = p_numGroups p \<and> p_names q = p_names p
     \<and> p_capIndex q = p_capIndex p \<and> p_pos p \<le> p_pos q \<and> p_pos q \<le> length (p_src p)"
  by (simp add: moves_to_def same_def)

subsection \<open>Transparency to the pre-scan\<close>

definition plain :: "rune \<Rightarrow> bool" where
  "plain c \<longleftrightarrow> c \<noteq> 0x5C \<and> c \<noteq> 0x5B \<and> c \<noteq> 0x5D \<and> c \<noteq> 0x28"

definition trans :: "rune list \<Rightarrow> nat \<Rightarrow> nat \<Rightarrow> bool" where
  "trans src i j \<longleftrightarrow> (\<forall>b cnt names. scan_loop src i b cnt names = scan_loop src j b cnt names)"

lemma trans_refl [simp]: "trans src i i"
  by (simp add: trans_def)

lemma trans_trans: "trans src i j \<Longrightarrow> trans src j k \<Longrightarrow> trans src i k"
  by (simp add: trans_def)

lemma trans_plain: "i < length src \<Longrightarrow> plain (src ! i) \<Longrightarrow> trans src i (i + 1)"
  unfolding trans_def by (intro allI, subst scan_loop.simps) (simp add: plain_def Let_def)

lemma trans_escape: "i < length src \<Longrightarrow> src ! i = 0x5C \<Longrightarrow> trans src i (i + 2)"
  unfolding trans_def by (intro allI, subst scan_loop.simps) (simp add: Let_def)

lemma trans_plain_then: "i < length src \<Longrightarrow> plain (src ! i) \<Longrightarrow> trans src (i + 1) j \<Longrightarrow> trans src i j"
  using trans_plain trans_trans by blast

lemma trans_escape_then: "i < length src \<Longrightarrow> src ! i = 0x5C \<Longrightarrow> trans src (i + 2) j \<Longrightarrow> trans src i j"
  using trans_escape trans_trans by blast

text \<open>A parser move that the scan does not see.\<close>

definition glides :: "parser \<Rightarrow> parser \<Rightarrow> bool" where
  "glides p q \<longleftrightarrow> moves_to p q \<and> trans (p_src p) (p_pos p) (p_pos q)"

lemma glides_refl: "p_pos p \<le> length (p_src p) \<Longrightarrow> glides p p"
  by (simp add: glides_def moves_to_refl)

lemma glides_trans: "glides p q \<Longrightarrow> glides q r \<Longrightarrow> glides p r"
  unfolding glides_def using moves_to_trans trans_trans moves_toD by metis

lemma glides_skip: "p_pos p < length (p_src p) \<Longrightarrow> plain (p_src p ! p_pos p) \<Longrightarrow> glides p (skip p)"
  using trans_plain [of "p_pos p" "p_src p"] by (simp add: glides_def moves_to_skip)

lemma glides_skip_then:
  "p_pos p < length (p_src p) \<Longrightarrow> plain (p_src p ! p_pos p) \<Longrightarrow> glides (skip p) q \<Longrightarrow> glides p q"
  using glides_skip glides_trans by blast

lemma glidesD: "glides p q \<Longrightarrow> moves_to p q" "glides p q \<Longrightarrow> trans (p_src p) (p_pos p) (p_pos q)"
  by (simp_all add: glides_def)

lemma hex_plain: "isHexDigit c \<Longrightarrow> plain c" "isHexDigit c \<Longrightarrow> c \<noteq> -1"
  by (auto simp: isHexDigit_def plain_def)

lemma digit_plain: "0x30 \<le> c \<Longrightarrow> c \<le> 0x39 \<Longrightarrow> plain c"
  by (auto simp: plain_def)

subsection \<open>Lexical functions\<close>

lemma decimal_loop_glides: "decimal_loop p v = (w, q) \<Longrightarrow> p_pos p \<le> length (p_src p) \<Longrightarrow>
    glides p q \<and> (0 \<le> v \<longrightarrow> v \<le> w) \<and> (peek p \<ge> 0x30 \<and> peek p \<le> 0x39 \<longrightarrow> p_pos p < p_pos q)"
proof (induction p v rule: decimal_loop.induct)
  case (1 p v)
  show ?case
  proof (cases "peek p \<ge> 0x30 \<and> peek p \<le> 0x39")
    case True
    let ?v = "if v < 1073741824 then v * 10 + (peek p - 0x30) else v"
    have rec: "decimal_loop (skip p) ?v = (w, q)" using "1.prems"(1) True by (subst (asm) decimal_loop.simps) simp
    have pk: "p_pos p < length (p_src p)" "peek p = p_src p ! p_pos p" using peek_ge [of p] True by auto
    have ih: "glides (skip p) q" "0 \<le> ?v \<longrightarrow> ?v \<le> w" using "1.IH" [OF True rec] pk by auto
    have "plain (p_src p ! p_pos p)" using digit_plain True pk(2) by simp
    then have "glides p q" using glides_skip_then [OF pk(1)] ih(1) by blast
    moreover have "p_pos p < p_pos q" using glidesD(1) [OF ih(1)] moves_toD by fastforce
    moreover have "0 \<le> v \<longrightarrow> v \<le> w" using ih(2) True by (auto split: if_splits)
    ultimately show ?thesis by blast
  next
    case False
    then have "(v, p) = (w, q)" using "1.prems"(1) by (subst (asm) decimal_loop.simps) auto
    then show ?thesis using False "1.prems"(2) glides_refl by auto
  qed
qed

lemma readDecimalInt_glides:
  assumes "readDecimalInt p = ((n, ok), q)" "p_pos p \<le> length (p_src p)"
  shows "glides p q" "0 \<le> n" "ok \<longleftrightarrow> p_pos p < p_pos q" "peek p \<ge> 0x30 \<Longrightarrow> peek p \<le> 0x39 \<Longrightarrow> ok"
  using assms decimal_loop_glides [of p 0] by (auto simp: readDecimalInt_def split: prod.splits)

lemma readDecimalInt_pos:
  assumes "readDecimalInt p = ((n, ok), q)" "0x31 \<le> peek p" "peek p \<le> 0x39"
  shows "1 \<le> n"
proof -
  have pk: "p_pos p < length (p_src p)" using peek_ge [of p] assms(2) by simp
  have "decimal_loop (skip p) (peek p - 0x30) = (n, q)"
    using assms by (simp add: readDecimalInt_def decimal_loop.simps [of p 0] split: prod.splits)
  then show ?thesis using decimal_loop_glides [of "skip p" "peek p - 0x30" n q] pk assms(2) by simp
qed

lemma hex_loop_wp:
  "p_pos p \<le> length (p_src p) \<Longrightarrow> 0 \<le> v \<Longrightarrow> v \<le> 0x10FFFF \<Longrightarrow>
   wp False (hex_loop p v) (\<lambda>w q. glides p q \<and> 0 \<le> w \<and> w \<le> 0x10FFFF \<and> scan_hex (p_src p) (p_pos p) v = (p_pos q, w))"
proof (induction p v rule: hex_loop.induct)
  case (1 p v)
  show ?case
  proof (cases "isHexDigit (peek p)")
    case True
    have pk: "p_pos p < length (p_src p)" "p_src p ! p_pos p = peek p"
      using peekD [OF refl, of p] hex_plain(2) [OF True] by simp_all
    let ?v = "v * 16 + hexVal (peek p)"
    have hv: "0 \<le> hexVal (peek p)" "hexVal (peek p) < 16" using True by (auto simp: isHexDigit_def hexVal_def)
    show ?thesis
    proof (cases "?v > 0x10FFFF")
      case big: True
      then show ?thesis using True by (subst hex_loop.simps) (simp add: wp_simps)
    next
      case False
      have g: "go_int ?v = ?v" using False hv "1.prems" by (intro go_int_id) auto
      have "wp False (hex_loop (skip p) ?v) (\<lambda>w q. glides (skip p) q \<and> 0 \<le> w \<and> w \<le> 0x10FFFF \<and>
          scan_hex (p_src p) (p_pos p + 1) ?v = (p_pos q, w))"
        using "1.IH" [OF True refl refl False] False hv "1.prems" pk by simp
      then have "wp False (hex_loop (skip p) ?v) (\<lambda>w q. glides p q \<and> 0 \<le> w \<and> w \<le> 0x10FFFF \<and>
          scan_hex (p_src p) (p_pos p) v = (p_pos q, w))"
        by (rule wp_mono) (use True pk g hex_plain(1) [OF True] in
            \<open>auto simp: scan_hex.simps [of "p_src p" "p_pos p" v] intro: glides_skip_then\<close>)
      then show ?thesis using True False by (subst hex_loop.simps) (simp add: Let_def)
    qed
  next
    case False
    have "scan_hex (p_src p) (p_pos p) v = (p_pos p, v)"
      using False by (subst scan_hex.simps) (auto simp: peek_def peekAt_def)
    then show ?thesis using False 1 glides_refl by (subst hex_loop.simps) (simp add: wp_simps)
  qed
qed

lemma has4HexD:
  "has4Hex p \<Longrightarrow> p_pos p + 3 < length (p_src p) \<and> (\<forall>k \<in> {0, 1, 2, 3}. isHexDigit (p_src p ! (p_pos p + k)))"
  using peekAtD [of p 0] peekAtD [of p 1] peekAtD [of p 2] peekAtD [of p 3] hex_plain(2)
  by (fastforce simp: has4Hex_def peek_def)

lemma hexVal_bounds: "isHexDigit c \<Longrightarrow> 0 \<le> hexVal c \<and> hexVal c \<le> 15"
  by (auto simp: isHexDigit_def hexVal_def)

lemma hex4_at: "hex4 s i = ((hexVal (s ! i) * 16 + hexVal (s ! (i + 1))) * 16 + hexVal (s ! (i + 2))) * 16 + hexVal (s ! (i + 3))"
  by (simp add: hex4_def)

lemma glides_four:
  assumes "p_pos p + 3 < length (p_src p)" "\<forall>k \<in> {0, 1, 2, 3}. plain (p_src p ! (p_pos p + k))"
  shows "glides p (skip (skip (skip (skip p))))"
proof -
  have "glides p (skip p)" using assms by (intro glides_skip) auto
  moreover have "glides (skip p) (skip (skip p))" using assms by (intro glides_skip) auto
  moreover have "glides (skip (skip p)) (skip (skip (skip p)))" using assms by (intro glides_skip) (auto simp: numeral_2_eq_2)
  moreover have "glides (skip (skip (skip p))) (skip (skip (skip (skip p))))"
    using assms by (intro glides_skip) (auto simp: numeral_3_eq_3)
  ultimately show ?thesis using glides_trans by blast
qed

lemma read4Hex_eq:
  assumes "has4Hex p"
  shows "read4Hex p = Inr (hex4 (p_src p) (p_pos p), skip (skip (skip (skip p))))"
    and "glides p (skip (skip (skip (skip p))))"
    and "0 \<le> hex4 (p_src p) (p_pos p)" "hex4 (p_src p) (p_pos p) \<le> 0xFFFF"
proof -
  note h = has4HexD [OF assms]
  show "read4Hex p = Inr (hex4 (p_src p) (p_pos p), skip (skip (skip (skip p))))"
    using h by (simp add: read4Hex_def advance_def hex4_at numeral_2_eq_2 numeral_3_eq_3)
  show "glides p (skip (skip (skip (skip p))))" using h hex_plain(1) by (intro glides_four) auto
  have "\<forall>k \<in> {0, 1, 2, 3}. 0 \<le> hexVal (p_src p ! (p_pos p + k)) \<and> hexVal (p_src p ! (p_pos p + k)) \<le> 15"
    using h hexVal_bounds by blast
  then show "0 \<le> hex4 (p_src p) (p_pos p)" "hex4 (p_src p) (p_pos p) \<le> 0xFFFF"
    unfolding hex4_at by auto
qed

text \<open>
  A \<open>\u\<close> escape. In the Unicode grammar the parser and the pre-scan decode the same value and stop at
  the same place, unless the result is a lone high surrogate.
\<close>

definition high_surrogate :: "rune \<Rightarrow> bool" where
  "high_surrogate r \<longleftrightarrow> 0xD800 \<le> r \<and> r \<le> 0xDBFF"

lemma scan_brace:
  assumes "p_src p ! p_pos p = 0x7B" "p_pos p < length (p_src p)"
    and "scan_hex (p_src p) (p_pos p + 1) 0 = (p_pos q, w)" "0 \<le> w" "w \<le> 0x10FFFF"
    and "p_pos q \<noteq> p_pos p + 1" "p_pos q < length (p_src p)" "p_src p ! p_pos q = 0x7D"
  shows "scanUnicodeEscape (p_src p) (p_pos p) = Some (w, p_pos q + 1)"
  using assms by (simp add: scanUnicodeEscape_def go_int32_id)

lemma scan_four:
  assumes "has4Hex p" "peek p \<noteq> 0x7B"
  shows "scanUnicodeEscape (p_src p) (p_pos p) = Some (hex4 (p_src p) (p_pos p), p_pos p + 4)"
  using has4HexD [OF assms(1)] assms(2) by (auto simp: scanUnicodeEscape_def peek_def peekAt_def)

lemma has4Hex_not_brace: "has4Hex p \<Longrightarrow> peek p \<noteq> 0x7B"
  by (auto simp: has4Hex_def isHexDigit_def)

lemma glides_escape:
  assumes "p_pos p + 1 < length (p_src p)" "p_src p ! p_pos p = 0x5C"
  shows "glides p (skip (skip p))"
  using assms trans_escape [of "p_pos p" "p_src p"] by (auto simp: glides_def moves_to_def same_def numeral_2_eq_2)

lemma glides_src: "glides p q \<Longrightarrow> p_src q = p_src p \<and> p_pos p \<le> p_pos q \<and> p_pos q \<le> length (p_src p)"
  using glidesD(1) moves_toD by blast

lemma brace_escape_wp:
  assumes "peek p = 0x7B"
  shows "wp v (readUnicodeEscapeValueMode True p) (\<lambda>r q. glides p q \<and> 0 \<le> r \<and> r \<le> 0x10FFFF \<and>
    p_pos p < p_pos q \<and> scanUnicodeEscape (p_src p) (p_pos p) = Some (r, p_pos q))"
proof -
  have pk: "p_pos p < length (p_src p)" "p_src p ! p_pos p = 0x7B" using peekD [of p "0x7B"] assms by auto
  have pl: "glides p (skip p)" using pk by (intro glides_skip) (simp_all add: plain_def)
  show ?thesis
  proof (cases "hex_loop (skip p) 0")
    case (Inl e)
    then show ?thesis using hex_loop_wp [of "skip p" 0] pk assms
      by (simp add: readUnicodeEscapeValueMode_def wp_def advance_def)
  next
    case (Inr a)
    then obtain w q where r: "hex_loop (skip p) 0 = Inr (w, q)" by (cases a) auto
    have h: "glides (skip p) q" "0 \<le> w" "w \<le> 0x10FFFF" "scan_hex (p_src p) (p_pos p + 1) 0 = (p_pos q, w)"
      using hex_loop_wp [of "skip p" 0] pk r by (simp_all add: wp_def)
    have src: "p_src q = p_src p" "p_pos p + 1 \<le> p_pos q" using glides_src [OF h(1)] by auto
    show ?thesis
    proof (cases "p_pos q = p_pos (skip p) \<or> peek q \<noteq> 0x7D")
      case True
      then show ?thesis using r pk assms by (auto simp: readUnicodeEscapeValueMode_def advance_def wp_simps)
    next
      case False
      then have q: "p_pos q < length (p_src p)" "p_src p ! p_pos q = 0x7D" "p_pos q \<noteq> p_pos p + 1"
        using peekD [of q "0x7D"] src by auto
      have "glides q (skip q)" using q src by (intro glides_skip) (simp_all add: plain_def)
      then have "glides p (skip q)" using pl h(1) glides_trans by blast
      moreover have "scanUnicodeEscape (p_src p) (p_pos p) = Some (w, p_pos q + 1)"
        using scan_brace [OF pk(2,1) h(4,2,3) q(3,1,2)] .
      ultimately show ?thesis using r pk assms False q src h
        by (simp add: readUnicodeEscapeValueMode_def advance_def wp_simps)
    qed
  qed
qed

lemma scan_name_escape_back:
  "2 \<le> i \<and> scanUnicodeEscape src i = Some (r, ni) \<Longrightarrow> scan_name_escape src (i - 2) =
     (if high_surrogate r \<and> ni + 1 < length src \<and> src ! ni = 0x5C \<and> src ! (ni + 1) = 0x75 then
        (case scanUnicodeEscape src (ni + 2) of
           Some (lo, ni2) \<Rightarrow>
             if lo \<ge> 0xDC00 \<and> lo \<le> 0xDFFF then Some ((r - 0xD800) * 1024 + (lo - 0xDC00) + 0x10000, ni2) else Some (r, ni)
         | None \<Rightarrow> Some (r, ni))
      else Some (r, ni))"
  unfolding scan_name_escape_def high_surrogate_def by (simp only: le_add_diff_inverse2 option.case prod.case conj_assoc)

lemma four_escape_wp:
  assumes "has4Hex p"
  shows "wp v (readUnicodeEscapeValueMode u p) (\<lambda>r q. glides p q \<and> 0 \<le> r \<and> r \<le> 0x10FFFF \<and>
    p_pos p < p_pos q \<and> (u \<and> 2 \<le> p_pos p \<and> \<not> high_surrogate r \<longrightarrow> scan_name_escape (p_src p) (p_pos p - 2) = Some (r, p_pos q)))"
proof -
  let ?p1 = "skip (skip (skip (skip p)))" and ?hi = "hex4 (p_src p) (p_pos p)"
  let ?p3 = "skip (skip ?p1)" and ?lo = "hex4 (p_src p) (p_pos p + 6)"
  let ?pair = "high_surrogate ?hi \<and> peek ?p1 = 0x5C \<and> peekAt ?p1 1 = 0x75 \<and> peek ?p3 \<noteq> 0x7B \<and> has4Hex ?p3
      \<and> ?lo \<ge> 0xDC00 \<and> ?lo \<le> 0xDFFF"
  note h = read4Hex_eq [OF assms]
  have nb: "peek p \<noteq> 0x7B" using has4Hex_not_brace [OF assms] .
  have sc: "scanUnicodeEscape (p_src p) (p_pos p) = Some (?hi, p_pos p + 4)" using scan_four [OF assms nb] .
  show ?thesis
  proof (cases "u \<and> ?pair")
    case True
    then have pk: "p_pos p + 5 < length (p_src p)" "p_src p ! (p_pos p + 4) = 0x5C" "p_src p ! (p_pos p + 5) = 0x75"
      using peekD [of ?p1 "0x5C"] peekAtD [of ?p1 1 "0x75"] by (auto simp: eval_nat_numeral)
    have h3: "has4Hex ?p3" using True by blast
    note l = read4Hex_eq [OF h3]
    have "glides ?p1 ?p3" using pk by (intro glides_escape) (auto simp: eval_nat_numeral)
    then have g: "glides p (skip (skip (skip (skip ?p3))))" using h(2) l(2) glides_trans by blast
    have lo: "hex4 (p_src ?p3) (p_pos ?p3) = ?lo" by (simp add: eval_nat_numeral)
    have s6: "scanUnicodeEscape (p_src p) (p_pos p + 6) = Some (?lo, p_pos p + 10)"
      using scan_four [OF h3] True by (simp add: eval_nat_numeral)
    have "u \<and> 2 \<le> p_pos p \<longrightarrow> scan_name_escape (p_src p) (p_pos p - 2) =
        Some ((?hi - 0xD800) * 1024 + (?lo - 0xDC00) + 0x10000, p_pos p + 10)"
      using scan_name_escape_back [of "p_pos p" "p_src p" ?hi "p_pos p + 4"] sc s6 pk True by (simp only: add.assoc semiring_norm arith_simps simp_thms if_True option.case prod.case) blast
    moreover have "readUnicodeEscapeValueMode u p =
        Inr ((?hi - 0xD800) * 1024 + (?lo - 0xDC00) + 0x10000, skip (skip (skip (skip ?p3))))"
      using True nb assms h(1) l(1) lo pk
      by (simp add: readUnicodeEscapeValueMode_def advance_def high_surrogate_def eval_nat_numeral)
    moreover have "0 \<le> (?hi - 0xD800) * 1024 + (?lo - 0xDC00) + 0x10000" "(?hi - 0xD800) * 1024 + (?lo - 0xDC00) + 0x10000 \<le> 0x10FFFF"
      using True by (auto simp: high_surrogate_def)
    ultimately show ?thesis using g by (simp add: wp_simps eval_nat_numeral)
  next
    case False
    have "readUnicodeEscapeValueMode u p = Inr (?hi, ?p1)"
    proof (cases "u \<and> high_surrogate ?hi \<and> peek ?p1 = 0x5C \<and> peekAt ?p1 1 = 0x75")
      case True
      then have pk: "p_pos p + 5 < length (p_src p)"
        using peekAtD [of ?p1 1 "0x75"] by (auto simp: eval_nat_numeral)
      have "read4Hex ?p3 = Inr (?lo, skip (skip (skip (skip ?p3))))" if "has4Hex ?p3"
        using read4Hex_eq(1) [OF that] by (simp add: eval_nat_numeral)
      then show ?thesis using True False nb assms h(1) pk
        by (auto simp: readUnicodeEscapeValueMode_def advance_def high_surrogate_def eval_nat_numeral)
    qed (use nb assms h(1) in \<open>auto simp: readUnicodeEscapeValueMode_def high_surrogate_def\<close>)
    moreover have "2 \<le> p_pos p \<and> \<not> high_surrogate ?hi \<longrightarrow> scan_name_escape (p_src p) (p_pos p - 2) = Some (?hi, p_pos p + 4)"
      using scan_name_escape_back [of "p_pos p" "p_src p" ?hi "p_pos p + 4"] sc by presburger
    ultimately show ?thesis using h(2,3,4) by (simp add: wp_simps eval_nat_numeral)
  qed
qed

lemma unicode_escape_wp:
  assumes "p_pos p \<le> length (p_src p)"
  shows "wp v (readUnicodeEscapeValueMode u p) (\<lambda>r q. glides p q \<and> 0 \<le> r \<and> r \<le> 0x10FFFF \<and>
    (u \<longrightarrow> p_pos p < p_pos q \<and> (2 \<le> p_pos p \<and> \<not> high_surrogate r \<longrightarrow>
       scan_name_escape (p_src p) (p_pos p - 2) = Some (r, p_pos q))))"
proof -
  consider "u" "peek p = 0x7B" | "\<not> (u \<and> peek p = 0x7B)" "has4Hex p" | "\<not> (u \<and> peek p = 0x7B)" "\<not> has4Hex p" by blast
  then show ?thesis
  proof cases
    case 1
    then have u: "u = True" by simp
    have "2 \<le> p_pos p \<and> \<not> high_surrogate r \<longrightarrow> scan_name_escape (p_src p) (p_pos p - 2) = Some (r, j)"
      if "scanUnicodeEscape (p_src p) (p_pos p) = Some (r, j)" for r j
      using scan_name_escape_back [of "p_pos p" "p_src p" r j] that by simp
    then show ?thesis unfolding u by - (rule wp_mono [OF brace_escape_wp [OF 1(2)]], blast)
  next
    case 2
    show ?thesis by (rule wp_mono [OF four_escape_wp [OF 2(2)]]) blast
  next
    case 3
    then show ?thesis using glides_refl [OF assms] by (auto simp: readUnicodeEscapeValueMode_def wp_simps)
  qed
qed

lemma octal_loop_glides: "octal_loop n p v = (w, q) \<Longrightarrow> p_pos p \<le> length (p_src p) \<Longrightarrow> glides p q"
proof (induction n p v rule: octal_loop.induct)
  case (2 n p v)
  show ?case
  proof (cases "peek p \<ge> 0x30 \<and> peek p \<le> 0x37 \<and> v * 8 + (peek p - 0x30) \<le> 255")
    case True
    then have pk: "p_pos p < length (p_src p)" "peek p = p_src p ! p_pos p" using peek_ge [of p] by auto
    have "glides (skip p) q" using 2 True pk(1) by (simp add: Let_def)
    then show ?thesis using glides_skip_then [OF pk(1)] digit_plain True pk(2) by simp
  next
    case False
    then show ?thesis using 2 glides_refl by (auto simp: Let_def split: if_splits)
  qed
qed (auto simp: glides_refl)

lemma legacy_octal_glides:
  assumes "0x30 \<le> peek p" "peek p \<le> 0x39" "parseLegacyOctalOrIdentity p = (r, q)"
  shows "glides (skip p) q"
proof -
  have pk: "p_pos p < length (p_src p)" using peek_ge [of p] assms(1) by simp
  show ?thesis
  proof (cases "peek p \<le> 0x37")
    case True
    then have "octal_loop 2 (skip p) (peek p - 0x30) = (r, q)"
      using assms by (simp add: parseLegacyOctalOrIdentity_def numeral_3_eq_3 numeral_2_eq_2 Let_def)
    then show ?thesis using octal_loop_glides pk by fastforce
  next
    case False
    then have "peek p = 0x38 \<or> peek p = 0x39" using assms(2) by arith
    then have "q = skip p" using assms(3) by (auto simp: parseLegacyOctalOrIdentity_def)
    then show ?thesis using pk by (simp add: glides_refl)
  qed
qed

lemma wp_return_pair: "(\<And>r q. f = (r, q) \<Longrightarrow> Q r q) \<Longrightarrow> wp v (Inr f) Q"
  by (cases f) (simp add: wp_simps)

lemma character_escape_wp:
  assumes "p_pos p < length (p_src p) \<or> v"
  shows "wp v (parseCharacterEscape p) (\<lambda>r q. p_pos p < length (p_src p) \<and> glides (skip p) q)"
proof (cases "p_pos p < length (p_src p)")
  case True
  let ?p1 = "skip p"
  have le: "p_pos ?p1 \<le> length (p_src ?p1)" using True by simp
  note r = glides_refl [OF le]
  have pk: "peek p = p_src p ! p_pos p" using True by (simp add: peek_def peekAt_def)
  have oct: "wp v (Inr (parseLegacyOctalOrIdentity p)) (\<lambda>r q. glides ?p1 q)" if "p_src p ! p_pos p = 0x30"
    by (rule wp_return_pair) (use that pk legacy_octal_glides in auto)
  have hex: "wp v (res_bind (advance ?p1) (\<lambda>(a, p2). res_bind (advance p2) (\<lambda>(b, p3). Inr (hexVal a * 16 + hexVal b, p3))))
      (\<lambda>r q. glides ?p1 q)" if h: "isHexDigit (peek ?p1)" "isHexDigit (peekAt ?p1 1)"
  proof -
    have x: "p_pos p + 2 < length (p_src p)" "plain (p_src p ! (p_pos p + 1))" "plain (p_src p ! (p_pos p + 2))"
      using peekD [of ?p1, OF refl] peekAtD [of ?p1 1, OF refl] hex_plain h by (auto simp: numeral_2_eq_2)
    have "glides ?p1 (skip ?p1)" "glides (skip ?p1) (skip (skip ?p1))"
      using x by (auto intro!: glides_skip simp: numeral_2_eq_2)
    then show ?thesis using x glides_trans by (auto simp: wp_simps)
  qed
  have ctl: "wp v (res_bind (advance ?p1) (\<lambda>(a, p2). Inr (a mod 32, p2))) (\<lambda>r q. glides ?p1 q)"
    if h: "isASCIILetter (peek ?p1)"
  proof -
    have "p_pos p + 1 < length (p_src p)" "plain (p_src p ! (p_pos p + 1))"
      using peekD [of ?p1, OF refl] h by (auto simp: isASCIILetter_def plain_def)
    then show ?thesis by (auto simp: wp_simps intro: glides_skip)
  qed
  have uni: "wp v (readUnicodeEscapeValue ?p1) (\<lambda>r q. glides ?p1 q)"
    unfolding readUnicodeEscapeValue_def by (rule wp_mono [OF unicode_escape_wp [OF le]]) blast
  show ?thesis
    unfolding parseCharacterEscape_def wp_bind wp_advance
    using True r oct hex ctl uni by (simp add: wp_simps)
next
  case False
  then show ?thesis using assms by (simp add: parseCharacterEscape_def wp_simps)
qed

subsection \<open>Property escapes\<close>

text \<open>
  The text of a property escape is unrestricted, so a move over one is transparent to the scan
  only on the condition that the name and the value hold none of the characters the scan acts on.
\<close>

definition drifts :: "bool \<Rightarrow> parser \<Rightarrow> parser \<Rightarrow> bool" where
  "drifts c p q \<longleftrightarrow> moves_to p q \<and> (c \<longrightarrow> trans (p_src p) (p_pos p) (p_pos q))"

lemma glides_drifts: "glides p q \<Longrightarrow> drifts c p q"
  by (simp add: glides_def drifts_def)

lemma drifts_True: "drifts True p q \<longleftrightarrow> glides p q"
  by (simp add: glides_def drifts_def)

lemma drifts_refl: "p_pos p \<le> length (p_src p) \<Longrightarrow> drifts c p p"
  by (simp add: glides_drifts glides_refl)

lemma drifts_trans: "drifts c p q \<Longrightarrow> drifts d q r \<Longrightarrow> (e \<longrightarrow> c \<and> d) \<Longrightarrow> drifts e p r"
  unfolding drifts_def using moves_to_trans trans_trans moves_toD by metis

lemma drifts_skip: "p_pos p < length (p_src p) \<Longrightarrow> (c \<longrightarrow> plain (p_src p ! p_pos p)) \<Longrightarrow> drifts c p (skip p)"
  using glides_skip [of p] by (auto simp: drifts_def glides_def moves_to_skip)

fun item_plain :: "ClassItem \<Rightarrow> bool" where
  "item_plain (ClassProperty n v _) \<longleftrightarrow> list_all plain n \<and> list_all plain v"
| "item_plain _ \<longleftrightarrow> True"

lemma prop_name_loop_drifts:
  "prop_name_loop p name = (name', q) \<Longrightarrow> p_pos p \<le> length (p_src p) \<Longrightarrow>
   \<exists>k. name' = name @ k \<and> drifts (list_all plain k) p q"
proof (induction p name rule: prop_name_loop.induct)
  case (1 p name)
  show ?case
  proof (cases "\<not> eof p \<and> peek p \<noteq> 0x7D \<and> peek p \<noteq> 0x3D")
    case True
    note pk = eof_peek [OF conjunct1 [OF True]]
    have "prop_name_loop (skip p) (name @ [peek p]) = (name', q)"
      using "1.prems"(1) True by (subst (asm) prop_name_loop.simps) simp
    then obtain k where k: "name' = (name @ [peek p]) @ k" "drifts (list_all plain k) (skip p) q"
      using "1.IH" [OF True] pk by auto
    have "drifts (list_all plain (peek p # k)) p q"
      using drifts_trans [OF drifts_skip [of p "plain (peek p)"] k(2)] pk by auto
    then show ?thesis using k(1) by auto
  next
    case False
    then have "name' = name \<and> q = p" using "1.prems"(1) by (subst (asm) prop_name_loop.simps) auto
    then show ?thesis using drifts_refl [OF "1.prems"(2)] by auto
  qed
qed

lemma prop_value_loop_drifts:
  "prop_value_loop p value = (value', q) \<Longrightarrow> p_pos p \<le> length (p_src p) \<Longrightarrow>
   \<exists>k. value' = value @ k \<and> drifts (list_all plain k) p q"
proof (induction p "value" rule: prop_value_loop.induct)
  case (1 p "value")
  show ?case
  proof (cases "\<not> eof p \<and> peek p \<noteq> 0x7D")
    case True
    note pk = eof_peek [OF conjunct1 [OF True]]
    have "prop_value_loop (skip p) (value @ [peek p]) = (value', q)"
      using "1.prems"(1) True by (subst (asm) prop_value_loop.simps) simp
    then obtain k where k: "value' = (value @ [peek p]) @ k" "drifts (list_all plain k) (skip p) q"
      using "1.IH" [OF True] pk by auto
    have "drifts (list_all plain (peek p # k)) p q"
      using drifts_trans [OF drifts_skip [of p "plain (peek p)"] k(2)] pk by auto
    then show ?thesis using k(1) by auto
  next
    case False
    then have "value' = value \<and> q = p" using "1.prems"(1) by (subst (asm) prop_value_loop.simps) auto
    then show ?thesis using drifts_refl [OF "1.prems"(2)] by auto
  qed
qed

lemma plain_string_of_runes: "list_all plain (string_of_runes s) \<Longrightarrow> list_all plain s"
  by (auto simp: string_of_runes_def list_all_iff plain_def go_simps split: if_splits)

lemma property_escape_wp:
  assumes "p_pos p < length (p_src p)"
  shows "wp v (parsePropertyEscape ng p) (\<lambda>i q. (\<exists>n w. i = ClassProperty n w ng) \<and> drifts (item_plain i) (skip p) q)"
proof (cases "peek (skip p) = 0x7B")
  case True
  let ?p2 = "skip (skip p)"
  have b: "p_pos p + 1 < length (p_src p)" "p_src p ! (p_pos p + 1) = 0x7B" using peekD [OF True] by auto
  obtain name p3 where n: "prop_name_loop ?p2 [] = (name, p3)" by fastforce
  obtain "value" p4 where w: "(if peek p3 = 0x3D then prop_value_loop (skip p3) [] else ([], p3)) = (value, p4)" by fastforce
  have d3: "drifts (list_all plain name) ?p2 p3" using prop_name_loop_drifts [OF n] b by auto
  then have le3: "p_pos p3 \<le> length (p_src p3)" by (auto simp: drifts_def dest: moves_toD)
  have d4: "drifts (list_all plain value) p3 p4"
  proof (cases "peek p3 = 0x3D")
    case True
    then have e: "p_pos p3 < length (p_src p3)" "p_src p3 ! p_pos p3 = 0x3D" using peekD by auto
    have "drifts (list_all plain value) (skip p3) p4"
      using w True prop_value_loop_drifts [of "skip p3" "[]" "value" p4] e by auto
    then show ?thesis using drifts_trans [OF drifts_skip [OF e(1)]] e(2) by (auto simp: plain_def)
  next
    case False
    then show ?thesis using w le3 drifts_refl by auto
  qed
  have d2: "drifts True (skip p) ?p2" using b by (intro drifts_skip) (auto simp: plain_def)
  have ok: "drifts (list_all plain (string_of_runes name) \<and> list_all plain (string_of_runes value)) (skip p) (skip p4)"
    if "peek p4 = 0x7D"
  proof -
    have "drifts True p4 (skip p4)" using peekD [OF that] by (intro drifts_skip) (auto simp: plain_def)
    have "drifts (list_all plain name) (skip p) p3" using drifts_trans [OF d2 d3] by simp
    then have "drifts (list_all plain name \<and> list_all plain value) (skip p) p4" using drifts_trans [OF _ d4] by blast
    from drifts_trans [OF this \<open>drifts True p4 (skip p4)\<close>] plain_string_of_runes show ?thesis by simp
  qed
  show ?thesis
    using assms True b n w ok peekD [of p4 "0x7D"]
    by (auto simp: parsePropertyEscape_def wp_simps Let_def split: prod.splits)
qed (use assms in \<open>simp add: parsePropertyEscape_def wp_simps\<close>)

end
