(* ===== verification/Regexp_Parser_Sim.thy ===== *)
theory Regexp_Parser_Sim
  imports Regexp_Parser_Facts
begin

text \<open>
  The grammar functions of the parser. Every function moves to the right within the pattern, so
  the fuel of the model is never exhausted; a read past the end of the pattern happens only in
  the v-mode class grammar; captures are numbered in the order of their opening parentheses; and
  the pre-scan, run over the text a function has read, counts the captures it has produced.
\<close>

subsection \<open>Group names\<close>

definition names_plain :: "unicode_db \<Rightarrow> bool" where
  "names_plain db \<longleftrightarrow> (\<forall>r. isIDStart db r \<or> isIDContinue db r \<longrightarrow> plain r \<and> \<not> high_surrogate r)"

lemma wp_bind_intro: "wp v r R \<Longrightarrow> (\<And>x q. R x q \<Longrightarrow> wp v (f (x, q)) Q) \<Longrightarrow> wp v (res_bind r f) Q"
  unfolding wp_bind by (rule wp_mono)

definition name_read :: "unicode_db \<Rightarrow> parser \<Rightarrow> rune list \<Rightarrow> rune list \<Rightarrow> parser \<Rightarrow> bool" where
  "name_read db p name name' q \<longleftrightarrow> p_pos p < p_pos q \<and> drifts (names_plain db) p q \<and>
     (names_plain db \<and> name' \<noteq> [] \<longrightarrow> scan_name_loop (p_src p) (p_pos p) name = Some (string_of_runes name', p_pos q))"

text \<open>One rune of a name, raw or escaped: the scan reads the same rune.\<close>

definition name_rune :: "parser \<Rightarrow> rune pres" where
  "name_rune p =
     res_bind (advance p) (\<lambda>(c, p1).
       if c = 0x5C then
         if peek p1 \<noteq> 0x75 then fail p1 ''invalid group name escape''
         else res_bind (advance p1) (\<lambda>(_, p2). readUnicodeEscapeValueMode True p2)
       else Inr (c, p1))"

lemma name_rune_wp:
  assumes "p_pos p < length (p_src p)" "p_src p ! p_pos p \<noteq> 0x3E"
  shows "wp v (name_rune p) (\<lambda>r q. p_pos p < p_pos q \<and> drifts (plain r) p q \<and>
    (\<forall>name. \<not> high_surrogate r \<longrightarrow>
      scan_name_loop (p_src p) (p_pos p) name = scan_name_loop (p_src p) (p_pos q) (name @ [r])))"
proof (cases "p_src p ! p_pos p = 0x5C")
  case True
  show ?thesis
  proof (cases "peek (skip p) = 0x75")
    case u: True
    let ?p2 = "skip (skip p)"
    have b: "p_pos p + 1 < length (p_src p)" "p_src p ! (p_pos p + 1) = 0x75" using peekD [OF u] by auto
    have e: "glides p ?p2" using b True by (intro glides_escape) auto
    have "wp v (readUnicodeEscapeValueMode True ?p2) (\<lambda>r q. p_pos p < p_pos q \<and> drifts (plain r) p q \<and>
      (\<forall>name. \<not> high_surrogate r \<longrightarrow>
        scan_name_loop (p_src p) (p_pos p) name = scan_name_loop (p_src p) (p_pos q) (name @ [r])))"
    proof (rule wp_mono [OF unicode_escape_wp])
      fix r q assume h: "glides ?p2 q \<and> 0 \<le> r \<and> r \<le> 0x10FFFF \<and> (True \<longrightarrow> p_pos ?p2 < p_pos q \<and>
        (2 \<le> p_pos ?p2 \<and> \<not> high_surrogate r \<longrightarrow> scan_name_escape (p_src ?p2) (p_pos ?p2 - 2) = Some (r, p_pos q)))"
      then have "drifts (plain r) p q" using glides_trans [OF e] glides_drifts by blast
      moreover have "scan_name_loop (p_src p) (p_pos p) name = scan_name_loop (p_src p) (p_pos q) (name @ [r])"
        if "\<not> high_surrogate r" for name
        using h that b True assms(1) by (subst scan_name_loop.simps) simp
      ultimately show "p_pos p < p_pos q \<and> drifts (plain r) p q \<and>
        (\<forall>name. \<not> high_surrogate r \<longrightarrow>
          scan_name_loop (p_src p) (p_pos p) name = scan_name_loop (p_src p) (p_pos q) (name @ [r]))" using h by simp
    qed (use b in simp)
    then show ?thesis using assms True u b by (simp add: name_rune_def wp_simps)
  qed (use assms True in \<open>simp add: name_rune_def wp_simps\<close>)
next
  case False
  have "scan_name_loop (p_src p) (p_pos p) name = scan_name_loop (p_src p) (p_pos p + 1) (name @ [p_src p ! p_pos p])" for name
    using assms False by (subst scan_name_loop.simps) simp
  then show ?thesis using assms False drifts_skip by (simp add: name_rune_def wp_simps)
qed

lemma group_name_loop_unfold:
  "group_name_loop (Suc n) db p name =
     (if eof p then fail p ''unterminated group name''
      else if p_src p ! p_pos p = 0x3E then Inr (name, skip p)
      else res_bind (name_rune p) (\<lambda>(r, p2).
        if (if name = [] then isIDStart db r else isIDContinue db r)
        then group_name_loop n db p2 (name @ [r]) else fail p2 ''invalid group name''))"
  by (auto simp: name_rune_def advance_def eof_def)

lemma group_name_loop_wp:
  "p_pos p \<le> length (p_src p) \<Longrightarrow> length (p_src p) - p_pos p < n \<Longrightarrow>
   wp v (group_name_loop n db p name) (\<lambda>name' q. name_read db p name name' q)"
proof (induction n arbitrary: p name)
  case (Suc n)
  show ?case
  proof (cases "\<not> eof p \<and> p_src p ! p_pos p \<noteq> 0x3E")
    case True
    then have lt: "p_pos p < length (p_src p)" using eof_peek by blast
    have "wp v (name_rune p) (\<lambda>r p2. wp v (if (if name = [] then isIDStart db r else isIDContinue db r)
        then group_name_loop n db p2 (name @ [r]) else fail p2 ''invalid group name'') (\<lambda>name' q. name_read db p name name' q))"
    proof (rule wp_mono [OF name_rune_wp [OF lt conjunct2 [OF True]]])
      fix r p2 assume h: "p_pos p < p_pos p2 \<and> drifts (plain r) p p2 \<and> (\<forall>name. \<not> high_surrogate r \<longrightarrow>
        scan_name_loop (p_src p) (p_pos p) name = scan_name_loop (p_src p) (p_pos p2) (name @ [r]))"
      then have m: "p_src p2 = p_src p" "p_pos p2 \<le> length (p_src p)" by (auto simp: drifts_def dest: moves_toD)
      have "wp v (group_name_loop n db p2 (name @ [r])) (\<lambda>name' q. name_read db p name name' q)"
        if id: "isIDStart db r \<or> isIDContinue db r"
      proof (rule wp_mono [OF Suc.IH])
        fix name' q assume "name_read db p2 (name @ [r]) name' q"
        moreover have "drifts (names_plain db) p q" if "drifts (names_plain db) p2 q"
          using drifts_trans [OF conjunct1 [OF conjunct2 [OF h]] that, of "names_plain db"] id unfolding names_plain_def by blast
        moreover have "\<not> high_surrogate r" if "names_plain db" using id that unfolding names_plain_def by blast
        ultimately show "name_read db p name name' q" using h m(1) by (auto simp: name_read_def)
      qed (use m Suc.prems h in auto)
      then show "wp v (if (if name = [] then isIDStart db r else isIDContinue db r)
        then group_name_loop n db p2 (name @ [r]) else fail p2 ''invalid group name'') (\<lambda>name' q. name_read db p name name' q)"
        by (auto simp: wp_simps split: if_splits)
    qed
    then show ?thesis unfolding group_name_loop_unfold using True by (simp add: wp_simps)
  next
    case False
    show ?thesis
    proof (cases "eof p")
      case False
      then have c: "p_src p ! p_pos p = 0x3E" and lt: "p_pos p < length (p_src p)" using \<open>\<not> (_ \<and> _)\<close> eof_peek by blast+
      have "scan_name_loop (p_src p) (p_pos p) name = (if name = [] then None else Some (string_of_runes name, p_pos p + 1))"
        using c lt by (subst scan_name_loop.simps) simp
      then show ?thesis unfolding group_name_loop_unfold using c False drifts_skip [OF lt]
        by (simp add: wp_simps name_read_def plain_def)
    qed (simp add: wp_simps)
  qed
qed simp

lemma read_group_name_wp:
  assumes "p_pos p \<le> length (p_src p)"
  shows "wp v (readGroupName db p) (\<lambda>name q. p_pos p < p_pos q \<and> drifts (names_plain db) p q \<and>
    (names_plain db \<longrightarrow> scanGroupName (p_src p) (p_pos p) = Some (name, p_pos q)))"
  unfolding readGroupName_def
  by (rule wp_bind_intro [OF group_name_loop_wp]) (use assms in \<open>auto simp: wp_simps name_read_def scanGroupName_def\<close>)

subsection \<open>Classes\<close>

text \<open>The scan behaves differently inside a class (\<open>b\<close>) and outside.\<close>

definition scans :: "bool \<Rightarrow> rune list \<Rightarrow> nat \<Rightarrow> nat \<Rightarrow> bool" where
  "scans b src i j \<longleftrightarrow> (\<forall>cnt names. scan_loop src i b cnt names = scan_loop src j b cnt names)"

definition roams :: "bool \<Rightarrow> bool \<Rightarrow> parser \<Rightarrow> parser \<Rightarrow> bool" where
  "roams b c p q \<longleftrightarrow> moves_to p q \<and> (c \<longrightarrow> scans b (p_src p) (p_pos p) (p_pos q))"

lemma drifts_roams: "drifts c p q \<Longrightarrow> (d \<longrightarrow> c) \<Longrightarrow> roams b d p q"
  by (auto simp: drifts_def roams_def trans_def scans_def)

lemma roams_refl: "p_pos p \<le> length (p_src p) \<Longrightarrow> roams b c p p"
  by (simp add: roams_def moves_to_refl scans_def)

lemma roams_trans: "roams b c p q \<Longrightarrow> roams b d q r \<Longrightarrow> (e \<longrightarrow> c \<and> d) \<Longrightarrow> roams b e p r"
  using moves_to_trans [of p q r] moves_toD [of p q] by (auto simp: roams_def scans_def)

lemma roams_mono: "roams b c p q \<Longrightarrow> (d \<longrightarrow> c) \<Longrightarrow> roams b d p q"
  by (simp add: roams_def)

lemma roams_moves: "roams b c p q \<Longrightarrow> moves_to p q"
  by (simp add: roams_def)

lemma roams_src: "roams b c p q \<Longrightarrow> p_src q = p_src p \<and> p_pos p \<le> p_pos q \<and> p_pos q \<le> length (p_src p)"
  using roams_moves moves_toD by blast

lemma roams_class_rune:
  "p_pos p < length (p_src p) \<Longrightarrow> (c \<longrightarrow> p_src p ! p_pos p \<noteq> 0x5C \<and> p_src p ! p_pos p \<noteq> 0x5D) \<Longrightarrow> roams True c p (skip p)"
  by (auto simp: roams_def scans_def moves_to_skip Let_def scan_loop.simps [of "p_src p" "p_pos p"])

lemma roams_escape:
  assumes "p_src p ! p_pos p = 0x5C" "p_pos p + 1 < length (p_src p)" "drifts c (skip (skip p)) q"
  shows "roams b c p q"
proof -
  have "drifts c p q"
    using drifts_trans [OF glides_drifts [OF glides_escape [OF assms(2,1)], of True] assms(3)] by simp
  then show ?thesis by (rule drifts_roams) simp
qed

text \<open>The items of the classic class grammar; properties are read only in Unicode mode (\<open>u\<close>).\<close>

fun item_simple :: "bool \<Rightarrow> ClassItem \<Rightarrow> bool" where
  "item_simple u (ClassRange _ _) \<longleftrightarrow> True"
| "item_simple u (ClassEscape _) \<longleftrightarrow> True"
| "item_simple u (ClassProperty _ _ _) \<longleftrightarrow> u"
| "item_simple u _ \<longleftrightarrow> False"

lemma class_escape_wp:
  assumes "peek p = 0x5C"
  shows "wp v (parseClassEscape p) (\<lambda>a q. p_pos p < p_pos q \<and> item_simple (p_unicode p) (toItem a) \<and> roams b (item_plain (toItem a)) p q)"
proof -
  let ?Q = "\<lambda>a q. p_pos p < p_pos q \<and> item_simple (p_unicode p) (toItem a) \<and> roams b (item_plain (toItem a)) p q"
  note bs = peekD [OF assms, simplified]
  show ?thesis
  proof (cases "eof (skip p)")
    case True
    then show ?thesis using bs by (simp add: parseClassEscape_def wp_simps)
  next
    case False
    then have lt: "p_pos (skip p) < length (p_src p)" "p_pos p + 1 < length (p_src p)" using eof_peek by fastforce+
    have into: "?Q a q" if "drifts (item_plain (toItem a)) (skip (skip p)) q" "item_simple (p_unicode p) (toItem a)" for a q
      using roams_escape [OF conjunct2 [OF bs] lt(2) that(1)] that by (auto simp: drifts_def dest!: moves_toD)
    have esc: "wp v (parsePropertyEscape ng (skip p)) (\<lambda>i q. ?Q (SetAtom i) q)" if "p_unicode p" for ng
    proof (rule wp_mono [OF property_escape_wp])
      fix i q assume "(\<exists>n w. i = ClassProperty n w ng) \<and> drifts (item_plain i) (skip (skip p)) q"
      then show "?Q (SetAtom i) q" using into [of "SetAtom i" q] \<open>p_unicode p\<close> by auto
    qed (use lt in simp)
    have chr: "wp v (parseCharacterEscape (skip p)) (\<lambda>r q. ?Q (CharAtom r) q)"
    proof (rule wp_mono [OF character_escape_wp])
      fix r q assume "p_pos (skip p) < length (p_src (skip p)) \<and> glides (skip (skip p)) q"
      then show "?Q (CharAtom r) q" using into [of "CharAtom r" q] glides_drifts by auto
    qed (use lt in simp)
    have one: "?Q a (skip (skip p))" if "item_simple (p_unicode p) (toItem a)" for a
      using into [OF drifts_refl that] lt by simp
    show ?thesis using bs False lt(1) esc chr one [of "CharAtom 0"] by (simp add: parseClassEscape_def wp_simps Let_def p_unicode_def)
  qed
qed

lemma class_atom_wp:
  assumes "p_pos p < length (p_src p) \<or> v"
  shows "wp v (parseClassAtom p) (\<lambda>a q. p_pos p < p_pos q \<and> item_simple (p_unicode p) (toItem a) \<and>
    roams True (item_plain (toItem a) \<and> peek p \<noteq> 0x5D) p q)"
proof (cases "peek p = 0x5C")
  case True
  have "wp v (parseClassEscape p) (\<lambda>a q. p_pos p < p_pos q \<and> item_simple (p_unicode p) (toItem a) \<and>
    roams True (item_plain (toItem a) \<and> peek p \<noteq> 0x5D) p q)"
    by (rule wp_mono [OF class_escape_wp [OF True, of v True]]) (auto elim: roams_mono)
  then show ?thesis using True by (simp add: parseClassAtom_def)
next
  case False
  have "roams True (peek p \<noteq> 0x5D) p (skip p)" if "p_pos p < length (p_src p)"
    using roams_class_rune [OF that] False that by (simp add: peek_def peekAt_def)
  then show ?thesis using False assms by (auto simp: parseClassAtom_def checkClassSetChar_def wp_simps)
qed

text \<open>Reading items of a class: the items are appended, and the scan stays inside the class.\<close>

definition reads_items :: "parser \<Rightarrow> ClassItem list \<Rightarrow> ClassItem list \<Rightarrow> parser \<Rightarrow> bool" where
  "reads_items p items items' q \<longleftrightarrow>
     (\<exists>k. items' = items @ k \<and> list_all (item_simple (p_unicode p)) k \<and> roams True (list_all item_plain k) p q)"

lemma reads_items_refl: "p_pos p \<le> length (p_src p) \<Longrightarrow> reads_items p items items p"
  by (simp add: reads_items_def roams_refl)

lemma reads_items_step:
  "roams True (list_all item_plain k) p q \<Longrightarrow> list_all (item_simple (p_unicode p)) k \<Longrightarrow> reads_items q (items @ k) items' r \<Longrightarrow>
   reads_items p items items' r"
  unfolding reads_items_def using roams_trans [of True "list_all item_plain k" p q] roams_moves [of True _ p q] moves_toD [of p q]
  by (fastforce simp: list_all_iff p_unicode_def)

lemma class_loop_wp:
  "p_pos p \<le> length (p_src p) \<Longrightarrow> length (p_src p) - p_pos p < n \<Longrightarrow>
   wp v (class_loop n p items) (\<lambda>items' q. peek q = 0x5D \<and> reads_items p items items' q)"
proof (induction n arbitrary: p items)
  case (Suc n)
  let ?Q = "\<lambda>items' q. peek q = 0x5D \<and> reads_items p items items' q"
  have next_round: "wp v (class_loop n q (items @ k)) ?Q"
    if "roams True (list_all item_plain k) p q" "list_all (item_simple (p_unicode p)) k" "p_pos p < p_pos q" for k q
    by (rule wp_mono [OF Suc.IH]) (use roams_src [OF that(1)] that Suc.prems reads_items_step [OF that(1,2)] in auto)
  show ?case
  proof (cases "\<not> eof p \<and> peek p \<noteq> 0x5D")
    case True
    then have lt: "p_pos p < length (p_src p)" using eof_peek by blast
    have range: "wp v (parseClassAtom (skip p1)) (\<lambda>hi p3. case hi of
          SetAtom _ \<Rightarrow> wp v (if p_unicode p3 then fail p3 ''invalid character class range''
            else class_loop n p3 (items @ [ClassRange l l, ClassRange 0x2D 0x2D, toItem hi])) ?Q
        | CharAtom h \<Rightarrow> wp v (if l > h then fail p3 ''range out of order in character class''
            else class_loop n p3 (items @ [ClassRange l h])) ?Q)"
      if r: "roams True True p p1" "p_pos p < p_pos p1"
        and d: "peek p1 = 0x2D" "peekAt p1 1 \<noteq> 0x5D" "peekAt p1 1 \<noteq> -1" for p1 l
    proof -
      have m: "p_pos p1 < length (p_src p1)" "p_src p1 ! p_pos p1 = 0x2D" using peekD [OF d(1)] by auto
      have lt2: "p_pos (skip p1) < length (p_src (skip p1))" using peekAtD [OF refl d(3)] by simp
      have "roams True True p1 (skip p1)" using m by (intro roams_class_rune) auto
      then have r2: "roams True True p (skip p1)" using roams_trans [OF r(1)] by simp
      have pu: "p_unicode (skip p1) = p_unicode p" using moves_toD [OF roams_moves [OF r(1)]] by (simp add: p_unicode_def)
      have nb: "peek (skip p1) \<noteq> 0x5D" using d(2,3) lt2 by (auto simp: peek_def peekAt_def)
      show ?thesis
      proof (rule wp_mono [OF class_atom_wp [of "skip p1"]])
        fix hi p3 assume h: "p_pos (skip p1) < p_pos p3 \<and> item_simple (p_unicode (skip p1)) (toItem hi) \<and>
            roams True (item_plain (toItem hi) \<and> peek (skip p1) \<noteq> 0x5D) (skip p1) p3"
        have r3: "roams True (item_plain (toItem hi)) p p3"
          using roams_trans [OF r2 conjunct2 [OF conjunct2 [OF h]]] nb by simp
        then show "case hi of
            SetAtom _ \<Rightarrow> wp v (if p_unicode p3 then fail p3 ''invalid character class range''
              else class_loop n p3 (items @ [ClassRange l l, ClassRange 0x2D 0x2D, toItem hi])) ?Q
          | CharAtom h \<Rightarrow> wp v (if l > h then fail p3 ''range out of order in character class''
              else class_loop n p3 (items @ [ClassRange l h])) ?Q"
          using h pu r(2) next_round [of "[ClassRange l l, ClassRange 0x2D 0x2D, toItem hi]" p3]
            next_round [of "[ClassRange l _]" p3]
          by (auto simp: wp_simps split: classAtom.splits)
      qed (use lt2 in simp)
    qed
    show ?thesis unfolding class_loop.simps if_not_P [OF conjunct1 [OF True]] if_not_P [OF conjunct2 [OF True]]
    proof (rule wp_bind_intro [OF class_atom_wp], goal_cases)
      case (2 lo p1)
      then have single: "wp v (class_loop n p1 (items @ [toItem lo])) ?Q"
        using True by (intro next_round) auto
      show ?case
      proof (cases lo)
        case (CharAtom l)
        then have "roams True True p p1" "p_pos p < p_pos p1" using 2 True by auto
        then show ?thesis using single range [of p1 l] peekD [of p1 "0x2D"] CharAtom
          by (auto simp: wp_simps split: classAtom.splits elim!: wp_mono)
      qed (use single in \<open>auto simp: wp_simps\<close>)
    qed (use lt in simp)
  next
    case False
    then show ?thesis using reads_items_refl [OF Suc.prems(1)] by (auto simp: wp_simps)
  qed
qed simp

subsection \<open>The v-mode class grammar\<close>

text \<open>
  Here only progress is claimed: a read past the end is possible (\<open>wp True\<close>), and the scan does not
  follow nested classes. A parser of nested class sets with fuel \<open>n\<close> serves every position with
  fewer than \<open>n\<close> runes left; the body built on it serves one more.
\<close>

definition moves_on :: "parser \<Rightarrow> parser \<Rightarrow> bool" where
  "moves_on p q \<longleftrightarrow> moves_to p q \<and> p_pos p < p_pos q"

lemma moves_on_trans: "moves_to p q \<Longrightarrow> moves_on q r \<Longrightarrow> moves_on p r" "moves_on p q \<Longrightarrow> moves_to q r \<Longrightarrow> moves_on p r"
  by (auto simp: moves_on_def moves_to_def same_def)

lemma moves_on_skip: "p_pos p < length (p_src p) \<Longrightarrow> moves_on p (skip p)"
  by (simp add: moves_on_def moves_to_skip)

lemma moves_onD: "moves_on p q \<Longrightarrow> p_src q = p_src p \<and> p_pos p < p_pos q \<and> p_pos q \<le> length (p_src p) \<and> moves_to p q"
  by (auto simp: moves_on_def dest: moves_toD)

lemma moves_on_peek: "moves_on p q \<Longrightarrow> peek q = c \<Longrightarrow> c \<noteq> -1 \<Longrightarrow> moves_on p (skip q)"
  using moves_on_trans(2) moves_to_skip peekD by blast

lemma class_atom_moves: "wp True (parseClassAtom p) (\<lambda>a q. moves_on p q)"
  by (rule wp_mono [OF class_atom_wp]) (auto simp: moves_on_def roams_def)

lemma character_escape_moves: "wp True (parseCharacterEscape p) (\<lambda>r q. moves_on p q)"
  by (rule wp_mono [OF character_escape_wp])
    (auto simp: glides_def moves_on_def intro: moves_to_trans [OF moves_to_skip] dest: moves_toD)

lemma qstring_loop_moves:
  "p_pos p \<le> length (p_src p) \<Longrightarrow> length (p_src p) - p_pos p < n \<Longrightarrow> wp True (qstring_loop n p alts runes) (\<lambda>_ q. moves_to p q)"
proof (induction n arbitrary: p alts runes)
  case (Suc n)
  have round: "wp True (qstring_loop n q alts runes) (\<lambda>_ r. moves_to p r)" if "moves_on p q" for q alts runes
    by (rule wp_mono [OF Suc.IH]) (use moves_onD [OF that] Suc.prems moves_to_trans in \<open>auto intro: moves_to_trans\<close>)
  have esc: "wp True (parseCharacterEscape (skip p)) (\<lambda>r q. wp True (qstring_loop n q alts (runes @ [r])) (\<lambda>_ r. moves_to p r))"
    if "p_pos p < length (p_src p)"
    by (rule wp_mono [OF character_escape_moves]) (use that round moves_on_trans(1) [OF moves_to_skip] in blast)
  show ?case using Suc.prems round [OF moves_on_skip] esc moves_to_refl by (auto simp: wp_simps eof_def)
qed simp

lemma string_disjunction_moves: "wp True (parseClassStringDisjunction p) (\<lambda>_ q. moves_on p q)"
proof (cases "p_pos p < length (p_src p) \<and> peek (skip (skip p)) = 0x7B")
  case True
  let ?p3 = "skip (skip (skip p))"
  have b: "p_pos p + 2 < length (p_src p)" using peekD [of "skip (skip p)" "0x7B"] True by simp
  then have m3: "moves_on p ?p3" by (simp add: moves_on_def moves_to_def same_def)
  have "wp True (qstring_loop (length (p_src ?p3) + 1) ?p3 [] []) (\<lambda>x q. peek q = 0x7D \<longrightarrow> p_pos q < length (p_src q) \<and> moves_on p (skip q))"
  proof (rule wp_mono [OF qstring_loop_moves])
    fix x q assume m: "moves_to ?p3 q"
    then show "peek q = 0x7D \<longrightarrow> p_pos q < length (p_src q) \<and> moves_on p (skip q)"
      using moves_on_trans(2) [OF moves_on_trans(2) [OF m3 m] moves_to_skip] peekD [of q "0x7D"] by simp
  qed (use b in auto)
  then show ?thesis using True b by (auto simp: parseClassStringDisjunction_def wp_simps elim!: wp_mono)
qed (auto simp: parseClassStringDisjunction_def wp_simps)

locale class_subparser =
  fixes rec :: "parser \<Rightarrow> ClassSet pres" and fuel :: nat
  assumes rec_moves: "p_pos p \<le> length (p_src p) \<Longrightarrow> length (p_src p) - p_pos p < fuel \<Longrightarrow> wp True (rec p) (\<lambda>_ q. moves_on p q)"
begin

lemma nested_moves:
  assumes "peek p = 0x5B" "length (p_src p) - p_pos p \<le> fuel"
  shows "wp True (parseNestedClassV rec p) (\<lambda>_ q. moves_on p q)"
proof -
  have b: "p_pos p < length (p_src p)" using peekD [OF assms(1)] by simp
  define q where "q = (if peek (skip p) = 0x5E then skip (skip p) else skip p)"
  have q: "moves_on p q" using b peekD [of "skip p" "0x5E"] by (auto simp: q_def moves_on_def moves_to_def same_def)
  have "wp True (rec q) (\<lambda>_ r. peek r = 0x5D \<longrightarrow> moves_on p (skip r))"
  proof (rule wp_mono [OF rec_moves])
    fix r assume "moves_on q r"
    then show "peek r = 0x5D \<longrightarrow> moves_on p (skip r)"
      using moves_on_trans(1) [of p q r] moves_onD [OF q] moves_on_peek by auto
  qed (use moves_onD [OF q] assms(2) in auto)
  then show ?thesis using b unfolding q_def by (auto simp: parseNestedClassV_def wp_simps Let_def elim!: wp_mono split: if_splits)
qed

lemma member_moves:
  assumes "length (p_src p) - p_pos p \<le> fuel"
  shows "wp True (parseClassSetMember rec p) (\<lambda>_ q. moves_on p q)"
proof -
  have hi: "wp True (parseClassAtom (skip p1)) (\<lambda>_ q. moves_on p q)" if "moves_on p p1" "peek p1 = 0x2D" for p1
    by (rule wp_mono [OF class_atom_moves], rule moves_on_trans(1) [of p "skip p1"])
      (use moves_onD [OF moves_on_peek [OF that]] in auto)
  have "wp True (parseClassAtom p) (\<lambda>lo p1. wp True (case lo of
            CharAtom l \<Rightarrow>
              if peek p1 = 0x2D \<and> peekAt p1 1 \<noteq> 0x2D \<and> peekAt p1 1 \<noteq> 0x5D \<and> peekAt p1 1 \<noteq> -1 then
                res_bind (advance p1) (\<lambda>(_, p2).
                res_bind (parseClassAtom p2) (\<lambda>(hi, p3).
                  case hi of
                    SetAtom _ \<Rightarrow> fail p3 ''invalid character class range''
                  | CharAtom h \<Rightarrow>
                      if l > h then fail p3 ''range out of order in character class''
                      else Inr (ClassRange l h, p3)))
              else Inr (toItem lo, p1)
          | SetAtom _ \<Rightarrow> Inr (toItem lo, p1)) (\<lambda>_ q. moves_on p q))"
  proof (rule wp_mono [OF class_atom_moves])
    fix lo p1 assume "moves_on p p1"
    with hi [OF this] show "wp True (case lo of
            CharAtom l \<Rightarrow>
              if peek p1 = 0x2D \<and> peekAt p1 1 \<noteq> 0x2D \<and> peekAt p1 1 \<noteq> 0x5D \<and> peekAt p1 1 \<noteq> -1 then
                res_bind (advance p1) (\<lambda>(_, p2).
                res_bind (parseClassAtom p2) (\<lambda>(hi, p3).
                  case hi of
                    SetAtom _ \<Rightarrow> fail p3 ''invalid character class range''
                  | CharAtom h \<Rightarrow>
                      if l > h then fail p3 ''range out of order in character class''
                      else Inr (ClassRange l h, p3)))
              else Inr (toItem lo, p1)
          | SetAtom _ \<Rightarrow> Inr (toItem lo, p1)) (\<lambda>_ q. moves_on p q)"
      by (auto simp: wp_simps split: classAtom.split elim!: wp_mono)
  qed
  then show ?thesis using nested_moves [OF _ assms] string_disjunction_moves
    by (simp add: parseClassSetMember_def wp_simps)
qed

lemma operand_moves:
  assumes "length (p_src p) - p_pos p \<le> fuel"
  shows "wp True (parseClassSetOperand rec p) (\<lambda>_ q. moves_on p q)"
  using nested_moves [OF _ assms] string_disjunction_moves class_atom_moves
  by (simp add: parseClassSetOperand_def wp_simps)

lemma op_loop_moves:
  "p_pos p \<le> length (p_src p) \<Longrightarrow> length (p_src p) - p_pos p \<le> fuel \<Longrightarrow> length (p_src p) - p_pos p < n \<Longrightarrow> c \<noteq> -1 \<Longrightarrow>
   wp True (class_op_loop n rec c p items) (\<lambda>_ q. moves_to p q)"
proof (induction n arbitrary: p items)
  case (Suc n)
  show ?case
  proof (cases "at_op p c")
    case True
    then have b: "p_pos p + 1 < length (p_src p)" using peekAtD [of p 1 c] Suc.prems(4) by (simp add: at_op_def)
    then have m: "moves_on p (skip (skip p))" by (simp add: moves_on_def moves_to_def same_def)
    have "wp True (parseClassSetOperand rec (skip (skip p))) (\<lambda>i q. wp True (class_op_loop n rec c q (items @ [i])) (\<lambda>_ q. moves_to p q))"
    proof (rule wp_mono [OF operand_moves])
      fix i q assume "moves_on (skip (skip p)) q"
      then have q: "moves_on p q" using moves_on_trans(1) moves_onD [OF m] by blast
      show "wp True (class_op_loop n rec c q (items @ [i])) (\<lambda>_ q. moves_to p q)"
        by (rule wp_mono [OF Suc.IH]) (use moves_onD [OF q] Suc.prems in \<open>auto intro: moves_to_trans\<close>)
    qed (use Suc.prems in auto)
    then show ?thesis using True b by (simp add: wp_simps)
  qed (use Suc.prems moves_to_refl in \<open>simp add: wp_simps\<close>)
qed simp

lemma union_loop_moves:
  "p_pos p \<le> length (p_src p) \<Longrightarrow> length (p_src p) - p_pos p \<le> fuel \<Longrightarrow> length (p_src p) - p_pos p < n \<Longrightarrow>
   wp True (class_union_loop n rec p items) (\<lambda>_ q. moves_to p q)"
proof (induction n arbitrary: p items)
  case (Suc n)
  have "wp True (parseClassSetMember rec p) (\<lambda>i q. wp True (class_union_loop n rec q (items @ [i])) (\<lambda>_ q. moves_to p q))"
  proof (rule wp_mono [OF member_moves])
    fix i q assume q: "moves_on p q"
    show "wp True (class_union_loop n rec q (items @ [i])) (\<lambda>_ q. moves_to p q)"
      by (rule wp_mono [OF Suc.IH]) (use moves_onD [OF q] Suc.prems in \<open>auto intro: moves_to_trans\<close>)
  qed (use Suc.prems in auto)
  then show ?case using Suc.prems moves_to_refl by (simp add: wp_simps)
qed simp

lemma body_moves:
  assumes "p_pos p \<le> length (p_src p)" "length (p_src p) - p_pos p \<le> fuel"
  shows "wp True (class_set_body rec p) (\<lambda>_ q. moves_on p q)"
  unfolding class_set_body_def
proof (rule wp_bind_intro [OF member_moves [OF assms(2)]], goal_cases)
  case (1 first p1)
  note m = moves_onD [OF 1]
  have op: "wp True (class_op_loop (length (p_src p) + 1) rec c p1 [first]) (\<lambda>_ q. moves_on p q)" if "c \<noteq> -1" for c
    by (rule wp_mono [OF op_loop_moves]) (use m assms that moves_on_trans(2) [OF 1] in auto)
  have un: "wp True (class_union_loop (length (p_src p) + 1) rec p1 [first]) (\<lambda>_ q. moves_on p q)"
    by (rule wp_mono [OF union_loop_moves]) (use m assms moves_on_trans(2) [OF 1] in auto)
  show ?case using op [of "0x26"] op [of "0x2D"] un
    by (auto simp: wp_simps Let_def requireClassClose_def elim!: wp_mono)
qed

end

lemma class_subparser_parseClassSetV: "class_subparser (parseClassSetV n) n"
proof (induction n)
  case (Suc n)
  then show ?case
    by (intro class_subparser.intro) (auto intro: class_subparser.body_moves)
qed (simp add: class_subparser_def)

interpretation csv: class_subparser "parseClassSetV n" n for n
  by (rule class_subparser_parseClassSetV)

end
