(* ===== verification/Regexp_Parser_Grammar.thy ===== *)
theory Regexp_Parser_Grammar
  imports Regexp_Parser_Sim
begin

text \<open>
  The grammar of terms, alternatives and disjunctions. The contract of a node parser: the node's
  captures are numbered consecutively from the parser's counter, references are within the
  groups of the pre-scan, and the pre-scan over the text read counts exactly these captures.
\<close>

subsection \<open>What a node promises\<close>

fun node_caps :: "Node \<Rightarrow> nat list" where
  "node_caps (Disjunction ts) = concat (map node_caps ts)"
| "node_caps (Concat ts) = concat (map node_caps ts)"
| "node_caps (Lookaround bh ng b) = node_caps b"
| "node_caps (Capture i nm b) = i # node_caps b"
| "node_caps (Group md b) = node_caps b"
| "node_caps (Quantifier mn mx g b) = node_caps b"
| "node_caps n = []"

fun node_plain :: "Node \<Rightarrow> bool" where
  "node_plain (Disjunction ts) \<longleftrightarrow> list_all node_plain ts"
| "node_plain (Concat ts) \<longleftrightarrow> list_all node_plain ts"
| "node_plain (Lookaround bh ng b) \<longleftrightarrow> node_plain b"
| "node_plain (Capture i nm b) \<longleftrightarrow> node_plain b"
| "node_plain (Group md b) \<longleftrightarrow> node_plain b"
| "node_plain (Quantifier mn mx g b) \<longleftrightarrow> node_plain b"
| "node_plain (CharClass ng s) \<longleftrightarrow> list_all item_plain (Items s)"
| "node_plain n \<longleftrightarrow> True"

text \<open>Without the v flag the items of a class are simple.\<close>

fun node_good :: "Flags \<Rightarrow> nat \<Rightarrow> group_names \<Rightarrow> Node \<Rightarrow> bool" where
  "node_good fl g names (Disjunction ts) \<longleftrightarrow> ts \<noteq> [] \<and> list_all (node_good fl g names) ts"
| "node_good fl g names (Concat ts) \<longleftrightarrow> list_all (node_good fl g names) ts"
| "node_good fl g names (Lookaround bh ng b) \<longleftrightarrow> node_good fl g names b"
| "node_good fl g names (Capture i nm b) \<longleftrightarrow> 1 \<le> i \<and> node_good fl g names b"
| "node_good fl g names (Group md b) \<longleftrightarrow> node_good fl g names b"
| "node_good fl g names (BackRef i) \<longleftrightarrow> 1 \<le> i \<and> i \<le> g"
| "node_good fl g names (NamedBackRef nm) \<longleftrightarrow> map_of names nm \<noteq> None"
| "node_good fl g names (Quantifier mn mx b body) \<longleftrightarrow> (mx = -1 \<or> int mn \<le> mx) \<and> node_good fl g names body"
| "node_good fl g names (CharClass ng s) \<longleftrightarrow> (\<not> UnicodeSets fl \<longrightarrow> Op s = SetUnion \<and> list_all (item_simple (UnicodeMode fl)) (Items s))"
| "node_good fl g names n \<longleftrightarrow> True"

abbreviation vmode :: "parser \<Rightarrow> bool" where
  "vmode p \<equiv> UnicodeSets (p_flags p)"

abbreviation good :: "parser \<Rightarrow> Node \<Rightarrow> bool" where
  "good p n \<equiv> node_good (p_flags p) (p_numGroups p) (p_names p) n"

definition counts :: "rune list \<Rightarrow> nat \<Rightarrow> nat \<Rightarrow> nat \<Rightarrow> bool" where
  "counts src i j k \<longleftrightarrow> (\<forall>cnt names. \<exists>names'. scan_loop src i False cnt names = scan_loop src j False (cnt + k) names')"

text \<open>The contract: \<open>parsed db p ns q\<close> says that reading \<open>ns\<close> took the parser from \<open>p\<close> to \<open>q\<close>.\<close>

definition parsed :: "unicode_db \<Rightarrow> parser \<Rightarrow> Node list \<Rightarrow> parser \<Rightarrow> bool" where
  "parsed db p ns q \<longleftrightarrow> same p q \<and> p_pos p \<le> p_pos q \<and> p_pos q \<le> length (p_src p) \<and> p_capIndex p \<le> p_capIndex q \<and>
     concat (map node_caps ns) = [p_capIndex p + 1 ..< p_capIndex q + 1] \<and> list_all (good p) ns \<and>
     (names_plain db \<and> \<not> vmode p \<and> list_all node_plain ns \<longrightarrow>
        counts (p_src p) (p_pos p) (p_pos q) (p_capIndex q - p_capIndex p))"

lemma counts_refl: "counts src i i 0"
  by (auto simp: counts_def)

lemma counts_trans: "counts src i j k \<Longrightarrow> counts src j l m \<Longrightarrow> counts src i l (k + m)"
  unfolding counts_def by (metis add.assoc)

lemma scans_counts: "scans False src i j \<Longrightarrow> counts src i j 0"
  by (auto simp: scans_def counts_def)

lemma same_refl: "same p p"
  by (simp add: same_def)

lemma parsed_nil: "p_pos p \<le> length (p_src p) \<Longrightarrow> parsed db p [] p"
  by (simp add: parsed_def same_refl counts_refl)

lemma parsed_append: "parsed db p ns q \<Longrightarrow> parsed db q ms r \<Longrightarrow> parsed db p (ns @ ms) r"
proof -
  assume a: "parsed db p ns q" and b: "parsed db q ms r"
  let ?i = "p_capIndex p" and ?j = "p_capIndex q" and ?k = "p_capIndex r"
  have s: "p_src q = p_src p" "p_flags q = p_flags p" "p_numGroups q = p_numGroups p" "p_names q = p_names p"
    using a by (auto simp: parsed_def same_def)
  have "concat (map node_caps (ns @ ms)) = [?i + 1 ..< ?k + 1]"
    using a b upt_add_eq_append [of "?i + 1" "?j + 1" "?k - ?j"] by (auto simp: parsed_def)
  moreover have "counts (p_src p) (p_pos p) (p_pos r) (?k - ?i)"
    if "names_plain db \<and> \<not> vmode p \<and> list_all node_plain (ns @ ms)"
  proof -
    have "counts (p_src p) (p_pos p) (p_pos r) ((?j - ?i) + (?k - ?j))"
      using a b s that by (intro counts_trans [of _ _ "p_pos q"]) (auto simp: parsed_def)
    then show ?thesis using a b by (simp add: parsed_def)
  qed
  ultimately show ?thesis using a b s by (auto simp: parsed_def same_def)
qed

lemma parsed_step:
  assumes "roams False (names_plain db \<and> \<not> vmode p \<and> node_plain n) p q" "node_caps n = []" "good p n"
  shows "parsed db p [n] q"
  using assms scans_counts [of "p_src p" "p_pos p" "p_pos q"] moves_toD [of p q]
  by (auto simp: parsed_def roams_def same_def)

lemma parsed_move: "roams False c p q \<Longrightarrow> (names_plain db \<and> \<not> vmode p \<longrightarrow> c) \<Longrightarrow> parsed db p [] q"
  using scans_counts [of "p_src p" "p_pos p" "p_pos q"] moves_toD [of p q]
  by (auto simp: parsed_def roams_def same_def)

lemma parsed_glide: "glides p q \<Longrightarrow> parsed db p [] q"
  by (rule parsed_move [OF drifts_roams [OF glides_drifts, where c = True and d = True]]) simp_all

lemma parsedD: "parsed db p ns q \<Longrightarrow> same p q \<and> p_pos p \<le> p_pos q \<and> p_pos q \<le> length (p_src p) \<and> p_src q = p_src p
    \<and> p_flags q = p_flags p \<and> p_numGroups q = p_numGroups p \<and> p_names q = p_names p"
  by (auto simp: parsed_def same_def)

lemma parsed_glide_then: "glides p q \<Longrightarrow> parsed db q ns r \<Longrightarrow> parsed db p ns r"
  using parsed_append [OF parsed_glide] by fastforce

lemma parsed_then_glide: "parsed db p ns q \<Longrightarrow> glides q r \<Longrightarrow> parsed db p ns r"
  using parsed_append [OF _ parsed_glide] by fastforce

text \<open>A node whose captures, references and plainness are those of its parts.\<close>

lemma parsed_wrap:
  assumes "parsed db p ns q" "node_caps n = concat (map node_caps ns)" "node_plain n \<longleftrightarrow> list_all node_plain ns"
    and "good p n \<longleftrightarrow> list_all (good p) ns"
  shows "parsed db p [n] q"
  using assms by (auto simp: parsed_def)

subsection \<open>Quantifiers and modifiers\<close>

definition quant_ok :: "quant option \<Rightarrow> bool" where
  "quant_ok q \<longleftrightarrow> (case q of None \<Rightarrow> True | Some q \<Rightarrow> 0 \<le> q_min q \<and> (q_max q = -1 \<or> q_min q \<le> q_max q))"

lemma glides_peek: "peek p = c \<Longrightarrow> plain c \<Longrightarrow> c \<noteq> -1 \<Longrightarrow> glides p (skip p)"
  using peekD by (auto intro: glides_skip)

lemma lazy_mark_wp:
  "p_pos p \<le> length (p_src p) \<Longrightarrow> 0 \<le> mn \<Longrightarrow> mx = -1 \<or> mn \<le> mx \<Longrightarrow>
   wp v (lazy_mark mn mx p) (\<lambda>q r. quant_ok q \<and> glides p r)"
  using glides_refl [of p] glides_peek [of p "0x3F"] peekD [of p "0x3F"]
  by (auto simp: lazy_mark_def wp_simps quant_ok_def plain_def)

lemma brace_quantifier_wp:
  assumes "peek p = 0x7B"
  shows "wp v (parseBraceQuantifier p) (\<lambda>q r. quant_ok q \<and> glides p r \<and> (q = None \<longrightarrow> r = p))"
proof -
  let ?Q = "\<lambda>q r. quant_ok q \<and> glides p r \<and> (q = None \<longrightarrow> r = p)"
  note b = peekD [OF assms, simplified]
  have g1: "glides p (skip p)" using glides_peek [OF assms] by (simp add: plain_def)
  obtain mn ok p2 where d: "readDecimalInt (skip p) = ((mn, ok), p2)" by (metis prod.exhaust)
  note r2 = readDecimalInt_glides [OF d]
  have g2: "glides p p2" and mn: "0 \<le> mn" using r2(1,2) g1 glides_trans b by auto
  have none: "?Q None p" using glides_refl [of p] b by (simp add: quant_ok_def)
  have lazy: "wp v (lazy_mark mn mx q) ?Q" if "glides p q" "mx = -1 \<or> mn \<le> mx" for mx q
  proof -
    have "wp v (lazy_mark mn mx q) (\<lambda>q' r. quant_ok q' \<and> glides q r \<and> q' \<noteq> None)"
      using lazy_mark_wp [of q mn mx v] glides_src [OF that(1)] mn that(2)
      by (auto simp: wp_def lazy_mark_def res_bind_def split: sum.splits if_splits)
    then show ?thesis by (rule wp_mono) (use glides_trans [OF that(1)] in auto)
  qed
  have close: "p_pos p3 < length (p_src p3)" "mx = -1 \<or> mn \<le> mx \<Longrightarrow> wp v (lazy_mark mn mx (skip p3)) ?Q"
    if "glides p p3" "peek p3 = 0x7D" for mx p3
    using lazy [OF glides_trans [OF that(1) glides_peek [OF that(2)]], of mx] peekD [OF that(2)] by (simp_all add: plain_def)
  obtain mx okm p4 where e: "readDecimalInt (skip p2) = ((mx, okm), p4)" by (metis prod.exhaust)
  have comma: "p_pos p2 < length (p_src p2)" "glides p (skip p2)" "glides p p4" if "peek p2 = 0x2C"
  proof -
    show g3: "glides p (skip p2)" using glides_trans [OF g2 glides_peek [OF that]] by (simp add: plain_def)
    show "glides p p4" using readDecimalInt_glides(1) [OF e] glides_trans [OF g3] glides_src [OF g3] by simp
    show "p_pos p2 < length (p_src p2)" using peekD [OF that] by simp
  qed
  show ?thesis
    using b d e none close [OF g2] close [OF comma(2)] close [OF comma(3)] comma(1)
    by (simp add: parseBraceQuantifier_def wp_simps Let_def)
qed

lemma quantifier_wp:
  assumes "p_pos p \<le> length (p_src p)"
  shows "wp v (parseQuantifier p) (\<lambda>q r. quant_ok q \<and> glides p r)"
proof -
  have s: "wp v (res_bind (advance p) (\<lambda>(_, p1). lazy_mark mn mx p1)) (\<lambda>q r. quant_ok q \<and> glides p r)"
    if "peek p = c" "plain c" "c \<noteq> -1" "0 \<le> mn" "mx = -1 \<or> mn \<le> mx" for c mn mx
  proof -
    have "wp v (lazy_mark mn mx (skip p)) (\<lambda>q r. quant_ok q \<and> glides p r)"
      by (rule wp_mono [OF lazy_mark_wp]) (use that peekD [OF that(1,3)] glides_trans [OF glides_peek [OF that(1-3)]] in auto)
    then show ?thesis using peekD [OF that(1,3)] by (simp add: wp_simps)
  qed
  have br: "wp v (parseBraceQuantifier p) (\<lambda>q r. quant_ok q \<and> glides p r)" if "peek p = 0x7B"
    by (rule wp_mono [OF brace_quantifier_wp [OF that]]) blast
  show ?thesis
    using s [of "0x2A" 0 "-1"] s [of "0x2B" 1 "-1"] s [of "0x3F" 0 1] br glides_refl [OF assms]
    by (auto simp: parseQuantifier_def Let_def plain_def wp_simps quant_ok_def)
qed

lemma modifier_loop_wp:
  "p_pos p \<le> length (p_src p) \<Longrightarrow> wp v (modifier_loop add p seen m) (\<lambda>_ q. glides p q)"
proof (induction add p seen m rule: modifier_loop.induct)
  case (1 add p seen m)
  let ?c = "peek p = 0x69 \<or> peek p = 0x6D \<or> peek p = 0x73"
  have g: "glides p (skip p)" if ?c using that glides_peek [of p] by (auto simp: plain_def)
  have "wp v (modifier_loop add (skip p) (peek p # seen) (set_modifier add (peek p) m)) (\<lambda>_ q. glides p q)"
    if c: ?c "peek p \<notin> set seen"
    by (rule wp_mono [OF "1.IH"]) (use c g glides_trans glides_src [OF g] in auto)
  then show ?case using "1.prems" glides_refl by (subst modifier_loop.simps) (auto simp: wp_simps)
qed

lemma modifiers_wp:
  assumes "p_pos p \<le> length (p_src p)"
  shows "wp v (parseModifiers p) (\<lambda>_ q. glides p q)"
  unfolding parseModifiers_def
proof (rule wp_bind_intro [OF modifier_loop_wp [OF assms]], goal_cases)
  case (1 x p1)
  have minus: "wp v (modifier_loop False (skip p1) seen m) (\<lambda>_ q. glides p q)" if "peek p1 = 0x2D" for seen m
  proof -
    have g: "glides p (skip p1)" using glides_trans [OF 1 glides_peek [OF that]] by (simp add: plain_def)
    show ?thesis by (rule wp_mono [OF modifier_loop_wp]) (use glides_src [OF g] glides_trans [OF g] in auto)
  qed
  show ?case using 1 peekD [of p1 "0x2D"]
    by (auto simp: wp_simps Let_def split: prod.splits intro!: wp_mono [OF minus])
qed

subsection \<open>Classes and escapes\<close>

lemma scan_open: "i < length src \<Longrightarrow> src ! i = 0x5B \<Longrightarrow> scan_loop src i False cnt names = scan_loop src (i + 1) True cnt names"
  by (subst scan_loop.simps) (simp add: Let_def)

lemma scan_close: "i < length src \<Longrightarrow> src ! i = 0x5D \<Longrightarrow> scan_loop src i True cnt names = scan_loop src (i + 1) False cnt names"
  by (subst scan_loop.simps) (simp add: Let_def)

lemma class_roams:
  assumes "peek p = 0x5B" "roams True c (skip p) q" "peek q = 0x5D"
  shows "roams False c p (skip q)"
proof -
  have "moves_to p (skip q)"
    using moves_to_trans [OF moves_to_skip moves_to_trans [OF roams_moves [OF assms(2)] moves_to_skip]]
      peekD [OF assms(1)] peekD [OF assms(3)] by simp
  then show ?thesis
    using assms peekD [OF assms(1)] peekD [OF assms(3)] roams_src [OF assms(2)] scan_open scan_close
    by (simp add: roams_def scans_def)
qed

definition takes :: "unicode_db \<Rightarrow> parser \<Rightarrow> Node \<Rightarrow> parser \<Rightarrow> bool" where
  "takes db p n q \<longleftrightarrow> p_pos p < p_pos q \<and> parsed db p [n] q"

lemma takes_class: "roams False (list_all item_plain (Items s)) p q \<Longrightarrow> p_pos p < p_pos q \<Longrightarrow>
    Op s = SetUnion \<Longrightarrow> list_all (item_simple (p_unicode p)) (Items s) \<Longrightarrow> takes db p (CharClass ng s) q"
  by (auto simp: takes_def p_unicode_def intro!: parsed_step elim: roams_mono)

lemma takes_vmode: "vmode p \<Longrightarrow> moves_on p q \<Longrightarrow> takes db p (CharClass ng s) q"
  by (auto simp: takes_def moves_on_def roams_def intro!: parsed_step)

lemma char_class_wp:
  assumes "peek p = 0x5B"
  shows "wp (vmode p) (parseCharClass p) (\<lambda>n q. takes db p n q)"
proof -
  note b = peekD [OF assms, simplified]
  define ng p2 where "ng = (peek (skip p) = 0x5E)" and "p2 = (if ng then skip (skip p) else skip p)"
  have g2: "glides (skip p) p2"
    using glides_peek [of "skip p" "0x5E"] glides_refl [of "skip p"] b by (simp add: p2_def ng_def plain_def)
  note m2 = glides_src [OF g2]
  have fl: "p_flags p2 = p_flags p" by (simp add: p2_def)
  have eq: "parseCharClass p =
      (if vmode p then res_bind (parseClassSetV (length (p_src p) + 1) p2) (\<lambda>(set, p3).
         res_bind (expect p3 0x5D) (\<lambda>(_, p4). Inr (CharClass ng set, p4)))
       else res_bind (class_loop (length (p_src p) + 1) p2 []) (\<lambda>(items, p3).
         res_bind (advance p3) (\<lambda>(_, p4). Inr (CharClass ng (ClassSet SetUnion items), p4))))"
    using b fl by (simp add: parseCharClass_def advance_def ng_def p2_def Let_def del: class_loop.simps parseClassSetV.simps)
  show ?thesis
  proof (cases "vmode p")
    case True
    have "wp True (parseClassSetV (length (p_src p) + 1) p2) (\<lambda>s q. peek q = 0x5D \<longrightarrow> takes db p (CharClass ng s) (skip q))"
    proof (rule wp_mono [OF csv.rec_moves])
      fix s q assume "moves_on p2 q"
      then have "moves_on p q"
        using moves_on_trans(1) [OF moves_to_trans [OF moves_to_skip glidesD(1) [OF g2]]] b by blast
      then show "peek q = 0x5D \<longrightarrow> takes db p (CharClass ng s) (skip q)"
        using takes_vmode [OF True] moves_on_peek by auto
    qed (use m2 in auto)
    then show ?thesis unfolding eq if_P [OF True] by (simp add: True wp_simps del: parseClassSetV.simps)
  next
    case False
    have "wp (vmode p) (class_loop (length (p_src p) + 1) p2 [])
        (\<lambda>items q. p_pos q < length (p_src q) \<and> takes db p (CharClass ng (ClassSet SetUnion items)) (skip q))"
    proof (rule wp_mono [OF class_loop_wp])
      fix items q assume h: "peek q = 0x5D \<and> reads_items p2 [] items q"
      then have i: "list_all (item_simple (p_unicode p)) items" "roams True (list_all item_plain items) p2 q" 
        using fl by (auto simp: reads_items_def p_unicode_def)
      have "roams True (list_all item_plain items) (skip p) q"
        using roams_trans [OF drifts_roams [OF glides_drifts [OF g2, of True], of True] i(2)] by simp
      from class_roams [OF assms this conjunct1 [OF h]] roams_src [OF this]
      show "p_pos q < length (p_src q) \<and> takes db p (CharClass ng (ClassSet SetUnion items)) (skip q)"
        using i(1) peekD [OF conjunct1 [OF h]] by (auto intro!: takes_class)
    qed (use m2 in auto)
    then show ?thesis unfolding eq if_not_P [OF False] by (rule wp_bind_intro) (simp add: wp_simps)
  qed
qed

lemma takes_escape:
  assumes "peek p = 0x5C" "p_pos p + 1 < length (p_src p)" "drifts (names_plain db \<and> node_plain n) (skip (skip p)) q"
    and "node_caps n = []" "good p n"
  shows "takes db p n q"
proof -
  have "roams False (names_plain db \<and> node_plain n) p q"
    using roams_escape [OF _ assms(2,3)] peekD [OF assms(1)] by simp
  then have "parsed db p [n] q" using assms(4,5) by (intro parsed_step) (auto elim: roams_mono)
  moreover have "p_pos p < p_pos q" using assms(3) by (auto simp: drifts_def dest: moves_toD)
  ultimately show ?thesis by (simp add: takes_def)
qed

lemma decimal_after_digit:
  assumes "readDecimalInt p = ((n, ok), q)" "0x31 \<le> peek p" "peek p \<le> 0x39"
  shows "glides (skip p) q" "1 \<le> n" "p_numGroups q = p_numGroups p"
proof -
  have pk: "p_pos p < length (p_src p)" using peek_ge [of p] assms(2) by simp
  have "decimal_loop (skip p) (peek p - 0x30) = (n, q)"
    using assms by (simp add: readDecimalInt_def decimal_loop.simps [of p 0] split: prod.splits)
  then show "glides (skip p) q" using decimal_loop_glides [of "skip p" "peek p - 0x30" n q] pk by simp
  then show "p_numGroups q = p_numGroups p" using glidesD(1) moves_toD by fastforce
  show "1 \<le> n" using readDecimalInt_pos [OF assms] .
qed

lemma atom_escape_wp:
  assumes "peek p = 0x5C"
  shows "wp (vmode p) (parseAtomEscape db p) (\<lambda>n q. takes db p n q)"
proof (cases "eof (skip p)")
  case True
  then show ?thesis using peekD [OF assms] by (simp add: parseAtomEscape_def wp_simps)
next
  case False
  note b = peekD [OF assms, simplified]
  let ?p1 = "skip p" and ?p2 = "skip (skip p)"
  have lt: "p_pos p + 1 < length (p_src p)" using False by (simp add: eof_def)
  have into: "takes db p n q" if "drifts (names_plain db \<and> node_plain n) ?p2 q" "node_caps n = []" "good p n" for n q
    using takes_escape [OF assms lt that] .
  have one: "takes db p n ?p2" if "node_caps n = []" "good p n" for n
    using into [OF drifts_refl that] lt by simp
  have esc: "wp (vmode p) (parsePropertyEscape ng ?p1) (\<lambda>i q. takes db p (CharClass False (ClassSet SetUnion [i])) q)" if "p_unicode p" for ng
  proof (rule wp_mono [OF property_escape_wp])
    fix i q assume "(\<exists>n w. i = ClassProperty n w ng) \<and> drifts (item_plain i) ?p2 q"
    then show "takes db p (CharClass False (ClassSet SetUnion [i])) q"
      using that by (intro into) (auto simp: drifts_def p_unicode_def)
  qed (use lt in simp)
  have chr: "wp (vmode p) (parseCharacterEscape ?p1) (\<lambda>r q. takes db p (CharN r) q)"
  proof (rule wp_mono [OF character_escape_wp])
    fix r q assume "p_pos ?p1 < length (p_src ?p1) \<and> glides ?p2 q"
    then show "takes db p (CharN r) q" by (intro into) (auto intro: glides_drifts)
  qed (use lt in simp)
  have named: "wp (vmode p) (readGroupName db (skip ?p2)) (\<lambda>name q. map_of (p_names q) name \<noteq> None \<longrightarrow> takes db p (NamedBackRef name) q)"
    if k: "peek ?p2 = 0x3C"
  proof (rule wp_mono [OF read_group_name_wp])
    fix name q assume "p_pos (skip ?p2) < p_pos q \<and> drifts (names_plain db) (skip ?p2) q \<and>
      (names_plain db \<longrightarrow> scanGroupName (p_src (skip ?p2)) (p_pos (skip ?p2)) = Some (name, p_pos q))"
    then have d: "drifts (names_plain db) (skip ?p2) q" by blast
    have "drifts (names_plain db \<and> node_plain (NamedBackRef name)) ?p2 q"
      using drifts_trans [OF glides_drifts [OF glides_peek [OF k], of True] d] by (simp add: plain_def)
    from into [OF this] show "map_of (p_names q) name \<noteq> None \<longrightarrow> takes db p (NamedBackRef name) q"
      using d by (auto simp: drifts_def dest: moves_toD)
  qed (use peekD [OF k] in simp)
  have dec: "wp (vmode p) (let ((n, _), p2) = readDecimalInt ?p1 in
           if n \<le> int (p_numGroups p2) then Inr (BackRef (nat n), p2)
           else if p_unicode p2 then fail p2 ''invalid backreference''
           else let (r, p3) = parseLegacyOctalOrIdentity ?p1 in Inr (CharN r, p3)) (\<lambda>n q. takes db p n q)"
    if d: "0x31 \<le> peek ?p1" "peek ?p1 \<le> 0x39"
  proof -
    obtain n ok q where e: "readDecimalInt ?p1 = ((n, ok), q)" by (metis prod.exhaust)
    obtain r q' where o: "parseLegacyOctalOrIdentity ?p1 = (r, q')" by fastforce
    note g = decimal_after_digit [OF e d]
    have "n \<le> int (p_numGroups q) \<Longrightarrow> takes db p (BackRef (nat n)) q" using g by (intro into) (auto intro: glides_drifts)
    moreover have "takes db p (CharN r) q'" using legacy_octal_glides [OF _ d(2) o] d(1) by (intro into) (auto intro: glides_drifts)
    ultimately show ?thesis using e o by (auto simp: wp_simps Let_def)
  qed
  show ?thesis
    using b False lt esc chr named dec one [of "CharN _"] one [of "CharClass False (ClassSet SetUnion [ClassEscape _])"] peekD [of ?p2 "0x3C"]
    by (simp add: parseAtomEscape_def wp_simps Let_def p_unicode_def)
qed

subsection \<open>Groups, terms and alternatives\<close>

text \<open>
  The contract of the parser of a group's body: with fuel \<open>n\<close> it serves every position with fewer
  than \<open>n\<close> runes left.
\<close>

locale node_subparser =
  fixes db :: unicode_db and rec :: "parser \<Rightarrow> Node pres" and fuel :: nat
  assumes rec_parses: "p_pos p \<le> length (p_src p) \<Longrightarrow> length (p_src p) - p_pos p < fuel \<Longrightarrow>
    wp (vmode p) (rec p) (\<lambda>n q. parsed db p [n] q)"
begin

lemma inner_wp:
  assumes "p_pos p \<le> length (p_src p)" "length (p_src p) - p_pos p < fuel"
  shows "wp (vmode p) (group_inner rec p f qf) (\<lambda>x q. \<exists>b. x = (f b, qf) \<and> parsed db p [b] q)"
  unfolding group_inner_def
proof (rule wp_bind_intro [OF rec_parses [OF assms]], goal_cases)
  case (1 b q)
  then show ?case using parsed_then_glide [OF 1 glides_peek [of q "0x29"]] by (auto simp: wp_simps plain_def)
qed

end

text \<open>A capturing group: the scan counts its parenthesis, and the body's captures follow.\<close>

lemma parsed_capture:
  assumes "p_capIndex p1 = p_capIndex p + 1" "same p p1" "p_pos p \<le> p_pos p1"
    and "parsed db p1 [b] q"
    and "names_plain db \<and> \<not> vmode p \<Longrightarrow> counts (p_src p) (p_pos p) (p_pos p1) 1"
  shows "parsed db p [Capture (p_capIndex p + 1) nm b] q"
proof -
  let ?i = "p_capIndex p" and ?j = "p_capIndex q"
  have s: "p_src p1 = p_src p" "p_flags p1 = p_flags p" "p_numGroups p1 = p_numGroups p" "p_names p1 = p_names p"
    using assms(2) by (auto simp: same_def)
  have c: "node_caps b = [?i + 2 ..< ?j + 1]" and le: "?i + 1 \<le> ?j" using assms(1,4) by (auto simp: parsed_def)
  have "(?i + 1) # [?i + 2 ..< ?j + 1] = [?i + 1 ..< ?j + 1]" using le by (simp add: upt_conv_Cons)
  moreover have "counts (p_src p) (p_pos p) (p_pos q) (?j - ?i)" if "names_plain db \<and> \<not> vmode p \<and> node_plain b"
  proof -
    have "counts (p_src p) (p_pos p) (p_pos q) (1 + (?j - (?i + 1)))"
      using assms(4) s that assms(1) by (intro counts_trans [OF assms(5)]) (auto simp: parsed_def)
    moreover have "1 + (?j - (?i + 1)) = ?j - ?i" using le by simp
    ultimately show ?thesis by simp
  qed
  ultimately show ?thesis using assms(1-4) c s by (auto simp: parsed_def same_def)
qed

lemma scan_paren: "i < length src \<Longrightarrow> src ! i = 0x28 \<Longrightarrow> \<not> (i + 1 < length src \<and> src ! (i + 1) = 0x3F) \<Longrightarrow> counts src i (i + 1) 1"
  unfolding counts_def by (subst scan_loop.simps) (auto simp: Let_def)

lemma scans_raw: "i < length src \<Longrightarrow> plain (src ! i) \<or> src ! i = 0x5D \<Longrightarrow> scans False src i (i + 1)"
  unfolding scans_def by (intro allI, subst scan_loop.simps) (auto simp: Let_def plain_def)

lemma scan_question:
  "i + 1 < length src \<Longrightarrow> src ! i = 0x28 \<Longrightarrow> src ! (i + 1) = 0x3F \<Longrightarrow> \<not> is_named_group src i \<Longrightarrow> scans False src i (i + 2)"
  using trans_plain [of "i + 1" src] unfolding scans_def
  by (subst scan_loop.simps [of src i]) (simp add: Let_def trans_def plain_def)

lemma scan_named:
  "i + 1 < length src \<Longrightarrow> src ! i = 0x28 \<Longrightarrow> src ! (i + 1) = 0x3F \<Longrightarrow> is_named_group src i \<Longrightarrow>
   scanGroupName src (i + 3) = Some (nm, j) \<Longrightarrow> counts src i j 1"
  unfolding counts_def by (subst scan_loop.simps) (auto simp: Let_def)

lemma peek_skip: "peek (skip p) = peekAt p 1"
  by (simp add: peek_def peekAt_def)

lemma named_group_peek:
  "is_named_group (p_src p) (p_pos p) \<longleftrightarrow>
     peek (skip (skip p)) = 0x3C \<and> peekAt (skip (skip p)) 1 \<noteq> 0x3D \<and> peekAt (skip (skip p)) 1 \<noteq> 0x21"
  by (auto simp: is_named_group_def peek_def peekAt_def numeral_2_eq_2 numeral_3_eq_3)

lemma question_move:
  assumes "peek p = 0x28" "peek (skip p) = 0x3F" "\<not> is_named_group (p_src p) (p_pos p)"
  shows "parsed db p [] (skip (skip p))"
proof -
  have "roams False True p (skip (skip p))"
    using assms peekD [OF assms(1)] peekD [OF assms(2)] scan_question [of "p_pos p" "p_src p"]
    by (simp add: roams_def moves_to_def same_def)
  then show ?thesis by (rule parsed_move) simp
qed

context node_subparser
begin

lemma noncapture_wp:
  assumes open_paren: "peek p = 0x28" "peek (skip p) = 0x3F" "\<not> is_named_group (p_src p) (p_pos p)"
    and fuel: "length (p_src p) - p_pos p \<le> fuel"
    and move: "glides (skip (skip p)) p3"
    and wrap: "\<And>b. node_caps (f b) = node_caps b \<and> (node_plain (f b) \<longleftrightarrow> node_plain b) \<and> (good p (f b) \<longleftrightarrow> good p b)"
  shows "wp (vmode p) (group_inner rec p3 f qf) (\<lambda>x q. takes db p (fst x) q)"
proof -
  note m = glides_src [OF move]
  have fl: "p_flags p3 = p_flags p" using moves_toD [OF glidesD(1) [OF move]] by simp
  have "wp (vmode p3) (group_inner rec p3 f qf) (\<lambda>x q. takes db p (fst x) q)"
  proof (rule wp_mono [OF inner_wp])
    fix x q assume "\<exists>b. x = (f b, qf) \<and> parsed db p3 [b] q"
    then obtain b where b: "x = (f b, qf)" "parsed db p3 [b] q" by blast
    have "parsed db p [b] q"
      using parsed_append [OF question_move [OF open_paren] parsed_glide_then [OF move b(2)]] by simp
    then have "parsed db p [f b] q" using wrap [of b] by (intro parsed_wrap [of db p "[b]" q "f b"]) simp_all
    then show "takes db p (fst x) q" using b(1) m parsedD [OF b(2)] by (simp add: takes_def)
  qed (use m peekD [OF open_paren(1)] fuel in auto)
  then show ?thesis using fl by simp
qed

lemma capture_wp:
  assumes "p_capIndex p1 = p_capIndex p + 1" "same p p1" "p_pos p < p_pos p1" "p_pos p1 \<le> length (p_src p)"
    and "length (p_src p) - p_pos p \<le> fuel"
    and "names_plain db \<and> \<not> vmode p \<Longrightarrow> counts (p_src p) (p_pos p) (p_pos p1) 1"
  shows "wp (vmode p) (group_inner rec p1 (Capture (p_capIndex p + 1) nm) qf) (\<lambda>x q. takes db p (fst x) q)"
proof -
  have fl: "p_flags p1 = p_flags p" "p_src p1 = p_src p" using assms(2) by (auto simp: same_def)
  have "wp (vmode p1) (group_inner rec p1 (Capture (p_capIndex p + 1) nm) qf) (\<lambda>x q. takes db p (fst x) q)"
  proof (rule wp_mono [OF inner_wp])
    fix x q assume "\<exists>b. x = (Capture (p_capIndex p + 1) nm b, qf) \<and> parsed db p1 [b] q"
    then obtain b where b: "x = (Capture (p_capIndex p + 1) nm b, qf)" "parsed db p1 [b] q" by blast
    then show "takes db p (fst x) q"
      using parsed_capture [OF assms(1,2) less_imp_le [OF assms(3)] b(2) assms(6)] assms(3) parsedD [OF b(2)]
      by (auto simp: takes_def)
  qed (use assms fl in auto)
  then show ?thesis using fl by simp
qed

lemma named_capture_wp:
  assumes "peek p = 0x28" "peek (skip p) = 0x3F" "is_named_group (p_src p) (p_pos p)" "length (p_src p) - p_pos p \<le> fuel"
  shows "wp (vmode p) (res_bind (readGroupName db ((skip (skip (skip p)))\<lparr>p_capIndex := p_capIndex p + 1\<rparr>))
      (\<lambda>(name, p4). group_inner rec p4 (Capture (p_capIndex p + 1) name) True)) (\<lambda>x q. takes db p (fst x) q)"
proof -
  let ?p3 = "(skip (skip (skip p)))\<lparr>p_capIndex := p_capIndex p + 1\<rparr>"
  have b: "p_pos p + 2 < length (p_src p)" "p_src p ! p_pos p = 0x28" "p_src p ! (p_pos p + 1) = 0x3F"
    using assms peekD [of p "0x28"] peekD [of "skip p" "0x3F"] by (auto simp: is_named_group_def)
  show ?thesis
  proof (rule wp_bind_intro [OF read_group_name_wp], goal_cases)
    case (2 name q)
    have pos: "p_pos ?p3 = p_pos p + 3" "p_src ?p3 = p_src p" by simp_all
    have "counts (p_src p) (p_pos p) (p_pos q) 1" if "names_plain db"
      using scan_named [of "p_pos p" "p_src p" name "p_pos q"] 2 that b assms(3) by (simp add: numeral_3_eq_3)
    then have "wp (vmode p) (group_inner rec q (Capture (p_capIndex p + 1) name) True) (\<lambda>x r. takes db p (fst x) r)"
      using 2 b pos
      by (intro capture_wp [OF _ _ _ _ assms(4)]) (auto simp: drifts_def same_def dest!: moves_toD)
    then show ?case by simp
  qed (use b in simp)
qed

lemma group_wp:
  assumes "peek p = 0x28" "length (p_src p) - p_pos p \<le> fuel"
  shows "wp (vmode p) (parseGroup db rec p) (\<lambda>x q. takes db p (fst x) q)"
proof (cases "peek (skip p) = 0x3F")
  case True
  let ?p2 = "skip (skip p)"
  have b: "p_pos p + 1 < length (p_src p)" using peekD [OF True] by simp
  have step: "glides ?p2 (skip ?p2)" if "peek ?p2 \<in> {0x3A, 0x3D, 0x21, 0x3C}"
    using that glides_peek [of ?p2 "peek ?p2"] by (auto simp: plain_def)
  have nc: "wp (vmode p) (group_inner rec p3 (Group md) qf) (\<lambda>x q. takes db p (fst x) q)"
      "wp (vmode p) (group_inner rec p3 (Lookaround bh ng) qf) (\<lambda>x q. takes db p (fst x) q)"
    if "\<not> is_named_group (p_src p) (p_pos p)" "glides ?p2 p3" for p3 qf md bh ng
    by (rule noncapture_wp [OF assms(1) True that(1) assms(2) that(2)]; simp)+
  have behind: "glides ?p2 (skip (skip ?p2))" if "peek ?p2 = 0x3C" "peekAt ?p2 1 = 0x3D \<or> peekAt ?p2 1 = 0x21"
  proof -
    have "glides (skip ?p2) (skip (skip ?p2))"
      using that(2) glides_peek [of "skip ?p2" "peekAt ?p2 1"] by (auto simp: plain_def peek_skip)
    then show ?thesis using step that(1) glides_trans by blast
  qed
  have mods: "wp (vmode p) (res_bind (parseModifiers ?p2) (\<lambda>(mods, p3).
      res_bind (expect p3 0x3A) (\<lambda>(_, p4). group_inner rec p4 (Group (Some mods)) True))) (\<lambda>x q. takes db p (fst x) q)"
    if "\<not> is_named_group (p_src p) (p_pos p)"
  proof (rule wp_bind_intro [OF modifiers_wp], goal_cases)
    case (2 mods p3)
    then show ?case using nc(1) [OF that glides_trans [OF 2 glides_peek], of "0x3A" "Some mods"]
      by (auto simp: wp_simps plain_def)
  qed (use b in simp)
  have pk: "peek ?p2 = c \<Longrightarrow> c \<noteq> -1 \<Longrightarrow> p_pos p + 2 < length (p_src p)" for c using peekD [of ?p2 c] by simp
  have eq: "parseGroup db rec p = (let c = peek ?p2 in
         if c = 0x3A then res_bind (advance ?p2) (\<lambda>(_, p3). group_inner rec p3 (Group None) True)
         else if c = 0x3D then
           res_bind (advance ?p2) (\<lambda>(_, p3). group_inner rec p3 (Lookaround False False) (\<not> p_unicode p))
         else if c = 0x21 then
           res_bind (advance ?p2) (\<lambda>(_, p3). group_inner rec p3 (Lookaround False True) (\<not> p_unicode p))
         else if c = 0x3C \<and> (peekAt ?p2 1 = 0x3D \<or> peekAt ?p2 1 = 0x21) then
           res_bind (advance ?p2) (\<lambda>(_, p3).
           res_bind (advance p3) (\<lambda>(k, p4). group_inner rec p4 (Lookaround True (k = 0x21)) False))
         else if c = 0x3C then
           res_bind (advance ?p2) (\<lambda>(_, p3).
             let idx = p_capIndex p3 + 1 in
             res_bind (readGroupName db (p3\<lparr>p_capIndex := idx\<rparr>)) (\<lambda>(name, p4).
               group_inner rec p4 (Capture idx name) True))
         else
           res_bind (parseModifiers ?p2) (\<lambda>(mods, p3).
           res_bind (expect p3 0x3A) (\<lambda>(_, p4). group_inner rec p4 (Group (Some mods)) True)))"
    using b True by (simp add: parseGroup_def advance_def)
  consider "peek ?p2 \<in> {0x3A, 0x3D, 0x21}" "\<not> is_named_group (p_src p) (p_pos p)"
    | "peek ?p2 = 0x3C" "peekAt ?p2 1 = 0x3D \<or> peekAt ?p2 1 = 0x21" "\<not> is_named_group (p_src p) (p_pos p)"
    | "peek ?p2 = 0x3C" "is_named_group (p_src p) (p_pos p)"
    | "peek ?p2 \<notin> {0x3A, 0x3D, 0x21, 0x3C}" "\<not> is_named_group (p_src p) (p_pos p)"
    unfolding named_group_peek by auto
  then show ?thesis
  proof cases
    case 1
    then have g: "glides ?p2 (skip ?p2)" using step by auto
    have lt: "p_pos p + 2 < length (p_src p)" using pk [OF refl] 1(1) by auto
    show ?thesis unfolding eq using 1 lt nc [OF 1(2) g] by (auto simp: Let_def wp_simps)
  next
    case 2
    have lt: "p_pos p + 2 < length (p_src p)" "p_pos p + 3 < length (p_src p)"
      using pk [OF 2(1)] peekAtD [of ?p2 1 "peekAt ?p2 1"] 2(2) by (auto simp: numeral_3_eq_3)
    show ?thesis unfolding eq using 2 lt nc [OF 2(3) behind [OF 2(1,2)]]
      by (simp add: Let_def wp_simps numeral_3_eq_3 numeral_2_eq_2)
  next
    case 3
    then have "\<not> (peekAt ?p2 1 = 0x3D \<or> peekAt ?p2 1 = 0x21)" unfolding named_group_peek by simp
    then show ?thesis unfolding eq using 3 pk [OF 3(1)] named_capture_wp [OF assms(1) True 3(2) assms(2)]
      by (simp add: Let_def wp_advance wp_bind)
  next
    case 4
    then show ?thesis unfolding eq using mods by (simp add: Let_def)
  qed
next
  case False
  have b: "p_pos p < length (p_src p)" "p_src p ! p_pos p = 0x28" using peekD [OF assms(1)] by auto
  have "wp (vmode p) (group_inner rec ((skip p)\<lparr>p_capIndex := p_capIndex p + 1\<rparr>)
      (Capture (p_capIndex p + 1) (name_of_index (p_names p) (p_capIndex p + 1))) True) (\<lambda>x q. takes db p (fst x) q)"
    using b False scan_paren [OF b] by (intro capture_wp [OF _ _ _ _ assms(2)]) (auto simp: same_def peek_def peekAt_def split: if_splits)
  then show ?thesis using b False by (simp add: parseGroup_def wp_simps Let_def)
qed

lemma atom_wp:
  assumes "p_pos p < length (p_src p)" "length (p_src p) - p_pos p \<le> fuel"
  shows "wp (vmode p) (parseAtom db rec p) (\<lambda>n q. takes db p n q)"
proof -
  let ?c = "p_src p ! p_pos p"
  have pk: "peek p = ?c" using assms(1) by (simp add: peek_def peekAt_def)
  have raw: "takes db p n (skip p)" if "plain ?c \<or> ?c = 0x5D" "node_caps n = []" "good p n" for n
  proof -
    have "roams False True p (skip p)"
      using that(1) assms(1) scans_raw [of "p_pos p" "p_src p"] by (simp add: roams_def moves_to_skip)
    then have "parsed db p [n] (skip p)" using that(2,3) by (intro parsed_step) (auto elim: roams_mono)
    then show ?thesis by (simp add: takes_def)
  qed
  have grp: "wp (vmode p) (parseGroup db rec p) (\<lambda>x q. takes db p (fst x) q)" if "?c = 0x28"
    using group_wp [of p] pk that assms(2) by simp
  have brace: "wp (vmode p) (parseBraceQuantifier p) (\<lambda>q r. wp (vmode p)
      (if q \<noteq> None then fail r ''nothing to repeat''
       else if p_unicode r then fail r ''lone quantifier bracket''
       else res_bind (advance r) (\<lambda>(_, p2). Inr (CharN 0x7B, p2))) (\<lambda>n q. takes db p n q))" if "?c = 0x7B"
    by (rule wp_mono [OF brace_quantifier_wp]) (use pk that assms(1) raw [of "CharN 0x7B"] in \<open>auto simp: wp_simps plain_def\<close>)
  show ?thesis
    using pk assms(1) raw [of AnyChar] raw [of "CharN _"] grp brace atom_escape_wp [of p db] char_class_wp [of p db]
    by (simp add: parseAtom_def Let_def wp_simps plain_def case_prod_beta)
qed

lemma assertion_or_atom_wp:
  assumes "p_pos p < length (p_src p)" "length (p_src p) - p_pos p \<le> fuel"
  shows "wp (vmode p) (parseAssertionOrAtom db rec p) (\<lambda>x q. takes db p (fst x) q)"
proof -
  have raw: "takes db p (Assertion k) (skip p)" if "peek p = c" "plain c" "c \<noteq> -1" for c k
    using parsed_step [of db p "Assertion k" "skip p"] drifts_roams [OF glides_drifts [OF glides_peek [OF that], of True]]
    by (simp add: takes_def)
  have esc: "takes db p (Assertion k) (skip (skip p))" "p_pos p + 1 < length (p_src p)"
    if "peek p = 0x5C" "peekAt p 1 = 0x62 \<or> peekAt p 1 = 0x42" for k
  proof -
    show lt: "p_pos p + 1 < length (p_src p)" using that(2) peekAtD [of p 1 "peekAt p 1"] by auto
    show "takes db p (Assertion k) (skip (skip p))" using takes_escape [OF that(1) lt drifts_refl] lt by simp
  qed
  show ?thesis
    using assms(1) raw [of "0x5E"] raw [of "0x24"] esc group_wp [OF _ assms(2)] atom_wp [OF assms]
    by (simp add: parseAssertionOrAtom_def wp_simps plain_def)
qed

lemma term_wp:
  assumes "p_pos p < length (p_src p)" "length (p_src p) - p_pos p \<le> fuel"
  shows "wp (vmode p) (parseTerm db rec p) (\<lambda>n q. takes db p n q)"
  unfolding parseTerm_def
proof (rule wp_bind_intro [OF assertion_or_atom_wp [OF assms]], goal_cases)
  case (1 x p1)
  then have t: "p_pos p < p_pos p1" "parsed db p [fst x] p1" by (auto simp: takes_def)
  have "wp (vmode p) (parseQuantifier p1) (\<lambda>q p2. takes db p (fst x) p2 \<and>
      (\<forall>y. q = Some y \<longrightarrow> takes db p (Quantifier (nat (q_min y)) (q_max y) (q_greedy y) (fst x)) p2))"
  proof (rule wp_mono [OF quantifier_wp])
    fix q p2 assume h: "quant_ok q \<and> glides p1 p2"
    have g: "parsed db p [fst x] p2" using parsed_then_glide [OF t(2)] h by blast
    then have "parsed db p [Quantifier (nat (q_min y)) (q_max y) (q_greedy y) (fst x)] p2" if "q = Some y" for y
      by (rule parsed_wrap) (use h that in \<open>auto simp: quant_ok_def\<close>)
    then show "takes db p (fst x) p2 \<and>
      (\<forall>y. q = Some y \<longrightarrow> takes db p (Quantifier (nat (q_min y)) (q_max y) (q_greedy y) (fst x)) p2)"
      using g t(1) glides_src [of p1 p2] h by (auto simp: takes_def)
  qed (use parsedD [OF t(2)] in simp)
  then show ?case
    by (cases x) (auto simp: wp_simps split: option.splits elim!: wp_mono)
qed

text \<open>Sequences: the nodes read are appended.\<close>

lemma alternative_loop_wp:
  "p_pos p \<le> length (p_src p) \<Longrightarrow> length (p_src p) - p_pos p \<le> fuel \<Longrightarrow> length (p_src p) - p_pos p < n \<Longrightarrow>
   wp (vmode p) (alternative_loop n db rec p terms) (\<lambda>ts q. \<exists>k. ts = terms @ k \<and> parsed db p k q)"
proof (induction n arbitrary: p terms)
  case (Suc n)
  show ?case
  proof (cases "\<not> eof p \<and> peek p \<noteq> 0x7C \<and> peek p \<noteq> 0x29")
    case True
    then have lt: "p_pos p < length (p_src p)" using eof_peek by blast
    have "wp (vmode p) (parseTerm db rec p) (\<lambda>t p1. wp (vmode p) (alternative_loop n db rec p1 (terms @ [t]))
        (\<lambda>ts q. \<exists>k. ts = terms @ k \<and> parsed db p k q))"
    proof (rule wp_mono [OF term_wp [OF lt Suc.prems(2)]])
      fix t p1 assume "takes db p t p1"
      then have t: "p_pos p < p_pos p1" "parsed db p [t] p1" by (auto simp: takes_def)
      note d = parsedD [OF t(2)]
      have "wp (vmode p1) (alternative_loop n db rec p1 (terms @ [t])) (\<lambda>ts q. \<exists>k. ts = terms @ k \<and> parsed db p k q)"
        by (rule wp_mono [OF Suc.IH]) (use d t Suc.prems parsed_append [OF t(2)] in fastforce)+
      then show "wp (vmode p) (alternative_loop n db rec p1 (terms @ [t])) (\<lambda>ts q. \<exists>k. ts = terms @ k \<and> parsed db p k q)"
        using d by simp
    qed
    then show ?thesis using True by (simp add: wp_simps)
  qed (use Suc.prems parsed_nil in \<open>auto simp: wp_simps\<close>)
qed simp

lemma alternative_wp:
  assumes "p_pos p \<le> length (p_src p)" "length (p_src p) - p_pos p \<le> fuel"
  shows "wp (vmode p) (parseAlternative db rec p) (\<lambda>n q. parsed db p [n] q)"
  unfolding parseAlternative_def
proof (rule wp_bind_intro [OF alternative_loop_wp [OF assms]], goal_cases)
  case (2 terms q)
  then have t: "parsed db p terms q" by simp
  have "parsed db p [case terms of [] \<Rightarrow> Empty | [t] \<Rightarrow> t | _ \<Rightarrow> Concat terms] q"
    by (rule parsed_wrap [OF t]) (auto split: list.split)
  then show ?case by (simp add: wp_simps)
qed simp

lemma disjunction_loop_wp:
  "p_pos p \<le> length (p_src p) \<Longrightarrow> length (p_src p) - p_pos p \<le> fuel \<Longrightarrow> length (p_src p) - p_pos p < n \<Longrightarrow>
   parsed db p0 alts p \<Longrightarrow> alts \<noteq> [] \<Longrightarrow> wp (vmode p) (disjunction_loop n db rec p alts) (\<lambda>d q. parsed db p0 [d] q)"
proof (induction n arbitrary: p alts)
  case (Suc n)
  show ?case
  proof (cases "peek p = 0x7C")
    case True
    note b = peekD [OF True]
    have g: "glides p (skip p)" using glides_peek [OF True] by (simp add: plain_def)
    have "wp (vmode (skip p)) (parseAlternative db rec (skip p)) (\<lambda>a p2. wp (vmode p) (disjunction_loop n db rec p2 (alts @ [a]))
        (\<lambda>d q. parsed db p0 [d] q))"
    proof (rule wp_mono [OF alternative_wp])
      fix a p2 assume h: "parsed db (skip p) [a] p2"
      note d = parsedD [OF h]
      have "parsed db p0 (alts @ [a]) p2"
        using parsed_append [OF Suc.prems(4) parsed_glide_then [OF g h]] .
      then have "wp (vmode p2) (disjunction_loop n db rec p2 (alts @ [a])) (\<lambda>d q. parsed db p0 [d] q)"
        by (intro Suc.IH) (use d b Suc.prems in auto)
      then show "wp (vmode p) (disjunction_loop n db rec p2 (alts @ [a])) (\<lambda>d q. parsed db p0 [d] q)" using d by simp
    qed (use b Suc.prems in auto)
    then show ?thesis using True b by (simp add: wp_simps)
  next
    case False
    have "parsed db p0 [Disjunction alts] p" by (rule parsed_wrap [OF Suc.prems(4)]) (use Suc.prems(5) in auto)
    then show ?thesis using False by (simp add: wp_simps)
  qed
qed simp

lemma disjunction_wp:
  assumes "p_pos p \<le> length (p_src p)" "length (p_src p) - p_pos p \<le> fuel"
  shows "wp (vmode p) (disjunction_body db rec p) (\<lambda>n q. parsed db p [n] q)"
  unfolding disjunction_body_def
proof (rule wp_bind_intro [OF alternative_wp [OF assms]], goal_cases)
  case (1 first p1)
  note d = parsedD [OF 1]
  have "wp (vmode p1) (disjunction_loop (length (p_src p) + 1) db rec p1 [first]) (\<lambda>n q. parsed db p [n] q)"
    by (rule disjunction_loop_wp) (use d 1 assms in auto)
  then show ?case using d 1 by (simp add: wp_simps del: disjunction_loop.simps)
qed

end

lemma node_subparser_parseDisjunction: "node_subparser db (parseDisjunction db n) n"
proof (induction n)
  case (Suc n)
  then show ?case by (intro node_subparser.intro) (auto intro: node_subparser.disjunction_wp)
qed (simp add: node_subparser_def)

interpretation pd: node_subparser db "parseDisjunction db n" n for db n
  by (rule node_subparser_parseDisjunction)

end
