(* ===== verification/Regexp_Dup_Names.thy ===== *)
theory Regexp_Dup_Names
  imports Regexp_Parser
begin

text \<open>
  The duplicate-name check (\<open>src/jsregexp/dupnames.go\<close>) against a direct reading of the rule: a
  pattern is a set of \<open>branches\<close>, one for each choice of alternatives, and a name may not be
  declared twice on a branch.
\<close>

subsection \<open>Branches\<close>

fun products :: "'a list list list \<Rightarrow> 'a list list" where
  "products [] = [[]]"
| "products (bs # bss) = concat (map (\<lambda>b. map (\<lambda>c. b @ c) (products bss)) bs)"

fun branches :: "Node \<Rightarrow> go_string list list" where
  "branches (Disjunction ts) = concat (map branches ts)"
| "branches (Concat ts) = products (map branches ts)"
| "branches (Lookaround bh ng b) = branches b"
| "branches (Capture i nm b) = (if nm = [] then branches b else map (\<lambda>x. nm # x) (branches b))"
| "branches (Group md b) = branches b"
| "branches (Quantifier mn mx g b) = branches b"
| "branches n = [[]]"

fun alts_nonempty :: "Node \<Rightarrow> bool" where
  "alts_nonempty (Disjunction ts) \<longleftrightarrow> ts \<noteq> [] \<and> list_all alts_nonempty ts"
| "alts_nonempty (Concat ts) \<longleftrightarrow> list_all alts_nonempty ts"
| "alts_nonempty (Lookaround bh ng b) \<longleftrightarrow> alts_nonempty b"
| "alts_nonempty (Capture i nm b) \<longleftrightarrow> alts_nonempty b"
| "alts_nonempty (Group md b) \<longleftrightarrow> alts_nonempty b"
| "alts_nonempty (Quantifier mn mx g b) \<longleftrightarrow> alts_nonempty b"
| "alts_nonempty n \<longleftrightarrow> True"

definition declared :: "go_string list list \<Rightarrow> go_string set" where
  "declared bs = (\<Union>b \<in> set bs. set b)"

lemma products_nonempty: "\<forall>bs \<in> set bss. bs \<noteq> [] \<Longrightarrow> products bss \<noteq> []"
  by (induction bss) auto

lemma branches_nonempty: "alts_nonempty n \<Longrightarrow> branches n \<noteq> []"
proof (induction n)
  case (Disjunction ts)
  then show ?case by (cases ts) (auto simp: list_all_iff)
next
  case (Concat ts)
  then show ?case using products_nonempty [of "map branches ts"] by (auto simp: list_all_iff)
qed auto

text \<open>The outcome of the check, for the branches \<open>bs\<close> and the names \<open>acc\<close> declared before.\<close>

definition outcome :: "SyntaxError + go_string list \<Rightarrow> go_string list \<Rightarrow> go_string list list \<Rightarrow> bool" where
  "outcome r acc bs \<longleftrightarrow> (case r of
      Inr s \<Rightarrow> distinct s \<and> set s = set acc \<union> declared bs \<and> (\<forall>b \<in> set bs. distinct b \<and> set b \<inter> set acc = {})
    | Inl e \<Rightarrow> \<exists>nm b. e = dup_err nm \<and> b \<in> set bs \<and> (2 \<le> count_list b nm \<or> nm \<in> set b \<and> nm \<in> set acc))"

lemma mergeExclusive_outcome:
  "case mergeExclusive a ks of
     Inr s \<Rightarrow> distinct ks \<and> set ks \<inter> set a = {} \<and> s = a @ ks
   | Inl e \<Rightarrow> \<exists>k. e = dup_err k \<and> k \<in> set ks \<and> (k \<in> set a \<or> \<not> distinct ks)"
proof (induction a ks rule: mergeExclusive.induct)
  case (2 a k ks)
  then show ?case by (auto split: sum.splits)
qed simp

lemma count_list_append_ge: "count_list b x \<le> count_list (b @ c) x" "count_list c x \<le> count_list (b @ c) x"
  by (simp_all add: count_list_append)

lemma count_list_pos: "x \<in> set b \<Longrightarrow> 0 < count_list b x"
  by (metis count_list_0_iff gr0I)

lemma count_list_two: "x \<in> set b \<Longrightarrow> x \<in> set c \<Longrightarrow> 2 \<le> count_list (b @ c) x"
  by (metis add_mono count_list_append count_list_0_iff less_one linorder_not_le nat_1_add_1)

lemma distinct_count: "2 \<le> count_list b x \<Longrightarrow> \<not> distinct b"
  by (induction b) (auto simp: count_list_0_iff split: if_splits) 

lemma products_two: "declared (products (bs # bss)) = declared bs \<union> declared (products bss)" if "bs \<noteq> []" "products bss \<noteq> []"
  using that by (fastforce simp: declared_def)

lemma dup_terms_step:
  assumes ne: "branches t \<noteq> []" "products (map branches ts) \<noteq> []"
    and ih: "outcome (dupCheckNames t) [] (branches t)" and acc: "distinct acc"
    and rest: "\<And>s acc'. dupCheckNames t = Inr s \<Longrightarrow> mergeExclusive acc s = Inr acc' \<Longrightarrow> distinct acc' \<Longrightarrow>
      outcome (dup_terms ts acc') acc' (products (map branches ts))"
  shows "outcome (dup_terms (t # ts) acc) acc (products (map branches (t # ts)))"
proof -
  show ?thesis
  proof (cases "dupCheckNames t")
    case (Inl e)
    then obtain nm b where e: "e = dup_err nm" "b \<in> set (branches t)" "2 \<le> count_list b nm" using ih by (auto simp: outcome_def)
    obtain c where "c \<in> set (products (map branches ts))" using ne(2) by (meson hd_in_set)
    then have "b @ c \<in> set (products (map branches (t # ts)))" "2 \<le> count_list (b @ c) nm"
      using e count_list_append_ge(1) [of b nm c] by auto
    moreover have "dup_terms (t # ts) acc = Inl e" using Inl by simp
    ultimately show ?thesis using e(1) unfolding outcome_def by (simp only: sum.case) blast
  next
    case (Inr s)
    then have s: "distinct s" "set s = declared (branches t)" "\<forall>b \<in> set (branches t). distinct b"
      using ih by (auto simp: outcome_def)
    obtain b0 where b0: "b0 \<in> set (branches t)" using ne(1) by (meson hd_in_set)
    obtain c0 where c0: "c0 \<in> set (products (map branches ts))" using ne(2) by (meson hd_in_set)
    have prod: "b @ c \<in> set (products (map branches (t # ts)))"
      if "b \<in> set (branches t)" "c \<in> set (products (map branches ts))" for b c using that by auto
    show ?thesis
    proof (cases "mergeExclusive acc s")
      case m: (Inl e)
      then obtain k where k: "e = dup_err k" "k \<in> set s" "k \<in> set acc" using mergeExclusive_outcome [where a = acc and ks = s] s(1) by auto
      then obtain b where "b \<in> set (branches t)" "k \<in> set b" using s(2) by (auto simp: declared_def)
      then show ?thesis using prod [OF _ c0] k Inr m unfolding outcome_def by fastforce
    next
      case m: (Inr acc')
      then have a: "set s \<inter> set acc = {}" "acc' = acc @ s" using mergeExclusive_outcome [where a = acc and ks = s] by auto
      have "distinct acc'" using a s(1) acc by auto
      then have rest': "outcome (dup_terms ts acc') acc' (products (map branches ts))" using rest [OF Inr m] by simp
      show ?thesis
      proof (cases "dup_terms ts acc'")
        case r: (Inl e)
        then obtain nm c where c: "e = dup_err nm" "c \<in> set (products (map branches ts))"
            "2 \<le> count_list c nm \<or> nm \<in> set c \<and> nm \<in> set acc'" using rest' by (auto simp: outcome_def)
        have "\<exists>b \<in> set (products (map branches (t # ts))). 2 \<le> count_list b nm \<or> nm \<in> set b \<and> nm \<in> set acc"
        proof (cases "nm \<in> set s \<and> nm \<in> set c")
          case True
          then obtain b where "b \<in> set (branches t)" "nm \<in> set b" using s(2) by (auto simp: declared_def)
          then show ?thesis using prod [OF _ c(2)] count_list_two [of nm b c] True by blast
        next
          case False
          then have "2 \<le> count_list (b0 @ c) nm \<or> nm \<in> set (b0 @ c) \<and> nm \<in> set acc"
            using c(3) a(2) count_list_append_ge(2) [of c nm b0] by auto
          then show ?thesis using prod [OF b0 c(2)] by blast
        qed
        moreover have "dup_terms (t # ts) acc = Inl e" using Inr m r by simp
        ultimately show ?thesis using c(1) unfolding outcome_def by (simp only: sum.case) blast
      next
        case r: (Inr s')
        then have r': "distinct s'" "set s' = set acc' \<union> declared (products (map branches ts))"
            "\<forall>c \<in> set (products (map branches ts)). distinct c \<and> set c \<inter> set acc' = {}" using rest' by (auto simp: outcome_def)
        have "distinct (b @ c) \<and> set (b @ c) \<inter> set acc = {}"
          if "b \<in> set (branches t)" "c \<in> set (products (map branches ts))" for b c
          using that r'(3) s(2,3) a by (fastforce simp: declared_def)
        then have "\<forall>b \<in> set (products (map branches (t # ts))). distinct b \<and> set b \<inter> set acc = {}" by auto
        moreover have "set s' = set acc \<union> declared (products (map branches (t # ts)))"
          using r'(2) a(2) s(2) products_two [OF ne] by auto
        moreover have "dup_terms (t # ts) acc = Inr s'" using Inr m r by simp
        ultimately show ?thesis using r'(1) by (simp add: outcome_def)
      qed
    qed
  qed
qed

lemma dupCheck_outcome:
  "alts_nonempty n \<Longrightarrow> outcome (dupCheckNames n) [] (branches n)"
  "list_all alts_nonempty ts \<Longrightarrow> distinct acc \<Longrightarrow>
     (case dup_alternatives ts acc of
        Inr s \<Rightarrow> distinct s \<and> set s = set acc \<union> declared (concat (map branches ts)) \<and> (\<forall>b \<in> set (concat (map branches ts)). distinct b)
      | Inl e \<Rightarrow> \<exists>nm b. e = dup_err nm \<and> b \<in> set (concat (map branches ts)) \<and> 2 \<le> count_list b nm)"
  "list_all alts_nonempty us \<Longrightarrow> distinct acc' \<Longrightarrow> outcome (dup_terms us acc') acc' (products (map branches us))"
proof (induction n and ts acc and us acc' rule: dupCheckNames_dup_alternatives_dup_terms.induct)
  case (1 alts)
  then show ?case by (auto simp: outcome_def split: sum.splits)
next
  case (3 i name body)
  then have ih: "outcome (dupCheckNames body) [] (branches body)" by simp
  show ?case
  proof (cases "dupCheckNames body")
    case (Inl e)
    then show ?thesis using ih by (force simp: outcome_def)
  next
    case (Inr s)
    then have s: "distinct s" "set s = declared (branches body)" "\<forall>b \<in> set (branches body). distinct b"
      using ih by (auto simp: outcome_def)
    show ?thesis
    proof (cases "name \<noteq> [] \<and> name \<in> set s")
      case True
      then obtain b where "b \<in> set (branches body)" "name \<in> set b" using s(2) by (auto simp: declared_def)
      then show ?thesis using True Inr by (auto simp: outcome_def intro!: exI [of _ name] bexI [of _ b] dest: count_list_pos)
    next
      case False
      moreover have "branches body \<noteq> []" using branches_nonempty "3.prems" by simp
      ultimately show ?thesis using Inr s by (auto simp: outcome_def declared_def)
    qed
  qed
next
  case (9 a as acc)
  then have ih: "outcome (dupCheckNames a) [] (branches a)" by simp
  show ?case
  proof (cases "dupCheckNames a")
    case (Inl e)
    then show ?thesis using ih by (auto simp: outcome_def)
  next
    case (Inr s)
    then have s: "distinct s" "set s = declared (branches a)" "\<forall>b \<in> set (branches a). distinct b"
      using ih by (auto simp: outcome_def)
    have "distinct (acc @ filter (\<lambda>k. k \<notin> set acc) s)" using "9.prems" s(1) by auto
    from "9.IH"(2) [OF Inr _ this] "9.prems" s Inr show ?thesis
      by (auto simp: declared_def split: sum.splits)
  qed
next
  case (11 t ts acc)
  then show ?case using branches_nonempty products_nonempty [of "map branches ts"]
    by (intro dup_terms_step) (auto simp: list_all_iff)
qed (auto simp: outcome_def declared_def)

text \<open>
  C22: The duplicate-name check is exact. A tree is accepted exactly when no branch of it declares a
  name twice, and a rejection names a group name that some branch declares at least twice.
\<close>

theorem dup_names_exact:
  assumes "alts_nonempty n"
  shows "((\<exists>s. dupCheckNames n = Inr s) \<longleftrightarrow> (\<forall>b \<in> set (branches n). distinct b)) \<and>
    (\<forall>e. dupCheckNames n = Inl e \<longrightarrow> (\<exists>nm b. e = dup_err nm \<and> b \<in> set (branches n) \<and> 2 \<le> count_list b nm))"
  using dupCheck_outcome(1) [OF assms]
  by (cases "dupCheckNames n") (auto simp: outcome_def dest: distinct_count)

theorem dup_names_exact_witness:
  "\<exists>a b. (let n = Concat [Capture 1 a (Disjunction [Capture 2 b Empty, Capture 3 b Empty]), Capture 4 a Empty] in
     alts_nonempty n \<and> dupCheckNames n = Inl (dup_err a) \<and> (\<exists>x \<in> set (branches n). \<not> distinct x))"
proof -
  let ?n = "Concat [Capture 1 (str ''a'') (Disjunction [Capture 2 (str ''b'') Empty, Capture 3 (str ''b'') Empty]), Capture 4 (str ''a'') Empty]"
  have ok: "alts_nonempty ?n" by simp
  have e: "dupCheckNames ?n = Inl (dup_err (str ''a''))" by code_simp
  have "\<exists>x \<in> set (branches ?n). \<not> distinct x" using dup_names_exact [OF ok] e by auto
  then show ?thesis using ok e unfolding Let_def by blast
qed

end
