(* ===== verification/Regexp_Machine.thy ===== *)
theory Regexp_Machine
  imports Regexp_Ast
begin

text \<open>
  The machine of one match attempt (\<open>src/jsregexp/vm.go\<close>): the UTF-16 input, the capture slots,
  and the step, context and depth accounting that bounds untrusted patterns. A matcher is a
  function that runs from a position and calls a continuation; the Go closures mutate the
  machine in place, so here matchers and continuations take the machine and return it.

  Two error values have no counterpart in the Go \<open>error\<close>s: \<open>ErrPanic\<close> stands for the run-time
  panic of a capture index out of range, and \<open>ErrFuel\<close> for a loop of the model that was cut
  off. The development proves that neither arises.
\<close>

datatype match_err = ErrBudget | ErrCtx | ErrPanic | ErrFuel

text \<open>
  \<open>ctx\<close> is the caller's context: \<open>None\<close> is a nil context, \<open>Some f\<close> one whose \<open>Done\<close> channel is
  found closed when polled at step \<open>n\<close> iff \<open>f n\<close>. Positions are code-unit indices and never
  negative; capture slots hold \<open>-1\<close> when unset.
\<close>

record machine =
  input :: "int list"
  caps :: "int list"
  m_unicode :: bool
  ctx :: "(int \<Rightarrow> bool) option"
  steps :: int
  limit :: int
  depth :: int
  err :: "match_err option"

type_synonym cont = "nat \<Rightarrow> machine \<Rightarrow> bool \<times> machine"
type_synonym matcher = "machine \<Rightarrow> nat \<Rightarrow> cont \<Rightarrow> bool \<times> machine"

definition DefaultStepBudget :: int where
  "DefaultStepBudget = 10000000"

definition maxRecursionDepth :: int where
  "maxRecursionDepth = 60000"

definition fail_with :: "match_err \<Rightarrow> machine \<Rightarrow> bool \<times> machine" where
  "fail_with e m = (False, m\<lparr>err := Some e\<rparr>)"

definition enter :: "machine \<Rightarrow> bool \<times> machine" where
  "enter m =
     (if depth m \<ge> maxRecursionDepth then (False, m\<lparr>err := Some ErrBudget\<rparr>)
      else (True, m\<lparr>depth := depth m + 1\<rparr>))"

definition leave :: "machine \<Rightarrow> machine" where
  "leave m = m\<lparr>depth := depth m - 1\<rparr>"

definition step :: "machine \<Rightarrow> bool \<times> machine" where
  "step m =
     (let m1 = m\<lparr>steps := steps m + 1\<rparr> in
      if limit m1 > 0 \<and> steps m1 > limit m1 then (False, m1\<lparr>err := Some ErrBudget\<rparr>)
      else if steps m1 mod 0x4000 = 0 then
        (case ctx m1 of
           None \<Rightarrow> (True, m1)
         | Some done \<Rightarrow> if done (steps m1) then (False, m1\<lparr>err := Some ErrCtx\<rparr>) else (True, m1))
      else (True, m1))"

definition codePointAt :: "machine \<Rightarrow> nat \<Rightarrow> rune \<times> nat" where
  "codePointAt m sp =
     (let c = input m ! sp in
      if m_unicode m \<and> c \<ge> 0xD800 \<and> c \<le> 0xDBFF \<and> sp + 1 < length (input m) then
        let lo = input m ! (sp + 1) in
        if lo \<ge> 0xDC00 \<and> lo \<le> 0xDFFF
        then ((c - 0xD800) * 1024 + (lo - 0xDC00) + 0x10000, 2) else (c, 1)
      else (c, 1))"

definition codePointBefore :: "machine \<Rightarrow> nat \<Rightarrow> rune \<times> nat" where
  "codePointBefore m sp =
     (let c = input m ! (sp - 1) in
      if m_unicode m \<and> c \<ge> 0xDC00 \<and> c \<le> 0xDFFF \<and> sp \<ge> 2 then
        let hi = input m ! (sp - 2) in
        if hi \<ge> 0xD800 \<and> hi \<le> 0xDBFF
        then ((hi - 0xD800) * 1024 + (c - 0xDC00) + 0x10000, 2) else (c, 1)
      else (c, 1))"

subsection \<open>Capture slots\<close>

definition cloneRange :: "machine \<Rightarrow> int \<Rightarrow> int \<Rightarrow> int list" where
  "cloneRange m lo hi =
     (if lo > hi then [] else take (nat (2 * (hi - lo + 1))) (drop (nat (2 * lo)) (caps m)))"

definition setRange :: "machine \<Rightarrow> int \<Rightarrow> int \<Rightarrow> int list \<Rightarrow> machine" where
  "setRange m lo hi saved =
     (if lo > hi then m
      else m\<lparr>caps := take (nat (2 * lo)) (caps m) @ saved @ drop (nat (2 * hi + 2)) (caps m)\<rparr>)"

definition resetRange :: "machine \<Rightarrow> int \<Rightarrow> int \<Rightarrow> machine" where
  "resetRange m lo hi =
     (if lo > hi then m
      else m\<lparr>caps := take (nat (2 * lo)) (caps m) @ replicate (nat (2 * (hi - lo + 1))) (-1)
                       @ drop (nat (2 * hi + 2)) (caps m)\<rparr>)"

definition cloneAll :: "machine \<Rightarrow> int list" where
  "cloneAll m = caps m"

definition setAll :: "machine \<Rightarrow> int list \<Rightarrow> machine" where
  "setAll m saved = m\<lparr>caps := saved\<rparr>"

text \<open>Writing the two slots of one group.\<close>

definition setGroup :: "machine \<Rightarrow> nat \<Rightarrow> int \<Rightarrow> int \<Rightarrow> machine" where
  "setGroup m i s e = m\<lparr>caps := (caps m)[2 * i := s, 2 * i + 1 := e]\<rparr>"

text \<open>An index of \<open>m.caps\<close> out of range panics in Go.\<close>

definition group_in_range :: "machine \<Rightarrow> nat \<Rightarrow> bool" where
  "group_in_range m i \<longleftrightarrow> 2 * i + 1 < length (caps m)"

end
