(* ===== verification/Regexp_Compiler.thy ===== *)
theory Regexp_Compiler
  imports Regexp_Machine
begin

text \<open>
  The compiler from pattern trees to matchers (\<open>src/jsregexp/compiler.go\<close>, \<open>vstrings.go\<close>) and
  the search that runs them (\<open>FindSubmatchIndex\<close> in \<open>vm.go\<close>). Each Go closure is a HOL function of
  the machine, a position and a continuation. Property escapes are resolved by a function the
  compiler is given (\<open>resolveProperty\<close> and \<open>propertyOfStrings\<close> look names up in generated Unicode
  tables).
\<close>

subsection \<open>Code-point sets with strings\<close>

record charSetV =
  cset :: runeSet
  cstrings :: "rune list list"

definition emptySet :: runeSet where
  "emptySet = \<lparr>ranges = []\<rparr>"

fun dedup_from :: "go_string list \<Rightarrow> rune list list \<Rightarrow> rune list list" where
  "dedup_from seen [] = []"
| "dedup_from seen (s # ss) =
     (if string_of_runes s \<in> set seen then dedup_from seen ss
      else s # dedup_from (string_of_runes s # seen) ss)"

definition dedupStrings :: "rune list list \<Rightarrow> rune list list" where
  "dedupStrings ss = dedup_from [] ss"

definition stringInList :: "rune list list \<Rightarrow> rune list \<Rightarrow> bool" where
  "stringInList xs s = list_ex (\<lambda>t. string_of_runes t = string_of_runes s) xs"

subsection \<open>The compiler's context\<close>

record unicode_env =
  udb :: unicode_db
  resolveProperty :: "go_string \<Rightarrow> go_string \<Rightarrow> SyntaxError + runeSet"
  propertyOfStrings :: "go_string \<Rightarrow> charSetV option"

record compiler =
  cnames :: group_names
  ic :: bool
  ml :: bool
  da :: bool
  cu :: bool
  backw :: bool

type_synonym unitConsumer = "machine \<Rightarrow> nat \<Rightarrow> nat option"

subsection \<open>Single characters\<close>

definition readCP :: "compiler \<Rightarrow> machine \<Rightarrow> nat \<Rightarrow> (rune \<times> nat) option" where
  "readCP c m sp =
     (if backw c then
        if sp = 0 then None
        else let (r, w) = codePointBefore m sp in Some (r, sp - w)
      else if sp \<ge> length (input m) then None
      else let (r, w) = codePointAt m sp in Some (r, sp + w))"

text \<open>\<open>utf16.EncodeRune\<close> of the standard library.\<close>

definition EncodeRune :: "rune \<Rightarrow> int \<times> int" where
  "EncodeRune r =
     (if 0x10000 \<le> r \<and> r \<le> 0x10FFFF
      then (0xD800 + (r - 0x10000) div 1024, 0xDC00 + (r - 0x10000) mod 1024)
      else (0xFFFD, 0xFFFD))"

definition charConsumer :: "unicode_env \<Rightarrow> compiler \<Rightarrow> rune \<Rightarrow> unitConsumer" where
  "charConsumer ue c r =
     (if \<not> cu c \<and> r > 0xFFFF then
        let (hi, lo) = EncodeRune r in
        if backw c then
          (\<lambda>m sp. if sp \<ge> 2 \<and> input m ! (sp - 2) = hi \<and> input m ! (sp - 1) = lo then Some (sp - 2) else None)
        else
          (\<lambda>m sp. if sp + 1 < length (input m) \<and> input m ! sp = hi \<and> input m ! (sp + 1) = lo
                  then Some (sp + 2) else None)
      else
        let cr = canonicalize (udb ue) r (cu c) in
        (\<lambda>m sp. case readCP c m sp of
             None \<Rightarrow> None
           | Some (x, next) \<Rightarrow>
               if x = r \<or> (ic c \<and> canonicalize (udb ue) x (cu c) = cr) then Some next else None))"

definition anyConsumer :: "compiler \<Rightarrow> unitConsumer" where
  "anyConsumer c = (\<lambda>m sp. case readCP c m sp of
       None \<Rightarrow> None
     | Some (r, next) \<Rightarrow> if da c \<or> \<not> isLineTerminator r then Some next else None)"

definition classConsumer :: "unicode_env \<Rightarrow> compiler \<Rightarrow> runeSet \<Rightarrow> bool \<Rightarrow> unitConsumer" where
  "classConsumer ue c s negate = (\<lambda>m sp. case readCP c m sp of
       None \<Rightarrow> None
     | Some (r, next) \<Rightarrow>
         if classContainsFold (udb ue) s r (ic c) (cu c) \<noteq> negate then Some next else None)"

definition consumerMatcher :: "unitConsumer \<Rightarrow> matcher" where
  "consumerMatcher cons = (\<lambda>m sp k.
     if err m \<noteq> None then (False, m)
     else let (ok, m1) = step m in
       if \<not> ok then (False, m1)
       else case cons m1 sp of Some np \<Rightarrow> k np m1 | None \<Rightarrow> (False, m1))"

definition charMatcher :: "unicode_env \<Rightarrow> compiler \<Rightarrow> rune \<Rightarrow> matcher" where
  "charMatcher ue c r = consumerMatcher (charConsumer ue c r)"

subsection \<open>Assertions\<close>

definition isWord :: "bool \<Rightarrow> int list \<Rightarrow> int \<Rightarrow> bool" where
  "isWord fld units i =
     (if i < 0 \<or> i \<ge> int (length units) then False else wordCharFold (units ! nat i) fld)"

definition assertion_holds :: "compiler \<Rightarrow> AssertKind \<Rightarrow> int list \<Rightarrow> nat \<Rightarrow> bool" where
  "assertion_holds c kind inp sp =
     (let fld = (ic c \<and> cu c);
          boundary = (isWord fld inp (int sp - 1) \<noteq> isWord fld inp (int sp)) in
      case kind of
        AssertBOL \<Rightarrow> sp = 0 \<or> (ml c \<and> isLineTerminator (inp ! (sp - 1)))
      | AssertEOL \<Rightarrow> sp = length inp \<or> (ml c \<and> isLineTerminator (inp ! sp))
      | AssertWordB \<Rightarrow> boundary
      | AssertNotWordB \<Rightarrow> \<not> boundary)"

definition assertionMatcher :: "compiler \<Rightarrow> AssertKind \<Rightarrow> matcher" where
  "assertionMatcher c kind = (\<lambda>m sp k.
     if err m \<noteq> None then (False, m)
     else let (ok, m1) = step m in
       if \<not> ok then (False, m1)
       else if assertion_holds c kind (input m1) sp then k sp m1 else (False, m1))"

subsection \<open>Character classes\<close>

definition single_set :: "setBuilder \<Rightarrow> charSetV" where
  "single_set b = \<lparr>cset = build b, cstrings = []\<rparr>"

definition union_sets :: "charSetV list \<Rightarrow> charSetV" where
  "union_sets ops =
     \<lparr>cset = build \<lparr>sb_ranges = concat (map (\<lambda>s. ranges (cset s)) ops)\<rparr>,
      cstrings = dedupStrings (concat (map cstrings ops))\<rparr>"

definition intersect_sets :: "charSetV \<Rightarrow> charSetV \<Rightarrow> charSetV" where
  "intersect_sets acc s =
     \<lparr>cset = intersect (cset acc) (cset s),
      cstrings = filter (stringInList (cstrings s)) (cstrings acc)\<rparr>"

definition subtract_sets :: "charSetV \<Rightarrow> charSetV \<Rightarrow> charSetV" where
  "subtract_sets acc s =
     \<lparr>cset = subtract (cset acc) (cset s),
      cstrings = filter (\<lambda>x. \<not> stringInList (cstrings s) x) (cstrings acc)\<rparr>"

definition combine_sets :: "SetOp \<Rightarrow> charSetV list \<Rightarrow> charSetV" where
  "combine_sets op ops =
     (case ops of
        [] \<Rightarrow> \<lparr>cset = emptySet, cstrings = []\<rparr>
      | s # ss \<Rightarrow>
          (case op of
             SetIntersection \<Rightarrow> foldl intersect_sets s ss
           | SetSubtraction \<Rightarrow> foldl subtract_sets s ss
           | SetUnion \<Rightarrow> union_sets ops))"

fun string_disjunction :: "rune list list \<Rightarrow> setBuilder \<Rightarrow> rune list list \<Rightarrow> charSetV" where
  "string_disjunction [] b strs = \<lparr>cset = build b, cstrings = strs\<rparr>"
| "string_disjunction (alt # alts) b strs =
     (case alt of
        [r] \<Rightarrow> string_disjunction alts (addRune b r) strs
      | _ \<Rightarrow> string_disjunction alts b (strs @ [alt]))"

fun compileClassSet :: "unicode_env \<Rightarrow> compiler \<Rightarrow> ClassSet \<Rightarrow> SyntaxError + charSetV"
  and operand :: "unicode_env \<Rightarrow> compiler \<Rightarrow> ClassItem \<Rightarrow> SyntaxError + charSetV"
  and operands :: "unicode_env \<Rightarrow> compiler \<Rightarrow> ClassItem list \<Rightarrow> SyntaxError + charSetV list" where
  "compileClassSet ue c (ClassSet op items) =
     res_bind (operands ue c items) (\<lambda>ops. Inr (combine_sets op ops))"
| "operand ue c (ClassRange lo hi) = Inr (single_set (addRange empty_builder lo hi))"
| "operand ue c (ClassEscape k) = Inr (single_set (addClassEscape empty_builder k (ic c \<and> cu c)))"
| "operand ue c (ClassProperty name value neg) =
     (case resolveProperty ue name value of
        Inl e \<Rightarrow>
          (case propertyOfStrings ue name of
             Some pos \<Rightarrow>
               if value = [] then
                 if neg then Inl \<lparr>Msg = str ''negated property of strings'', Pos = -1\<rparr> else Inr pos
               else Inl e
           | None \<Rightarrow> Inl e)
      | Inr s \<Rightarrow>
          if neg then Inr (single_set (addComplement empty_builder (ranges s)))
          else Inr \<lparr>cset = s, cstrings = []\<rparr>)"
| "operand ue c (ClassString rs) =
     (case rs of
        [r] \<Rightarrow> Inr (single_set (addRune empty_builder r))
      | _ \<Rightarrow> Inr \<lparr>cset = emptySet, cstrings = [rs]\<rparr>)"
| "operand ue c (ClassStringDisjunction alts) = Inr (string_disjunction alts empty_builder [])"
| "operand ue c (NestedClass neg s) =
     res_bind (compileClassSet ue c s) (\<lambda>inner.
       if neg then
         if cstrings inner \<noteq> [] then
           Inl \<lparr>Msg = str ''negated character class may contain strings'', Pos = -1\<rparr>
         else Inr (single_set (addComplement empty_builder (ranges (cset inner))))
       else Inr inner)"
| "operands ue c [] = Inr []"
| "operands ue c (x # xs) =
     res_bind (operand ue c x) (\<lambda>s. res_bind (operands ue c xs) (\<lambda>ss. Inr (s # ss)))"

fun matchStringAt :: "unicode_env \<Rightarrow> bool \<Rightarrow> bool \<Rightarrow> machine \<Rightarrow> nat \<Rightarrow> rune list \<Rightarrow> nat option" where
  "matchStringAt ue icf u m i [] = Some i"
| "matchStringAt ue icf u m i (r # rs) =
     (if i \<ge> length (input m) then None
      else let (x, w) = codePointAt m i in
        if x \<noteq> r \<and> \<not> (icf \<and> canonicalize (udb ue) x u = canonicalize (udb ue) r u) then None
        else matchStringAt ue icf u m (i + w) rs)"

fun try_strings :: "unicode_env \<Rightarrow> bool \<Rightarrow> bool \<Rightarrow> nat \<Rightarrow> cont \<Rightarrow> rune list list \<Rightarrow> machine \<Rightarrow> bool \<times> machine" where
  "try_strings ue icf u sp k [] m = (False, m)"
| "try_strings ue icf u sp k (s # ss) m =
     (case matchStringAt ue icf u m sp s of
        None \<Rightarrow> try_strings ue icf u sp k ss m
      | Some np \<Rightarrow>
          (let (b, m1) = k np m in if b then (True, m1) else try_strings ue icf u sp k ss m1))"

text \<open>\<open>sort.SliceStable\<close> by descending length: a stable sort by the negated length.\<close>

definition longest_first :: "rune list list \<Rightarrow> rune list list" where
  "longest_first ss = sort_key (\<lambda>s. - int (length s)) ss"

definition classStringMatcher :: "unicode_env \<Rightarrow> compiler \<Rightarrow> charSetV \<Rightarrow> matcher" where
  "classStringMatcher ue c cs = (\<lambda>m sp k.
     if err m \<noteq> None then (False, m)
     else let (ok, m1) = step m in
       if \<not> ok then (False, m1)
       else let (b, m2) = try_strings ue (ic c) (cu c) sp k (longest_first (cstrings cs)) m1 in
         if b then (True, m2)
         else if sp < length (input m2) then
           let (r, w) = codePointAt m2 sp in
           if classContainsFold (udb ue) (cset cs) r (ic c) (cu c) then k (sp + w) m2 else (False, m2)
         else (False, m2))"

definition classMatcher :: "unicode_env \<Rightarrow> compiler \<Rightarrow> bool \<Rightarrow> ClassSet \<Rightarrow> SyntaxError + matcher" where
  "classMatcher ue c negate s =
     res_bind (compileClassSet ue c s) (\<lambda>cs.
       if cstrings cs \<noteq> [] then
         if negate then Inl \<lparr>Msg = str ''negated character class may contain strings'', Pos = -1\<rparr>
         else Inr (classStringMatcher ue c cs)
       else Inr (consumerMatcher (classConsumer ue c (cset cs) negate)))"

definition simpleConsumer :: "unicode_env \<Rightarrow> compiler \<Rightarrow> Node \<Rightarrow> unitConsumer option" where
  "simpleConsumer ue c n =
     (case n of
        CharN r \<Rightarrow> Some (charConsumer ue c r)
      | AnyChar \<Rightarrow> Some (anyConsumer c)
      | CharClass negate s \<Rightarrow>
          (case compileClassSet ue c s of
             Inl e \<Rightarrow> None
           | Inr cs \<Rightarrow> if cstrings cs \<noteq> [] then None else Some (classConsumer ue c (cset cs) negate))
      | _ \<Rightarrow> None)"

subsection \<open>Sequence, choice, capture\<close>

fun concat_run :: "matcher list \<Rightarrow> cont \<Rightarrow> machine \<Rightarrow> nat \<Rightarrow> bool \<times> machine" where
  "concat_run [] k m sp = (if err m \<noteq> None then (False, m) else k sp m)"
| "concat_run (x # xs) k m sp =
     (if err m \<noteq> None then (False, m)
      else let (ok, m1) = enter m in
        if \<not> ok then (False, m1)
        else let (b, m2) = x m1 sp (\<lambda>sp2 m'. concat_run xs k m' sp2) in (b, leave m2))"

definition concat_matcher :: "compiler \<Rightarrow> matcher list \<Rightarrow> matcher" where
  "concat_matcher c ms = (\<lambda>m sp k. concat_run (if backw c then rev ms else ms) k m sp)"

fun disjunction_run :: "matcher list \<Rightarrow> nat \<Rightarrow> cont \<Rightarrow> machine \<Rightarrow> bool \<times> machine" where
  "disjunction_run [] sp k m = (False, m)"
| "disjunction_run (x # xs) sp k m =
     (if err m \<noteq> None then (False, m)
      else let (b, m1) = x m sp k in if b then (True, m1) else disjunction_run xs sp k m1)"

definition capture_matcher :: "compiler \<Rightarrow> nat \<Rightarrow> matcher \<Rightarrow> matcher" where
  "capture_matcher c i body = (\<lambda>m sp k.
     if \<not> group_in_range m i then fail_with ErrPanic m
     else
       let oldS = caps m ! (2 * i); oldE = caps m ! (2 * i + 1);
           (ok, m1) = body m sp (\<lambda>end m'.
             let ps = caps m' ! (2 * i); pe = caps m' ! (2 * i + 1);
                 m2 = (if backw c then setGroup m' i (int end) (int sp) else setGroup m' i (int sp) (int end));
                 (b, m3) = k end m2
             in if b then (True, m3) else (False, setGroup m3 i ps pe))
       in if ok then (True, m1) else (False, setGroup m1 i oldS oldE))"

subsection \<open>Back references\<close>

text \<open>
  The case-insensitive comparisons: forward, \<open>i\<close> runs over the input from the match position
  and \<open>j\<close> over the captured text up to \<open>e\<close>; backward, both run leftwards and \<open>j\<close> stops at \<open>s\<close>.
  The result is the position after the reference, \<open>None\<close> on a mismatch.
\<close>

lemma width_pos: "0 < snd (codePointAt m sp)" "0 < snd (codePointBefore m sp)"
  by (simp_all add: codePointAt_def codePointBefore_def Let_def)

function ref_fold_fwd :: "unicode_env \<Rightarrow> bool \<Rightarrow> machine \<Rightarrow> nat \<Rightarrow> nat \<Rightarrow> nat \<Rightarrow> nat option" where
  "ref_fold_fwd ue u m e i j =
     (if j < e then
        if i \<ge> length (input m) then None
        else
          let (ri, wi) = codePointAt m i; (rj, wj) = codePointAt m j in
          if canonicalize (udb ue) ri u \<noteq> canonicalize (udb ue) rj u then None
          else ref_fold_fwd ue u m e (i + wi) (j + wj)
      else Some i)"
  by pat_completeness auto
termination
proof (relation "measure (\<lambda>(ue, u, m, e, i, j). e - j)", goal_cases)
  case (2 ue u m e i j x ri wi y rj wj)
  then show ?case using width_pos(1) [of m j] by (cases "codePointAt m j") auto
qed simp

function ref_fold_back :: "unicode_env \<Rightarrow> bool \<Rightarrow> machine \<Rightarrow> int \<Rightarrow> nat \<Rightarrow> int \<Rightarrow> nat option" where
  "ref_fold_back ue u m s i j =
     (if j > s \<and> j > 0 then
        if i = 0 then None
        else
          let (ri, wi) = codePointBefore m i; (rj, wj) = codePointBefore m (nat j) in
          if canonicalize (udb ue) ri u \<noteq> canonicalize (udb ue) rj u then None
          else ref_fold_back ue u m s (i - wi) (j - int wj)
      else Some i)"
  by pat_completeness auto
termination
proof (relation "measure (\<lambda>(ue, u, m, s, i, j). nat j)", goal_cases)
  case (2 ue u m s i j x ri wi y rj wj)
  then show ?case using width_pos(2) [of m "nat j"] by (cases "codePointBefore m (nat j)") auto
qed simp

declare ref_fold_fwd.simps [simp del] ref_fold_back.simps [simp del]

definition ref_end :: "unicode_env \<Rightarrow> compiler \<Rightarrow> machine \<Rightarrow> int \<Rightarrow> int \<Rightarrow> nat \<Rightarrow> nat option" where
  "ref_end ue c m s e sp =
     (if backw c then
        if \<not> ic c then
          if int sp - (e - s) < 0 then None
          else if \<forall>x \<in> set [0 ..< nat (e - s)].
              input m ! (nat (int sp - (e - s)) + x) = input m ! (nat s + x)
            then Some (nat (int sp - (e - s))) else None
        else ref_fold_back ue (cu c) m s sp e
      else if \<not> ic c then
        if int sp + (e - s) > int (length (input m)) then None
        else if \<forall>x \<in> set [0 ..< nat (e - s)]. input m ! (sp + x) = input m ! (nat s + x)
          then Some (nat (int sp + (e - s))) else None
      else ref_fold_fwd ue (cu c) m (nat e) sp (nat s))"

definition refMatcher ::
  "unicode_env \<Rightarrow> compiler \<Rightarrow> (machine \<Rightarrow> (int \<times> int) option) \<Rightarrow> matcher" where
  "refMatcher ue c resolve = (\<lambda>m sp k.
     if err m \<noteq> None then (False, m)
     else let (ok, m1) = step m in
       if \<not> ok then (False, m1)
       else case resolve m1 of
         None \<Rightarrow> fail_with ErrPanic m1
       | Some (s, e) \<Rightarrow>
           if s < 0 \<or> e < 0 then k sp m1
           else case ref_end ue c m1 s e sp of
             None \<Rightarrow> (False, m1)
           | Some np \<Rightarrow> k np m1)"

definition backref_span :: "nat \<Rightarrow> machine \<Rightarrow> (int \<times> int) option" where
  "backref_span i m =
     (if group_in_range m i then Some (caps m ! (2 * i), caps m ! (2 * i + 1)) else None)"

fun namedBackref_span :: "nat list \<Rightarrow> machine \<Rightarrow> (int \<times> int) option" where
  "namedBackref_span [] m = Some (-1, -1)"
| "namedBackref_span (i # is) m =
     (if \<not> group_in_range m i then None
      else if caps m ! (2 * i) \<ge> 0 then Some (caps m ! (2 * i), caps m ! (2 * i + 1))
      else namedBackref_span is m)"

definition backref :: "unicode_env \<Rightarrow> compiler \<Rightarrow> nat \<Rightarrow> matcher" where
  "backref ue c i = refMatcher ue c (backref_span i)"

definition namedBackref :: "unicode_env \<Rightarrow> compiler \<Rightarrow> nat list \<Rightarrow> matcher" where
  "namedBackref ue c idxs = refMatcher ue c (namedBackref_span idxs)"

subsection \<open>Quantifiers\<close>

text \<open>
  \<open>repeat\<close> of the general path. Every call enters one level of \<open>m.depth\<close>, which is capped at
  \<open>maxRecursionDepth\<close>; the fuel of the model is one more than the cap, so the depth guard trips
  first (theorem on fuel in \<open>Regexp_Safety\<close>).
\<close>

definition repeat_fuel :: int where
  "repeat_fuel = 60001"

function repeat_run :: "int \<Rightarrow> matcher \<Rightarrow> int \<Rightarrow> int \<Rightarrow> bool \<Rightarrow> cont \<Rightarrow> nat \<Rightarrow> int \<Rightarrow> nat \<Rightarrow> machine \<Rightarrow> bool \<times> machine" where
  "repeat_run fuel body lo hi greedy k mn mx x m =
     (if fuel \<le> 0 then fail_with ErrFuel m
      else if err m \<noteq> None then (False, m)
      else let (ok, m1) = step m in
        if \<not> ok then (False, m1)
        else let (ok2, m2) = enter m1 in
          if \<not> ok2 then (False, m2)
          else let (b, m') =
            (if mx = 0 then k x m2
             else if lo \<le> hi \<and> \<not> group_in_range m2 (nat hi) then fail_with ErrPanic m2
             else
               let d = (\<lambda>y m3.
                     if mn = 0 \<and> y = x then (False, m3)
                     else repeat_run (fuel - 1) body lo hi greedy k (mn - 1)
                       (if mx > 0 then mx - 1 else mx) y m3);
                   saved = cloneRange m2 lo hi;
                   m3 = resetRange m2 lo hi
               in if mn \<noteq> 0 then
                    let (b, m4) = body m3 x d in
                    if b then (True, m4) else (False, setRange m4 lo hi saved)
                  else if greedy then
                    let (b, m4) = body m3 x d in
                    if b then (True, m4) else k x (setRange m4 lo hi saved)
                  else
                    let (b, m4) = k x (setRange m3 lo hi saved) in
                    if b then (True, m4)
                    else let (b, m5) = body (resetRange m4 lo hi) x d in
                      if b then (True, m5) else (False, setRange m5 lo hi saved))
            in (b, leave m'))"
  by pat_completeness auto
termination
  by (relation "measure (\<lambda>(fuel, _). nat fuel)") auto

declare repeat_run.simps [simp del]

text \<open>
  The iterative path for one-character bodies: collect the positions after each repetition, then
  try the continuation from the longest (greedy) or the shortest (lazy). A one-character
  consumer always moves in its direction, so the fuel \<open>sp + length (input m) + 1\<close> is never used up.
\<close>

fun collect_positions :: "nat \<Rightarrow> unitConsumer \<Rightarrow> int \<Rightarrow> nat \<Rightarrow> nat list \<Rightarrow> machine \<Rightarrow> nat list option \<times> machine" where
  "collect_positions fuel cons mx cur positions m =
     (if mx < 0 \<or> int (length positions) - 1 < mx then
        if fuel = 0 then (None, m\<lparr>err := Some ErrFuel\<rparr>)
        else let (ok, m1) = step m in
          if \<not> ok then (None, m1)
          else case cons m1 cur of
            None \<Rightarrow> (Some positions, m1)
          | Some np \<Rightarrow>
              if np = cur then (Some positions, m1)
              else collect_positions (fuel - 1) cons mx np (positions @ [np]) m1
      else (Some positions, m))"

declare collect_positions.simps [simp del]

fun try_positions :: "cont \<Rightarrow> nat list \<Rightarrow> machine \<Rightarrow> bool \<times> machine" where
  "try_positions k [] m = (False, m)"
| "try_positions k (p # ps) m =
     (let (b, m1) = k p m in
      if b then (True, m1) else if err m1 \<noteq> None then (False, m1) else try_positions k ps m1)"

definition simpleQuantifier :: "unitConsumer \<Rightarrow> nat \<Rightarrow> int \<Rightarrow> bool \<Rightarrow> matcher" where
  "simpleQuantifier cons mn mx greedy = (\<lambda>m sp k.
     if err m \<noteq> None then (False, m)
     else case collect_positions (sp + length (input m) + 1) cons mx sp [sp] m of
       (None, m1) \<Rightarrow> (False, m1)
     | (Some positions, m1) \<Rightarrow>
         if length positions - 1 < mn then (False, m1)
         else try_positions k (if greedy then rev (drop mn positions) else drop mn positions) m1)"

fun captureRange_walk :: "Node \<Rightarrow> int \<times> int \<Rightarrow> int \<times> int"
  and captureRange_walks :: "Node list \<Rightarrow> int \<times> int \<Rightarrow> int \<times> int" where
  "captureRange_walk (Capture i name body) (lo, hi) =
     captureRange_walk body (if int i < lo then int i else lo, if int i > hi then int i else hi)"
| "captureRange_walk (Group mods body) r = captureRange_walk body r"
| "captureRange_walk (Quantifier mn mx g body) r = captureRange_walk body r"
| "captureRange_walk (Lookaround bh ng body) r = captureRange_walk body r"
| "captureRange_walk (Concat ts) r = captureRange_walks ts r"
| "captureRange_walk (Disjunction ts) r = captureRange_walks ts r"
| "captureRange_walk n r = r"
| "captureRange_walks [] r = r"
| "captureRange_walks (t # ts) r = captureRange_walks ts (captureRange_walk t r)"

definition captureRange :: "Node \<Rightarrow> int \<times> int" where
  "captureRange n = captureRange_walk n (1073741824, 0)"

definition quantifier_matcher :: "Node \<Rightarrow> nat \<Rightarrow> int \<Rightarrow> bool \<Rightarrow> matcher \<Rightarrow> matcher" where
  "quantifier_matcher n mn mx greedy body =
     (let (lo, hi) = captureRange n in
      (\<lambda>m sp k. repeat_run repeat_fuel body lo hi greedy k mn mx sp m))"

subsection \<open>Lookaround and modifiers\<close>

definition look_pos :: "matcher \<Rightarrow> matcher" where
  "look_pos body = (\<lambda>m sp k.
     if err m \<noteq> None then (False, m)
     else
       let saved = cloneAll m; (found, m1) = body m sp (\<lambda>_ m'. (True, m')) in
       if \<not> found then (False, setAll m1 saved)
       else let (b, m2) = k sp m1 in if b then (True, m2) else (False, setAll m2 saved))"

definition look_neg :: "matcher \<Rightarrow> matcher" where
  "look_neg body = (\<lambda>m sp k.
     if err m \<noteq> None then (False, m)
     else
       let saved = cloneAll m; (found, m1) = body m sp (\<lambda>_ m'. (True, m')); m2 = setAll m1 saved in
       if found then (False, m2) else k sp m2)"

definition withModifiers :: "compiler \<Rightarrow> Modifiers \<Rightarrow> compiler" where
  "withModifiers c mods =
     (let c = (if AddI mods then c\<lparr>ic := True\<rparr> else c);
          c = (if SubI mods then c\<lparr>ic := False\<rparr> else c);
          c = (if AddM mods then c\<lparr>ml := True\<rparr> else c);
          c = (if SubM mods then c\<lparr>ml := False\<rparr> else c);
          c = (if AddS mods then c\<lparr>da := True\<rparr> else c);
          c = (if SubS mods then c\<lparr>da := False\<rparr> else c)
      in c)"

subsection \<open>Compiling a node\<close>

fun node :: "unicode_env \<Rightarrow> compiler \<Rightarrow> Node \<Rightarrow> SyntaxError + matcher"
  and nodes :: "unicode_env \<Rightarrow> compiler \<Rightarrow> Node list \<Rightarrow> SyntaxError + matcher list" where
  "node ue c Empty = Inr (\<lambda>m sp k. k sp m)"
| "node ue c (CharN r) = Inr (charMatcher ue c r)"
| "node ue c AnyChar = Inr (consumerMatcher (anyConsumer c))"
| "node ue c (Assertion kind) = Inr (assertionMatcher c kind)"
| "node ue c (CharClass negate s) = classMatcher ue c negate s"
| "node ue c (Concat ts) = res_bind (nodes ue c ts) (\<lambda>ms. Inr (concat_matcher c ms))"
| "node ue c (Disjunction ts) =
     res_bind (nodes ue c ts) (\<lambda>ms. Inr (\<lambda>m sp k. disjunction_run ms sp k m))"
| "node ue c (Capture i name body) =
     res_bind (node ue c body) (\<lambda>b. Inr (capture_matcher c i b))"
| "node ue c (Group mods body) =
     (case mods of
        Some md \<Rightarrow> node ue (withModifiers c md) body
      | None \<Rightarrow> node ue c body)"
| "node ue c (Quantifier mn mx greedy body) =
     (case simpleConsumer ue c body of
        Some cons \<Rightarrow> Inr (simpleQuantifier cons mn mx greedy)
      | None \<Rightarrow> res_bind (node ue c body) (\<lambda>b. Inr (quantifier_matcher body mn mx greedy b)))"
| "node ue c (BackRef i) = Inr (backref ue c i)"
| "node ue c (NamedBackRef name) =
     (case map_of (cnames c) name of
        None \<Rightarrow> Inl \<lparr>Msg = str ''reference to undefined named group '' @ name, Pos = -1\<rparr>
      | Some idxs \<Rightarrow>
          if idxs = [] then Inl \<lparr>Msg = str ''reference to undefined named group '' @ name, Pos = -1\<rparr>
          else Inr (namedBackref ue c idxs))"
| "node ue c (Lookaround behind negate body) =
     res_bind (node ue (c\<lparr>backw := behind\<rparr>) body) (\<lambda>b.
       Inr (if negate then look_neg b else look_pos b))"
| "nodes ue c [] = Inr []"
| "nodes ue c (t # ts) =
     res_bind (node ue c t) (\<lambda>x. res_bind (nodes ue c ts) (\<lambda>xs. Inr (x # xs)))"

subsection \<open>Programs and the search\<close>

record prog =
  entry :: matcher
  numGroups :: nat
  pflags :: Flags
  punicode :: bool

definition initial_compiler :: "Flags \<Rightarrow> group_names \<Rightarrow> compiler" where
  "initial_compiler f names =
     \<lparr>cnames = names, ic = IgnoreCase f, ml = Multiline f, da = DotAll f, cu = UnicodeMode f,
      backw = False\<rparr>"

definition compile :: "unicode_env \<Rightarrow> Pattern \<Rightarrow> SyntaxError + prog" where
  "compile ue pat =
     res_bind (node ue (initial_compiler (PFlags pat) (GroupNames pat)) (Body pat)) (\<lambda>e.
       Inr \<lparr>entry = e, numGroups = GroupCount pat, pflags = PFlags pat,
            punicode = UnicodeMode (PFlags pat)\<rparr>)"

definition nextStart :: "machine \<Rightarrow> nat \<Rightarrow> nat" where
  "nextStart m at =
     (if m_unicode m \<and> at < length (input m) \<and> input m ! at \<ge> 0xD800 \<and> input m ! at \<le> 0xDBFF
         \<and> at + 1 < length (input m) \<and> input m ! (at + 1) \<ge> 0xDC00 \<and> input m ! (at + 1) \<le> 0xDFFF
      then at + 2 else at + 1)"

definition attempt :: "prog \<Rightarrow> machine \<Rightarrow> nat \<Rightarrow> bool \<times> machine" where
  "attempt p m at =
     (let m1 = m\<lparr>caps := (replicate (length (caps m)) (-1))[0 := int at], depth := 0\<rparr>
      in entry p m1 at (\<lambda>end m'. (True, m'\<lparr>caps := (caps m')[1 := int end]\<rparr>)))"

text \<open>
  The loop of \<open>FindSubmatchIndex\<close>. The anchor advances by \<open>nextStart\<close>, at least one unit; the
  input never changes, so the loop runs at most once per position.
\<close>

function find_loop ::
  "prog \<Rightarrow> nat \<Rightarrow> machine \<Rightarrow> nat \<Rightarrow> (match_err + int list option) \<times> machine" where
  "find_loop p len m at =
     (if at \<le> len then
        let (ok, m1) = step m in
        if \<not> ok then (Inl (case err m1 of Some e \<Rightarrow> e | None \<Rightarrow> ErrPanic), m1)
        else
          let (matched, m2) = attempt p m1 at in
          (case err m2 of
             Some e \<Rightarrow> (Inl e, m2)
           | None \<Rightarrow>
               if matched then (Inr (Some (caps m2)), m2)
               else if Sticky (pflags p) then (Inr None, m2)
               else find_loop p len m2 (nextStart m2 at))
      else (Inr None, m))"
  by pat_completeness auto
termination
  by (relation "measure (\<lambda>(p, len, m, at). len + 1 - at)") (auto simp: nextStart_def)

declare find_loop.simps [simp del]

definition initial_machine ::
  "prog \<Rightarrow> int \<Rightarrow> (int \<Rightarrow> bool) option \<Rightarrow> int list \<Rightarrow> machine" where
  "initial_machine p lim cx inp =
     \<lparr>input = inp, caps = replicate (2 * (numGroups p + 1)) 0, m_unicode = punicode p, ctx = cx,
      steps = 0, limit = lim, depth = 0, err = None\<rparr>"

definition FindSubmatchIndex ::
  "prog \<Rightarrow> int \<Rightarrow> (int \<Rightarrow> bool) option \<Rightarrow> int list \<Rightarrow> nat \<Rightarrow> match_err + int list option" where
  "FindSubmatchIndex p lim cx inp start =
     fst (find_loop p (length inp) (initial_machine p lim cx inp) start)"

subsection \<open>A concrete environment\<close>

text \<open>ASCII case tables and no Unicode properties: what the examples run on.\<close>

definition ascii_env :: unicode_env where
  "ascii_env = \<lparr>udb = ascii_db,
     resolveProperty = (\<lambda>name value. Inl \<lparr>Msg = str ''unknown Unicode property'', Pos = -1\<rparr>),
     propertyOfStrings = (\<lambda>name. None)\<rparr>"

end
