(* ===== verification/Regexp_Safety.thy ===== *)
theory Regexp_Safety
  imports Regexp_Compiler
begin

text \<open>
  What every compiled matcher preserves. The locale \<open>machine_invariant\<close> states which primitive
  moves of the machine (step, enter, leave, writing capture slots, recording an error) keep a
  predicate; its main lemma is that then every matcher the compiler builds keeps it, for every
  continuation that does. The interpretations give the budget bound, the immutability of the
  input, the persistence of errors, and the absence of capture-index panics. A second induction
  shows that the fuel of the model is never used up.
\<close>

subsection \<open>Scoped patterns\<close>

text \<open>Every capture index that a pattern reads or writes satisfies \<open>sc\<close>.\<close>

fun node_scoped :: "(nat \<Rightarrow> bool) \<Rightarrow> group_names \<Rightarrow> Node \<Rightarrow> bool" where
  "node_scoped sc names (Disjunction ts) \<longleftrightarrow> list_all (node_scoped sc names) ts"
| "node_scoped sc names (Concat ts) \<longleftrightarrow> list_all (node_scoped sc names) ts"
| "node_scoped sc names (Lookaround bh ng b) \<longleftrightarrow> node_scoped sc names b"
| "node_scoped sc names (Capture i nm b) \<longleftrightarrow> sc i \<and> node_scoped sc names b"
| "node_scoped sc names (Group md b) \<longleftrightarrow> node_scoped sc names b"
| "node_scoped sc names (BackRef i) \<longleftrightarrow> sc i"
| "node_scoped sc names (NamedBackRef nm) \<longleftrightarrow>
     (\<forall>idxs. map_of names nm = Some idxs \<longrightarrow> list_all sc idxs)"
| "node_scoped sc names (Quantifier mn mx g b) \<longleftrightarrow> node_scoped sc names b"
| "node_scoped sc names n \<longleftrightarrow> True"

text \<open>The range \<open>captureRange\<close> computes: empty, or bounded by capture indices of the node.\<close>

definition range_scoped :: "(nat \<Rightarrow> bool) \<Rightarrow> int \<times> int \<Rightarrow> bool" where
  "range_scoped sc r \<longleftrightarrow> 0 \<le> fst r \<and> (fst r \<le> snd r \<longrightarrow> sc (nat (snd r)) \<and> 0 \<le> snd r)
     \<and> (snd r = 0 \<or> sc (nat (snd r)) \<and> 0 \<le> snd r)"

lemma captureRange_walk_scoped:
  "node_scoped sc names n \<Longrightarrow> range_scoped sc r \<Longrightarrow> range_scoped sc (captureRange_walk n r)"
  "list_all (node_scoped sc names) ns \<Longrightarrow> range_scoped sc r \<Longrightarrow> range_scoped sc (captureRange_walks ns r)"
proof (induction n r and ns r rule: captureRange_walk_captureRange_walks.induct)
  case (1 i name body lo hi)
  have "range_scoped sc (if int i < lo then int i else lo, if int i > hi then int i else hi)"
    using 1 by (auto simp: range_scoped_def)
  with 1 show ?case by simp
qed auto

lemma captureRange_scoped:
  "node_scoped sc names n \<Longrightarrow> range_scoped sc (captureRange n)"
  unfolding captureRange_def
  by (rule captureRange_walk_scoped) (auto simp: range_scoped_def)

lemma withModifiers_simps [simp]:
  "cnames (withModifiers c md) = cnames c" "cu (withModifiers c md) = cu c"
  "backw (withModifiers c md) = backw c"
  by (simp_all add: withModifiers_def Let_def)

lemma nodes_Inr:
  "nodes ue c ts = Inr ms \<Longrightarrow>
     length ms = length ts \<and> (\<forall>i < length ts. node ue c (ts ! i) = Inr (ms ! i))"
proof (induction ts arbitrary: ms)
  case (Cons t ts)
  then show ?case by (auto simp: res_bind_eq_Inr nth_Cons split: nat.splits)
qed simp

lemma nodes_Inr_mem: "nodes ue c ts = Inr ms \<Longrightarrow> x \<in> set ms \<Longrightarrow> \<exists>t \<in> set ts. node ue c t = Inr x"
  using nodes_Inr by (metis in_set_conv_nth)

subsection \<open>Slot ranges\<close>

lemma length_setGroup [simp]: "length (caps (setGroup m i s e)) = length (caps m)"
  by (simp add: setGroup_def)

lemma length_resetRange:
  "0 \<le> lo \<Longrightarrow> lo \<le> hi \<longrightarrow> group_in_range m (nat hi) \<Longrightarrow>
   length (caps (resetRange m lo hi)) = length (caps m)"
  by (auto simp: resetRange_def group_in_range_def min_def nat_mult_distrib nat_add_distrib)

lemma length_setRange_clone:
  "0 \<le> lo \<Longrightarrow> lo \<le> hi \<longrightarrow> group_in_range m (nat hi) \<Longrightarrow> length (caps m') = length (caps m) \<Longrightarrow>
   length (caps (setRange m' lo hi (cloneRange m lo hi))) = length (caps m)"
  by (auto simp: setRange_def cloneRange_def group_in_range_def min_def)

subsection \<open>Invariants of matching\<close>

locale machine_invariant =
  fixes P :: "machine \<Rightarrow> bool"
    and slots :: nat
    and sc :: "nat \<Rightarrow> bool"
  assumes P_step: "P m \<Longrightarrow> err m = None \<Longrightarrow> P (snd (step m))"
    and P_enter: "P m \<Longrightarrow> err m = None \<Longrightarrow> P (snd (enter m))"
    and P_leave: "P m \<Longrightarrow> P (leave m)"
    and P_slots: "P m \<Longrightarrow> length (caps m) = slots"
    and P_caps: "P m \<Longrightarrow> length cs = slots \<Longrightarrow> P (m\<lparr>caps := cs\<rparr>)"
    and P_panic: "P m \<Longrightarrow> sc i \<Longrightarrow> \<not> group_in_range m i \<Longrightarrow> P (m\<lparr>err := Some ErrPanic\<rparr>)"
    and P_fuel: "P m \<Longrightarrow> P (m\<lparr>err := Some ErrFuel\<rparr>)"
begin

definition keeps :: "cont \<Rightarrow> bool" where
  "keeps k \<longleftrightarrow> (\<forall>sp m. P m \<longrightarrow> P (snd (k sp m)))"

definition matcher_keeps :: "matcher \<Rightarrow> bool" where
  "matcher_keeps x \<longleftrightarrow> (\<forall>k. keeps k \<longrightarrow> keeps (\<lambda>sp m. x m sp k))"

lemma keepsD: "keeps k \<Longrightarrow> P m \<Longrightarrow> k sp m = (b, m') \<Longrightarrow> P m'"
  unfolding keeps_def by (metis snd_conv)

lemma keepsI: "(\<And>sp m. P m \<Longrightarrow> P (snd (k sp m))) \<Longrightarrow> keeps k"
  by (simp add: keeps_def)

lemma matcher_keepsI: "(\<And>k sp m. keeps k \<Longrightarrow> P m \<Longrightarrow> P (snd (x m sp k))) \<Longrightarrow> matcher_keeps x"
  by (simp add: matcher_keeps_def keeps_def)

lemma matcher_keepsD: "matcher_keeps x \<Longrightarrow> keeps k \<Longrightarrow> P m \<Longrightarrow> x m sp k = (b, m') \<Longrightarrow> P m'"
  unfolding matcher_keeps_def by (metis keeps_def snd_conv)

lemma stepD: "P m \<Longrightarrow> err m = None \<Longrightarrow> step m = (b, m') \<Longrightarrow> P m'"
  using P_step by (metis snd_conv)

lemma enterD: "P m \<Longrightarrow> err m = None \<Longrightarrow> enter m = (b, m') \<Longrightarrow> P m'"
  using P_enter by (metis snd_conv)

lemma P_setAll: "P m \<Longrightarrow> P m0 \<Longrightarrow> P (setAll m (cloneAll m0))"
  by (simp add: setAll_def cloneAll_def P_caps P_slots)

lemma P_setGroup: "P m \<Longrightarrow> P (setGroup m i s e)"
  by (simp add: setGroup_def P_caps P_slots)

lemma P_resetRange: "P m \<Longrightarrow> 0 \<le> lo \<Longrightarrow> lo \<le> hi \<longrightarrow> group_in_range m (nat hi) \<Longrightarrow> P (resetRange m lo hi)"
  using length_resetRange [of lo hi m] by (auto simp: resetRange_def P_slots intro!: P_caps)

lemma P_setRange:
  "P m \<Longrightarrow> P m0 \<Longrightarrow> 0 \<le> lo \<Longrightarrow> lo \<le> hi \<longrightarrow> group_in_range m0 (nat hi) \<Longrightarrow>
   P (setRange m lo hi (cloneRange m0 lo hi))"
  using length_setRange_clone [of lo hi m0 m] by (auto simp: setRange_def P_slots intro!: P_caps)

lemma keeps_snd: "keeps k \<Longrightarrow> P m \<Longrightarrow> P (snd (k sp m))"
  by (simp add: keeps_def)

lemma matcher_keeps_snd: "matcher_keeps x \<Longrightarrow> keeps k \<Longrightarrow> P m \<Longrightarrow> P (snd (x m sp k))"
  by (simp add: matcher_keeps_def keeps_def)

lemma P_bind:
  "P (snd r) \<Longrightarrow> (\<And>b m'. r = (b, m') \<Longrightarrow> P m' \<Longrightarrow> P (snd (f b m'))) \<Longrightarrow>
   P (snd (case r of (b, m') \<Rightarrow> f b m'))"
  by (cases r) auto

lemmas keep_rules = P_bind P_step P_enter P_leave P_setAll P_setGroup P_fuel

lemma consumer_keeps: "matcher_keeps (consumerMatcher cons)"
proof (rule matcher_keepsI)
  fix k :: cont and sp :: nat and m :: machine assume k: "keeps k" and m: "P m"
  show "P (snd (consumerMatcher cons m sp k))"
    unfolding consumerMatcher_def Let_def
    by (auto simp: m split: option.splits intro!: keep_rules keeps_snd [OF k])
qed

lemma assertion_keeps: "matcher_keeps (assertionMatcher c kind)"
proof (rule matcher_keepsI)
  fix k :: cont and sp :: nat and m :: machine assume k: "keeps k" and m: "P m"
  show "P (snd (assertionMatcher c kind m sp k))"
    unfolding assertionMatcher_def Let_def
    by (auto simp: m intro!: keep_rules keeps_snd [OF k])
qed

lemma try_strings_keeps:
  assumes k: "keeps k"
  shows "P m \<Longrightarrow> P (snd (try_strings ue i u sp k ss m))"
  by (induction ss arbitrary: m)
    (auto simp: Let_def split: option.splits intro!: keep_rules keeps_snd [OF k])

lemma classString_keeps: "matcher_keeps (classStringMatcher ue c cs)"
proof (rule matcher_keepsI)
  fix k :: cont and sp :: nat and m :: machine assume k: "keeps k" and m: "P m"
  show "P (snd (classStringMatcher ue c cs m sp k))"
    unfolding classStringMatcher_def Let_def
    by (auto simp: m simp: case_prod_beta intro!: keep_rules keeps_snd [OF k] try_strings_keeps [OF k])
qed

lemma ref_keeps:
  assumes "\<And>m. P m \<Longrightarrow> resolve m = None \<Longrightarrow> \<exists>i. sc i \<and> \<not> group_in_range m i"
  shows "matcher_keeps (refMatcher ue c resolve)"
proof (rule matcher_keepsI)
  fix k :: cont and sp :: nat and m :: machine assume k: "keeps k" and m: "P m"
  have pan: "P (snd (fail_with ErrPanic m1))" if "P m1" "resolve m1 = None" for m1
    using assms [OF that] P_panic [OF that(1)] by (auto simp: fail_with_def)
  show "P (snd (refMatcher ue c resolve m sp k))"
    unfolding refMatcher_def Let_def
    by (auto simp: m pan split: option.splits intro!: keep_rules keeps_snd [OF k])
qed

lemma backref_keeps: "sc i \<Longrightarrow> matcher_keeps (backref ue c i)"
  unfolding backref_def by (rule ref_keeps) (auto simp: backref_span_def split: if_splits)

lemma namedBackref_keeps: "list_all sc idxs \<Longrightarrow> matcher_keeps (namedBackref ue c idxs)"
  unfolding namedBackref_def
proof (rule ref_keeps)
  fix m assume "list_all sc idxs" and "namedBackref_span idxs m = None"
  then show "\<exists>i. sc i \<and> \<not> group_in_range m i"
    by (induction idxs) (auto split: if_splits)
qed

lemma concat_run_keeps:
  "\<forall>x \<in> set xs. matcher_keeps x \<Longrightarrow> keeps k \<Longrightarrow> keeps (\<lambda>sp m. concat_run xs k m sp)"
proof (induction xs)
  case Nil
  then show ?case by (auto simp: keeps_def)
next
  case (Cons x xs)
  have rest: "keeps (\<lambda>sp m. concat_run xs k m sp)" and x: "matcher_keeps x" using Cons by simp_all
  show ?case
    by (rule keepsI) (auto simp: Let_def intro!: keep_rules matcher_keeps_snd [OF x rest])
qed

lemma concat_keeps: "\<forall>x \<in> set xs. matcher_keeps x \<Longrightarrow> matcher_keeps (concat_matcher c xs)"
  using concat_run_keeps [of "if backw c then rev xs else xs"]
  by (auto simp: matcher_keeps_def concat_matcher_def)

lemma disjunction_keeps:
  "\<forall>x \<in> set xs. matcher_keeps x \<Longrightarrow> matcher_keeps (\<lambda>m sp k. disjunction_run xs sp k m)"
proof (rule matcher_keepsI)
  fix k :: cont and sp :: nat and m :: machine
  assume xs: "\<forall>x \<in> set xs. matcher_keeps x" and k: "keeps k" and "P m"
  then have "\<forall>x \<in> set xs. \<forall>m. P m \<longrightarrow> P (snd (x m sp k))"
    using matcher_keeps_snd [OF _ k] by blast
  then show "P (snd (disjunction_run xs sp k m))"
    using \<open>P m\<close> by (induction xs arbitrary: m) (auto simp: Let_def intro!: keep_rules)
qed

lemma capture_keeps:
  assumes "sc i" and b: "matcher_keeps body"
  shows "matcher_keeps (capture_matcher c i body)"
proof (rule matcher_keepsI)
  fix k :: cont and sp :: nat and m :: machine assume k: "keeps k" and m: "P m"
  show "P (snd (capture_matcher c i body m sp k))"
    using m assms(1)
    by (auto simp: capture_matcher_def Let_def fail_with_def
        intro!: keep_rules keepsI keeps_snd [OF k] matcher_keeps_snd [OF b] P_panic)
qed

lemma keeps_found: "keeps (\<lambda>_ m'. (True, m'))"
  by (simp add: keeps_def)

lemma look_pos_keeps:
  assumes b: "matcher_keeps body"
  shows "matcher_keeps (look_pos body)"
proof (rule matcher_keepsI)
  fix k :: cont and sp :: nat and m :: machine assume k: "keeps k" and m: "P m"
  show "P (snd (look_pos body m sp k))"
    unfolding look_pos_def Let_def
    by (auto simp: m intro!: keep_rules keeps_snd [OF k] matcher_keeps_snd [OF b keeps_found])
qed

lemma look_neg_keeps:
  assumes b: "matcher_keeps body"
  shows "matcher_keeps (look_neg body)"
proof (rule matcher_keepsI)
  fix k :: cont and sp :: nat and m :: machine assume k: "keeps k" and m: "P m"
  show "P (snd (look_neg body m sp k))"
    unfolding look_neg_def Let_def
    by (auto simp: m intro!: keep_rules keeps_snd [OF k] matcher_keeps_snd [OF b keeps_found])
qed

lemma step_ok_err: "step m = (True, m') \<Longrightarrow> err m' = err m"
  by (auto simp: step_def Let_def split: if_splits option.splits)

lemma collect_keeps:
  "P m \<Longrightarrow> err m = None \<Longrightarrow> P (snd (collect_positions fuel cons mx cur ps m))"
proof (induction fuel cons mx cur ps m rule: collect_positions.induct)
  case (1 fuel cons mx cur ps m)
  show ?case
  proof (cases "(mx < 0 \<or> int (length ps) - 1 < mx) \<and> fuel \<noteq> 0 \<and> fst (step m)")
    case False
    then show ?thesis using 1 P_step [of m]
      by (subst collect_positions.simps) (auto intro: P_fuel split: prod.split)
  next
    case True
    then obtain m1 where m1: "step m = (True, m1)" by (cases "step m") auto
    have p: "P m1" "err m1 = None" using 1 P_step [of m] m1 step_ok_err by fastforce+
    show ?thesis using True 1 p m1
      by (subst collect_positions.simps) (auto split: option.splits)
  qed
qed

lemma try_positions_keeps:
  assumes k: "keeps k"
  shows "P m \<Longrightarrow> P (snd (try_positions k ps m))"
  by (induction ps arbitrary: m) (auto simp: Let_def intro!: keep_rules keeps_snd [OF k])

lemma simpleQuantifier_keeps: "matcher_keeps (simpleQuantifier cons mn mx greedy)"
proof (rule matcher_keepsI)
  fix k :: cont and sp :: nat and m :: machine assume k: "keeps k" and m: "P m"
  have "P m1" if "err m = None" "collect_positions (sp + length (input m) + 1) cons mx sp [sp] m = (r, m1)"
    for r m1 using collect_keeps [OF m that(1)] that(2) by (metis snd_conv)
  then show "P (snd (simpleQuantifier cons mn mx greedy m sp k))"
    unfolding simpleQuantifier_def Let_def
    by (auto simp: m split: prod.split option.split intro!: try_positions_keeps [OF k])
qed

lemma repeat_keeps:
  assumes body: "matcher_keeps body" and rng: "range_scoped sc (lo, hi)" and k: "keeps k"
  shows "P m \<Longrightarrow> P (snd (repeat_run fuel body lo hi greedy k mn mx x m))"
proof (induction "nat fuel" arbitrary: fuel greedy mn mx x m rule: less_induct)
  case less
  show ?case
  proof (cases "fuel \<le> 0")
    case True
    with less.prems show ?thesis by (simp add: repeat_run.simps fail_with_def P_fuel)
  next
    case False
    have ih: "P (snd (repeat_run (fuel - 1) body lo hi g k mn' mx' y m'))" if "P m'" for g mn' mx' y m'
      using less.hyps [of "fuel - 1"] False that by simp
    have lo: "0 \<le> lo" using rng by (simp add: range_scoped_def)
    have panic: "P (snd (fail_with ErrPanic m'))"
      if "P m'" "lo \<le> hi" "\<not> group_in_range m' (nat hi)" for m'
      using that rng P_panic by (auto simp: range_scoped_def fail_with_def)
    show ?thesis
      unfolding repeat_run.simps [of fuel] Let_def
      using less.prems False lo
      by (auto intro!: keep_rules keeps_snd [OF k] matcher_keeps_snd [OF body] keepsI ih panic
          P_resetRange P_setRange)
        (simp_all add: step_ok_err group_in_range_def P_slots)
  qed
qed

lemma quantifier_keeps:
  "matcher_keeps body \<Longrightarrow> node_scoped sc names n \<Longrightarrow>
   matcher_keeps (quantifier_matcher n mn mx greedy body)"
  using captureRange_scoped [of sc names n]
  by (auto simp: quantifier_matcher_def matcher_keeps_def split: prod.split intro!: keepsI repeat_keeps)

lemma class_keeps: "classMatcher ue c negate s = Inr x \<Longrightarrow> matcher_keeps x"
  by (auto simp: classMatcher_def res_bind_eq_Inr consumer_keeps classString_keeps split: if_splits)

text \<open>The main lemma: every matcher the compiler builds from a scoped pattern keeps the invariant.\<close>

lemma node_keeps:
  "node ue c n = Inr x \<Longrightarrow> node_scoped sc (cnames c) n \<Longrightarrow> matcher_keeps x"
  "nodes ue c ns = Inr xs \<Longrightarrow> list_all (node_scoped sc (cnames c)) ns \<Longrightarrow> \<forall>x \<in> set xs. matcher_keeps x"
proof (induction ue c n and ue c ns arbitrary: x and xs rule: node_nodes.induct)
  case (1 ue c)
  then show ?case by (auto simp: matcher_keeps_def)
next
  case (10 ue c mn mx greedy body)
  then show ?case
    by (auto simp: res_bind_eq_Inr simpleQuantifier_keeps split: option.splits intro!: quantifier_keeps)
qed (auto simp: charMatcher_def consumer_keeps assertion_keeps class_keeps res_bind_eq_Inr concat_keeps
    disjunction_keeps capture_keeps backref_keeps namedBackref_keeps look_pos_keeps look_neg_keeps
    split: option.splits if_splits)

end

subsection \<open>Instances\<close>

lemmas machine_moves = step_def enter_def leave_def Let_def

text \<open>The input, the mode, the limit and the context of a machine never change.\<close>

definition static :: "int list \<Rightarrow> bool \<Rightarrow> nat \<Rightarrow> machine \<Rightarrow> bool" where
  "static inp u slots m \<longleftrightarrow> input m = inp \<and> m_unicode m = u \<and> length (caps m) = slots"

interpretation static: machine_invariant "static inp u slots" slots "\<lambda>_. True" for inp u slots
  by unfold_locales (auto simp: static_def machine_moves split: option.splits)

text \<open>An error, once recorded, is never cleared.\<close>

definition failed :: "nat \<Rightarrow> machine \<Rightarrow> bool" where
  "failed slots m \<longleftrightarrow> err m \<noteq> None \<and> length (caps m) = slots"

interpretation failed: machine_invariant "failed slots" slots "\<lambda>_. True" for slots
  by unfold_locales (auto simp: failed_def machine_moves)

text \<open>The step budget: at most one step past the limit, and none without an error.\<close>

definition in_budget :: "int \<Rightarrow> nat \<Rightarrow> machine \<Rightarrow> bool" where
  "in_budget lim slots m \<longleftrightarrow> limit m = lim \<and> length (caps m) = slots
     \<and> (lim > 0 \<longrightarrow> steps m \<le> lim + 1 \<and> (err m = None \<longrightarrow> steps m \<le> lim))"

interpretation in_budget: machine_invariant "in_budget lim slots" slots "\<lambda>_. True" for lim slots
  by unfold_locales (auto simp: in_budget_def machine_moves split: option.splits)

text \<open>Capture indices within the slots never panic.\<close>

definition no_panic :: "nat \<Rightarrow> machine \<Rightarrow> bool" where
  "no_panic slots m \<longleftrightarrow> err m \<noteq> Some ErrPanic \<and> length (caps m) = slots"

interpretation no_panic: machine_invariant "no_panic slots" slots "\<lambda>i. 2 * i + 1 < slots" for slots
  by unfold_locales (auto simp: no_panic_def group_in_range_def machine_moves split: option.splits)

lemma node_scoped_all [simp]: "node_scoped (\<lambda>_. True) names n"
  by (induction "\<lambda>_::nat. True" names n rule: node_scoped.induct) (auto simp: list_all_iff)

subsection \<open>The fuel of the model suffices\<close>

text \<open>
  A continuation is balanced from depth \<open>d\<close> on if, called at least that deep, it returns at the
  depth it was called at and does not run out of fuel.
\<close>

definition balanced_at :: "machine \<Rightarrow> machine \<Rightarrow> bool" where
  "balanced_at m m' \<longleftrightarrow> depth m' = depth m \<and> err m' \<noteq> Some ErrFuel"

definition deep :: "int \<Rightarrow> machine \<Rightarrow> bool" where
  "deep d m \<longleftrightarrow> d \<le> depth m \<and> err m \<noteq> Some ErrFuel"

definition balanced :: "int \<Rightarrow> cont \<Rightarrow> bool" where
  "balanced d k \<longleftrightarrow> (\<forall>sp m. deep d m \<longrightarrow> balanced_at m (snd (k sp m)))"

definition matcher_balanced :: "matcher \<Rightarrow> bool" where
  "matcher_balanced x \<longleftrightarrow> (\<forall>d k. 0 \<le> d \<longrightarrow> balanced d k \<longrightarrow> balanced d (\<lambda>sp m. x m sp k))"

lemma balancedI: "(\<And>sp m. deep d m \<Longrightarrow> balanced_at m (snd (k sp m))) \<Longrightarrow> balanced d k"
  by (simp add: balanced_def)

lemma balancedD: "balanced d k \<Longrightarrow> deep d m \<Longrightarrow> balanced_at m (snd (k sp m))"
  by (simp add: balanced_def)

lemma matcher_balancedD: "matcher_balanced x \<Longrightarrow> 0 \<le> d \<Longrightarrow> balanced d k \<Longrightarrow> deep d m \<Longrightarrow> balanced_at m (snd (x m sp k))"
  by (simp add: matcher_balanced_def balanced_def)

lemma matcher_balancedI:
  "(\<And>d k sp m. 0 \<le> d \<Longrightarrow> balanced d k \<Longrightarrow> deep d m \<Longrightarrow> balanced_at m (snd (x m sp k))) \<Longrightarrow> matcher_balanced x"
  by (simp add: matcher_balanced_def balanced_def)

lemma balanced_mono: "balanced d k \<Longrightarrow> d \<le> d' \<Longrightarrow> balanced d' k"
  by (auto simp: balanced_def deep_def)

lemma balanced_at_refl: "deep d m \<Longrightarrow> balanced_at m m"
  by (simp add: balanced_at_def deep_def)

lemma deep_balanced: "deep d m \<Longrightarrow> balanced_at m m' \<Longrightarrow> deep d m'"
  by (simp add: balanced_at_def deep_def)

lemma balanced_at_trans: "balanced_at m m1 \<Longrightarrow> balanced_at m1 m2 \<Longrightarrow> balanced_at m m2"
  by (simp add: balanced_at_def)

lemma balanced_bind:
  assumes "balanced_at m (snd r)" and "deep d m"
    and "\<And>b m'. r = (b, m') \<Longrightarrow> deep d m' \<Longrightarrow> balanced_at m' (snd (f b m'))"
  shows "balanced_at m (snd (case r of (b, m') \<Rightarrow> f b m'))"
  using assms by (cases r) (auto intro: deep_balanced balanced_at_trans)

lemma balanced_caps [simp]:
  "balanced_at m (m'\<lparr>caps := cs\<rparr>) = balanced_at m m'" "balanced_at (m\<lparr>caps := cs\<rparr>) m' = balanced_at m m'"
  "deep d (m\<lparr>caps := cs\<rparr>) = deep d m"
  by (simp_all add: balanced_at_def deep_def)

lemma balanced_slots [simp]:
  "balanced_at m (setAll m' cs) = balanced_at m m'" "balanced_at (setAll m cs) m' = balanced_at m m'"
  "balanced_at m (setGroup m' i s e) = balanced_at m m'" "balanced_at (setGroup m i s e) m' = balanced_at m m'"
  "balanced_at m (setRange m' lo hi sv) = balanced_at m m'" "balanced_at (setRange m lo hi sv) m' = balanced_at m m'"
  "balanced_at m (resetRange m' lo hi) = balanced_at m m'" "balanced_at (resetRange m lo hi) m' = balanced_at m m'"
  "deep d (setAll m cs) = deep d m" "deep d (setGroup m i s e) = deep d m"
  "deep d (setRange m lo hi sv) = deep d m" "deep d (resetRange m lo hi) = deep d m"
  by (simp_all add: setAll_def setGroup_def setRange_def resetRange_def)

lemma balanced_step: "deep d m \<Longrightarrow> balanced_at m (snd (step m))"
  by (auto simp: balanced_at_def deep_def step_def Let_def split: option.splits)

lemma balanced_panic: "deep d m \<Longrightarrow> balanced_at m (snd (fail_with ErrPanic m))"
  by (simp add: balanced_at_def fail_with_def)

lemma balanced_enter:
  assumes "deep d m"
    and "\<And>m2. enter m = (True, m2) \<Longrightarrow> deep (d + 1) m2 \<Longrightarrow> depth m < maxRecursionDepth \<Longrightarrow>
      depth m2 = depth m + 1 \<Longrightarrow> balanced_at m2 (snd (f m2))"
  shows "balanced_at m (snd (case enter m of (ok, m1) \<Rightarrow>
      if \<not> ok then (False, m1) else (case f m1 of (b, m2) \<Rightarrow> (b, leave m2))))"
  using assms by (auto simp: enter_def deep_def balanced_at_def leave_def split: prod.split if_splits)

lemma balancedD_slots:
  assumes "balanced d k" and "deep d m"
  shows "balanced_at m (snd (k sp (setGroup m i s e)))" "balanced_at m (snd (k sp (setAll m cs)))"
    "balanced_at m (snd (k sp (setRange m lo hi sv)))"
    "balanced_at m (snd (k sp (setRange (resetRange m lo hi) lo hi sv)))"
  using balancedD [OF assms(1), of "setGroup m i s e" sp] balancedD [OF assms(1), of "setAll m cs" sp]
    balancedD [OF assms(1), of "setRange m lo hi sv" sp]
    balancedD [OF assms(1), of "setRange (resetRange m lo hi) lo hi sv" sp] assms(2) by simp_all

lemma matcher_balancedD_slots:
  assumes "matcher_balanced x" "0 \<le> d" "balanced d k" "deep d m"
  shows "balanced_at m (snd (x (resetRange m lo hi) sp k))"
  using matcher_balancedD [OF assms(1-3), of "resetRange m lo hi" sp] assms(4) by simp

lemmas balance_rules = balanced_bind balanced_step balanced_at_refl balanced_panic

lemma consumer_balanced: "matcher_balanced (consumerMatcher cons)"
proof (rule matcher_balancedI)
  fix d :: int and k :: cont and sp :: nat and m :: machine
  assume d: "0 \<le> d" and k: "balanced d k" and m: "deep d m"
  show "balanced_at m (snd ((consumerMatcher cons) m sp k))"
    unfolding consumerMatcher_def Let_def
    using m by (auto split: option.splits intro!: balance_rules balancedD [OF k])
qed

lemma assertion_balanced: "matcher_balanced (assertionMatcher c kind)"
proof (rule matcher_balancedI)
  fix d :: int and k :: cont and sp :: nat and m :: machine
  assume d: "0 \<le> d" and k: "balanced d k" and m: "deep d m"
  show "balanced_at m (snd ((assertionMatcher c kind) m sp k))"
    unfolding assertionMatcher_def Let_def
    using m by (auto intro!: balance_rules balancedD [OF k])
qed

lemma try_strings_balanced:
  assumes k: "balanced d k"
  shows "deep d m \<Longrightarrow> balanced_at m (snd (try_strings ue i u sp k ss m))"
  by (induction ss arbitrary: m)
    (auto simp: Let_def split: option.splits intro!: balance_rules balancedD [OF k])

lemma classString_balanced: "matcher_balanced (classStringMatcher ue c cs)"
proof (rule matcher_balancedI)
  fix d :: int and k :: cont and sp :: nat and m :: machine
  assume d: "0 \<le> d" and k: "balanced d k" and m: "deep d m"
  show "balanced_at m (snd ((classStringMatcher ue c cs) m sp k))"
    unfolding classStringMatcher_def Let_def
    using m by (auto simp: case_prod_beta [of _ "codePointAt _ _"] intro!: balance_rules balancedD [OF k]
        try_strings_balanced [OF k])
qed

lemma ref_balanced: "matcher_balanced (refMatcher ue c resolve)"
proof (rule matcher_balancedI)
  fix d :: int and k :: cont and sp :: nat and m :: machine
  assume d: "0 \<le> d" and k: "balanced d k" and m: "deep d m"
  show "balanced_at m (snd ((refMatcher ue c resolve) m sp k))"
    unfolding refMatcher_def Let_def
    using m by (auto split: option.splits intro!: balance_rules balancedD [OF k])
qed

lemma concat_run_balanced:
  "\<forall>x \<in> set xs. matcher_balanced x \<Longrightarrow> 0 \<le> d \<Longrightarrow> balanced d k \<Longrightarrow> balanced d (\<lambda>sp m. concat_run xs k m sp)"
proof (induction xs)
  case Nil
  show ?case using balancedD [OF Nil(3)] by (intro balancedI) (auto intro: balanced_at_refl)
next
  case (Cons x xs)
  have rest: "balanced d (\<lambda>sp m. concat_run xs k m sp)" and x: "matcher_balanced x"
    using Cons by simp_all
  show ?case
  proof (rule balancedI)
    fix sp m assume m: "deep d m"
    have b: "balanced_at m2 (snd (x m2 sp (\<lambda>sp2 m'. concat_run xs k m' sp2)))" if "deep (d + 1) m2" for m2
      using that Cons.prems(2) balanced_mono [OF rest, of "d + 1"] by (intro matcher_balancedD [OF x, of "d + 1"]) auto
    show "balanced_at m (snd (concat_run (x # xs) k m sp))"
      unfolding concat_run.simps Let_def
      using m by (auto intro!: balanced_at_refl balanced_enter [OF m] b)
  qed
qed

lemma concat_balanced: "\<forall>x \<in> set xs. matcher_balanced x \<Longrightarrow> matcher_balanced (concat_matcher c xs)"
  using concat_run_balanced [of "if backw c then rev xs else xs"]
  by (auto simp: matcher_balanced_def concat_matcher_def)

lemma disjunction_balanced:
  "\<forall>x \<in> set xs. matcher_balanced x \<Longrightarrow> matcher_balanced (\<lambda>m sp k. disjunction_run xs sp k m)"
proof (rule matcher_balancedI)
  fix d :: int and k :: cont and sp :: nat and m :: machine
  assume xs: "\<forall>x \<in> set xs. matcher_balanced x" and d: "0 \<le> d" and k: "balanced d k" and "deep d m"
  then have "\<forall>x \<in> set xs. \<forall>m. deep d m \<longrightarrow> balanced_at m (snd (x m sp k))"
    using matcher_balancedD [OF _ d k] by blast
  then show "balanced_at m (snd (disjunction_run xs sp k m))"
    using \<open>deep d m\<close> by (induction xs arbitrary: m) (auto simp: Let_def intro!: balance_rules)
qed

lemma capture_balanced:
  assumes b: "matcher_balanced body"
  shows "matcher_balanced (capture_matcher c i body)"
proof (rule matcher_balancedI)
  fix d :: int and k :: cont and sp :: nat and m :: machine
  assume d: "0 \<le> d" and k: "balanced d k" and m: "deep d m"
  show "balanced_at m (snd (capture_matcher c i body m sp k))"
    unfolding capture_matcher_def Let_def using m
    by (auto intro!: balance_rules matcher_balancedD [OF b d] balancedI balancedD_slots [OF k])
qed

lemma balanced_found: "balanced d (\<lambda>_ m'. (True, m'))"
  by (rule balancedI) (auto intro: balanced_at_refl)

lemma look_pos_balanced:
  assumes b: "matcher_balanced body"
  shows "matcher_balanced (look_pos body)"
proof (rule matcher_balancedI)
  fix d :: int and k :: cont and sp :: nat and m :: machine
  assume d: "0 \<le> d" and k: "balanced d k" and m: "deep d m"
  show "balanced_at m (snd ((look_pos body) m sp k))"
    unfolding look_pos_def Let_def
    using m by (auto intro!: balance_rules balancedD [OF k] balancedD_slots [OF k] matcher_balancedD [OF b d balanced_found])
qed

lemma look_neg_balanced:
  assumes b: "matcher_balanced body"
  shows "matcher_balanced (look_neg body)"
proof (rule matcher_balancedI)
  fix d :: int and k :: cont and sp :: nat and m :: machine
  assume d: "0 \<le> d" and k: "balanced d k" and m: "deep d m"
  show "balanced_at m (snd ((look_neg body) m sp k))"
    unfolding look_neg_def Let_def
    using m by (auto intro!: balance_rules balancedD [OF k] balancedD_slots [OF k] matcher_balancedD [OF b d balanced_found])
qed

text \<open>
  A one-character consumer moves strictly in its direction: leftwards, or rightwards and not
  past the end of the input.
\<close>

definition moves :: "bool \<Rightarrow> nat \<Rightarrow> nat \<Rightarrow> nat \<Rightarrow> bool" where
  "moves bk len sp np \<longleftrightarrow> (if bk then np < sp else sp < np \<and> np \<le> len)"

definition consumes :: "bool \<Rightarrow> unitConsumer \<Rightarrow> bool" where
  "consumes bk cons \<longleftrightarrow> (\<forall>m sp np. cons m sp = Some np \<longrightarrow> moves bk (length (input m)) sp np)"

lemma codePoint_width:
  "codePointAt m sp = (r, w) \<Longrightarrow> sp < length (input m) \<Longrightarrow> 0 < w \<and> sp + w \<le> length (input m)"
  "codePointBefore m sp = (r, w) \<Longrightarrow> 0 < sp \<Longrightarrow> 0 < w \<and> w \<le> sp"
  by (auto simp: codePointAt_def codePointBefore_def Let_def split: if_splits)

lemma readCP_moves: "readCP c m sp = Some (r, np) \<Longrightarrow> moves (backw c) (length (input m)) sp np"
  using codePoint_width [of m sp]
  by (fastforce simp: readCP_def moves_def split: if_splits prod.splits)

lemma consumers_consume:
  "consumes (backw c) (charConsumer ue c r)" "consumes (backw c) (anyConsumer c)"
  "consumes (backw c) (classConsumer ue c s negate)"
  using readCP_moves [of c]
  by (auto simp: consumes_def charConsumer_def anyConsumer_def classConsumer_def Let_def moves_def
      split: prod.splits option.splits if_splits)

lemma simpleConsumer_consumes: "simpleConsumer ue c n = Some cons \<Longrightarrow> consumes (backw c) cons"
  by (cases n) (auto simp: simpleConsumer_def consumers_consume split: sum.splits if_splits)

lemma step_frame: "step m = (b, m1) \<Longrightarrow>
    input m1 = input m \<and> m_unicode m1 = m_unicode m \<and> caps m1 = caps m \<and> depth m1 = depth m
    \<and> limit m1 = limit m \<and> (b \<longrightarrow> err m1 = err m) \<and> (\<not> b \<longrightarrow> err m1 \<noteq> None \<and> err m1 \<noteq> Some ErrFuel \<and> err m1 \<noteq> Some ErrPanic)"
  by (auto simp: step_def Let_def split: if_splits option.splits)

lemma collect_balanced:
  assumes "consumes bk cons"
  shows "deep d m \<Longrightarrow> (if bk then cur else length (input m) - cur) < fuel \<Longrightarrow>
    balanced_at m (snd (collect_positions fuel cons mx cur ps m))"
proof (induction fuel arbitrary: cur ps m)
  case (Suc fuel)
  obtain b m1 where st: "step m = (b, m1)" by force
  have d1: "deep d m1" if b using Suc.prems(1) step_frame [OF st] that by (simp add: deep_def)
  have eq: "balanced_at m m' = balanced_at m1 m'" for m'
    using step_frame [OF st] by (simp add: balanced_at_def)
  have rec: "balanced_at m (snd (collect_positions fuel cons mx np (ps @ [np]) m1))"
    if "cons m1 cur = Some np" b for np
    unfolding eq
  proof (rule Suc.IH [OF d1 [OF that(2)]])
    have "moves bk (length (input m1)) cur np" using assms that(1) by (auto simp: consumes_def)
    then show "(if bk then np else length (input m1) - np) < fuel"
      using Suc.prems(2) step_frame [OF st] by (auto simp: moves_def split: if_splits)
  qed
  show ?case
    using Suc.prems(1) st rec d1 balanced_step [OF Suc.prems(1)]
    by (subst collect_positions.simps) (auto split: option.split intro: balanced_at_refl)
qed simp

lemma try_positions_balanced:
  assumes k: "balanced d k"
  shows "deep d m \<Longrightarrow> balanced_at m (snd (try_positions k ps m))"
  by (induction ps arbitrary: m) (auto simp: Let_def intro!: balance_rules balancedD [OF k])

lemma simpleQuantifier_balanced:
  assumes "consumes bk cons"
  shows "matcher_balanced (simpleQuantifier cons mn mx greedy)"
proof (rule matcher_balancedI)
  fix d :: int and k :: cont and sp :: nat and m :: machine
  assume d: "0 \<le> d" and k: "balanced d k" and m: "deep d m"
  obtain r m1 where c: "collect_positions (sp + length (input m) + 1) cons mx sp [sp] m = (r, m1)" by force
  have b: "balanced_at m m1"
    using collect_balanced [OF assms m, of sp "sp + length (input m) + 1" mx "[sp]"] c by (cases bk) auto
  then have "deep d m1" using m deep_balanced by blast
  then show "balanced_at m (snd (simpleQuantifier cons mn mx greedy m sp k))"
    using c b balanced_at_trans [OF b try_positions_balanced [OF k]] m
    by (auto simp: simpleQuantifier_def split: option.split intro: balanced_at_refl)
qed

text \<open>One round of \<open>repeat_run\<close>, named so that its unfolding stays small.\<close>

definition repeat_iter :: "int \<Rightarrow> matcher \<Rightarrow> int \<Rightarrow> int \<Rightarrow> bool \<Rightarrow> cont \<Rightarrow> nat \<Rightarrow> int \<Rightarrow> nat \<Rightarrow> machine \<Rightarrow> bool \<times> machine" where
  "repeat_iter fuel body lo hi greedy k mn mx x m2 =
     (let d = (\<lambda>y m3.
            if mn = 0 \<and> y = x then (False, m3)
            else repeat_run (fuel - 1) body lo hi greedy k (mn - 1)
              (if mx > 0 then mx - 1 else mx) y m3);
          saved = cloneRange m2 lo hi;
          m3 = resetRange m2 lo hi
      in if mn \<noteq> 0 then
           let (b, m4) = body m3 x d in
           if b then (True, m4) else (False, setRange m4 lo hi saved)
         else if greedy then
           let (b, m4) = body m3 x d in
           if b then (True, m4) else k x (setRange m4 lo hi saved)
         else
           let (b, m4) = k x (setRange m3 lo hi saved) in
           if b then (True, m4)
           else let (b, m5) = body (resetRange m4 lo hi) x d in
             if b then (True, m5) else (False, setRange m5 lo hi saved))"

definition repeat_body :: "int \<Rightarrow> matcher \<Rightarrow> int \<Rightarrow> int \<Rightarrow> bool \<Rightarrow> cont \<Rightarrow> nat \<Rightarrow> int \<Rightarrow> nat \<Rightarrow> machine \<Rightarrow> bool \<times> machine" where
  "repeat_body fuel body lo hi greedy k mn mx x m1 =
     (let (ok2, m2) = enter m1 in
      if \<not> ok2 then (False, m2)
      else let (b, m') =
        (if mx = 0 then k x m2
         else if lo \<le> hi \<and> \<not> group_in_range m2 (nat hi) then fail_with ErrPanic m2
         else repeat_iter fuel body lo hi greedy k mn mx x m2)
        in (b, leave m'))"

lemma repeat_run_unfold:
  "0 < fuel \<Longrightarrow> repeat_run fuel body lo hi greedy k mn mx x m =
     (if err m \<noteq> None then (False, m)
      else let (ok, m1) = step m in
        if \<not> ok then (False, m1) else repeat_body fuel body lo hi greedy k mn mx x m1)"
  by (simp add: repeat_run.simps [of fuel] repeat_body_def repeat_iter_def cong: if_cong)

lemma repeat_balanced:
  assumes body: "matcher_balanced body" and k: "balanced d k" and d: "0 \<le> d"
  shows "deep d m \<Longrightarrow> 0 < fuel \<Longrightarrow> maxRecursionDepth - depth m < fuel \<Longrightarrow>
    balanced_at m (snd (repeat_run fuel body lo hi greedy k mn mx x m))"
proof (induction "nat fuel" arbitrary: fuel greedy mn mx x m rule: less_induct)
  case less
  have inner: "balanced_at m2 (snd (repeat_run (fuel - 1) body lo hi g k mn' mx' y m2))"
    if "deep (depth m1 + 1) m2" "depth m1 < maxRecursionDepth" "depth m1 = depth m" for g mn' mx' y m1 m2
    using that less.prems by (intro less.hyps) (auto simp: deep_def)
  have k1: "balanced (depth m1 + 1) k" if "deep d m1" for m1
    using that d by (intro balanced_mono [OF k]) (simp add: deep_def)
  obtain ok m1 where st: "step m = (ok, m1)" by force
  show ?case
  proof (cases "err m = None \<and> ok")
    case False
    then show ?thesis
      using less.prems balanced_at_refl [OF less.prems(1)] balanced_step [OF less.prems(1)] st
      by (auto simp add: repeat_run.simps [of fuel])
  next
    case True
    have m1: "deep d m1" "depth m1 = depth m" "balanced_at m m1"
      using less.prems(1) step_frame [OF st] by (auto simp: deep_def balanced_at_def)
    have d0: "0 \<le> depth m1 + 1" using m1(1) d by (simp add: deep_def)
    have "balanced_at m1 (snd (repeat_body fuel body lo hi greedy k mn mx x m1))"
      unfolding repeat_body_def Let_def
    proof (rule balanced_enter [OF m1(1)])
      fix m2 assume "enter m1 = (True, m2)" "deep (d + 1) m2" and lt: "depth m1 < maxRecursionDepth"
        and dep: "depth m2 = depth m1 + 1"
      then have dm: "deep (depth m1 + 1) m2" by (simp add: deep_def)
      note rules = balancedD [OF k1 [OF m1(1)]] balancedD_slots [OF k1 [OF m1(1)]]
        matcher_balancedD_slots [OF body d0] inner [OF _ lt m1(2)]
      show "balanced_at m2 (snd (if mx = 0 then k x m2 else if lo \<le> hi \<and> \<not> group_in_range m2 (nat hi)
          then fail_with ErrPanic m2 else repeat_iter fuel body lo hi greedy k mn mx x m2))"
        unfolding repeat_iter_def Let_def using dm
        by (auto intro!: balance_rules rules balancedI)
    qed
    then show ?thesis
      using less.prems(2) True m1(3) st by (auto simp: repeat_run_unfold intro: balanced_at_trans)
  qed
qed

lemma quantifier_balanced:
  assumes "matcher_balanced body"
  shows "matcher_balanced (quantifier_matcher n mn mx greedy body)"
  by (rule matcher_balancedI)
    (auto simp: quantifier_matcher_def repeat_fuel_def maxRecursionDepth_def deep_def split: prod.split
      intro!: repeat_balanced [OF assms])

lemma class_balanced: "classMatcher ue c negate s = Inr x \<Longrightarrow> matcher_balanced x"
  by (auto simp: classMatcher_def res_bind_eq_Inr consumer_balanced classString_balanced split: if_splits)

lemma node_balanced:
  "node ue c n = Inr x \<Longrightarrow> matcher_balanced x"
  "nodes ue c ns = Inr xs \<Longrightarrow> \<forall>x \<in> set xs. matcher_balanced x"
proof (induction ue c n and ue c ns arbitrary: x and xs rule: node_nodes.induct)
  case (1 ue c)
  then show ?case by (auto simp: matcher_balanced_def)
next
  case (10 ue c mn mx greedy body)
  then show ?case
    by (auto simp: res_bind_eq_Inr quantifier_balanced split: option.splits
        intro: simpleQuantifier_balanced [OF simpleConsumer_consumes])
qed (auto simp: charMatcher_def backref_def namedBackref_def consumer_balanced assertion_balanced
    class_balanced ref_balanced res_bind_eq_Inr concat_balanced disjunction_balanced capture_balanced
    look_pos_balanced look_neg_balanced split: option.splits if_splits)

subsection \<open>The search\<close>

lemma compile_Inr:
  "compile ue pat = Inr p \<longleftrightarrow>
     (\<exists>x. node ue (initial_compiler (PFlags pat) (GroupNames pat)) (Body pat) = Inr x
       \<and> p = \<lparr>entry = x, numGroups = GroupCount pat, pflags = PFlags pat,
              punicode = UnicodeMode (PFlags pat)\<rparr>)"
  by (auto simp: compile_def res_bind_eq_Inr)

lemma initial_compiler_simps [simp]:
  "cnames (initial_compiler f names) = names" "backw (initial_compiler f names) = False"
  "cu (initial_compiler f names) = UnicodeMode f"
  by (simp_all add: initial_compiler_def)

text \<open>The last continuation of an attempt records the end of the match.\<close>

definition final_cont :: cont where
  "final_cont end m = (True, m\<lparr>caps := (caps m)[1 := int end]\<rparr>)"

definition attempt_start :: "machine \<Rightarrow> nat \<Rightarrow> machine" where
  "attempt_start m at = m\<lparr>caps := (replicate (length (caps m)) (-1))[0 := int at], depth := 0\<rparr>"

lemma attempt_alt: "attempt p m at = entry p (attempt_start m at) at final_cont"
  by (simp add: attempt_def attempt_start_def Let_def final_cont_def [abs_def])

text \<open>
  An induction rule for the search: \<open>I\<close> holds of the machine and the anchor at every round, \<open>Q\<close> of
  the result and the final machine.
\<close>

definition round_ok ::
  "prog \<Rightarrow> (machine \<Rightarrow> nat \<Rightarrow> bool) \<Rightarrow> (match_err + int list option \<Rightarrow> machine \<Rightarrow> bool) \<Rightarrow> nat \<Rightarrow> bool \<times> machine \<Rightarrow> bool" where
  "round_ok p I Q at r = (case r of (b, m2) \<Rightarrow>
     (case err m2 of
        Some e \<Rightarrow> Q (Inl e) m2
      | None \<Rightarrow> if b then Q (Inr (Some (caps m2))) m2
          else if Sticky (pflags p) then Q (Inr None) m2 else I m2 (nextStart m2 at)))"

lemma find_loop_rule:
  assumes start: "I m at"
    and round: "\<And>m at m1. I m at \<Longrightarrow> at \<le> len \<Longrightarrow> step m = (True, m1) \<Longrightarrow> round_ok p I Q at (attempt p m1 at)"
    and broke: "\<And>m at m1 e. I m at \<Longrightarrow> at \<le> len \<Longrightarrow> step m = (False, m1) \<Longrightarrow> err m1 = Some e \<Longrightarrow> Q (Inl e) m1"
    and ended: "\<And>m at. I m at \<Longrightarrow> len < at \<Longrightarrow> Q (Inr None) m"
  shows "Q (fst (find_loop p len m at)) (snd (find_loop p len m at))"
  using start
proof (induction "len + 1 - at" arbitrary: m at rule: less_induct)
  case less
  show ?case
  proof (cases "at \<le> len")
    case False
    with ended less.prems show ?thesis by (simp add: find_loop.simps [of p len m at])
  next
    case True
    obtain ok m1 where st: "step m = (ok, m1)" by force
    show ?thesis
    proof (cases ok)
      case False
      then obtain e where "err m1 = Some e" using step_frame [OF st] by auto
      with False True st broke [OF less.prems True] show ?thesis
        by (simp add: find_loop.simps [of p len m at])
    next
      case ok: True
      obtain b m2 where a: "attempt p m1 at = (b, m2)" by force
      have r: "round_ok p I Q at (b, m2)" using round [OF less.prems True] st ok a by metis
      have "len + 1 - nextStart m2 at < len + 1 - at" using True by (auto simp: nextStart_def)
      then show ?thesis
        using r less.hyps [of "nextStart m2 at" m2] True st ok a
        by (auto simp: round_ok_def find_loop.simps [of p len m at] split: option.splits if_splits)
    qed
  qed
qed

text \<open>Lifting a machine invariant to the whole search.\<close>

context machine_invariant
begin

lemma keeps_final: "keeps final_cont"
  by (auto simp: keeps_def final_cont_def P_slots intro!: P_caps)

lemma attempt_keeps:
  assumes "compile ue pat = Inr p" "node_scoped sc (GroupNames pat) (Body pat)"
    and "P (attempt_start m at)"
  shows "P (snd (attempt p m at))"
proof -
  have "matcher_keeps (entry p)"
    using assms(1,2) node_keeps(1) by (fastforce simp: compile_Inr)
  then show ?thesis
    using matcher_keeps_snd keeps_final assms(3) by (simp add: attempt_alt)
qed

lemma find_keeps:
  assumes c: "compile ue pat = Inr p" "node_scoped sc (GroupNames pat) (Body pat)"
    and start: "\<And>m at. P m \<Longrightarrow> P (attempt_start m at)"
    and m: "P m" "err m = None"
  shows "P (snd (find_loop p len m at))"
proof -
  have step_att: "P m2" if "P m" "err m = None" "step m = (True, m1)" "attempt p m1 at = (b, m2)" for m m1 m2 b at
    using attempt_keeps [OF c, of m1 at] start that P_step [of m] by (metis snd_conv)
  show ?thesis
  proof (rule find_loop_rule [where I = "\<lambda>m at. P m \<and> err m = None" and Q = "\<lambda>r m. P m"])
    fix m at m1 assume "P m \<and> err m = None" "step m = (True, m1)"
    then show "round_ok p (\<lambda>m at. P m \<and> err m = None) (\<lambda>r. P) at (attempt p m1 at)"
      using step_att [of m m1 at] by (auto simp: round_ok_def split: option.split prod.split)
  next
    fix m m1 assume "P m \<and> err m = None" "step m = (False, m1)"
    then show "P m1" using P_step by (metis snd_conv)
  qed (use m in auto)
qed

end

text \<open>
  The results: the budget, the input, the slot count and the absence of panics and of exhausted
  fuel, for the whole search.
\<close>

lemma find_slots:
  assumes "compile ue pat = Inr p"
  shows "static inp (punicode p) (2 * (numGroups p + 1))
    (snd (find_loop p (length inp) (initial_machine p lim cx inp) start))"
  by (rule static.find_keeps [OF assms(1)])
    (auto simp: static_def attempt_start_def initial_machine_def)

lemma find_no_panic:
  assumes "compile ue pat = Inr p"
    and "node_scoped (\<lambda>i. i \<le> GroupCount pat) (GroupNames pat) (Body pat)"
  shows "FindSubmatchIndex p lim cx inp start \<noteq> Inl ErrPanic"
proof -
  let ?m = "initial_machine p lim cx inp"
  let ?s = "2 * (numGroups p + 1)"
  have "(\<lambda>i. 2 * i + 1 < ?s) = (\<lambda>i. i \<le> GroupCount pat)"
    using assms(1) by (auto simp: compile_Inr)
  then have sc: "node_scoped (\<lambda>i. 2 * i + 1 < ?s) (GroupNames pat) (Body pat)"
    using assms(2) by simp
  have "case fst (find_loop p (length inp) ?m start) of Inl e \<Rightarrow> e \<noteq> ErrPanic | Inr _ \<Rightarrow> True"
  proof (rule find_loop_rule [where I = "\<lambda>m at. no_panic ?s m \<and> err m = None"
        and Q = "\<lambda>r m. case r of Inl e \<Rightarrow> e \<noteq> ErrPanic | Inr _ \<Rightarrow> True"])
    fix m at m1 assume m: "no_panic ?s m \<and> err m = None" "step m = (True, m1)"
    then have "no_panic ?s (attempt_start m1 at)"
      using step_frame [OF m(2)] by (auto simp: no_panic_def attempt_start_def)
    then have "no_panic ?s (snd (attempt p m1 at))"
      by (rule no_panic.attempt_keeps [OF assms(1) sc])
    then show "round_ok p (\<lambda>m at. no_panic ?s m \<and> err m = None)
        (\<lambda>r m. case r of Inl e \<Rightarrow> e \<noteq> ErrPanic | Inr _ \<Rightarrow> True) at (attempt p m1 at)"
      by (auto simp: round_ok_def no_panic_def split: option.split prod.split)
  next
    fix m m1 e assume "step m = (False, m1)" "err m1 = Some (e :: match_err)"
    then show "case Inl e of Inl e \<Rightarrow> e \<noteq> ErrPanic | Inr _ \<Rightarrow> True"
      using step_frame [of m False m1] by auto
  qed (auto simp: no_panic_def initial_machine_def)
  then show ?thesis by (auto simp: FindSubmatchIndex_def)
qed

lemma find_no_fuel:
  assumes "compile ue pat = Inr p"
  shows "FindSubmatchIndex p lim cx inp start \<noteq> Inl ErrFuel"
proof -
  let ?m = "initial_machine p lim cx inp"
  have b: "matcher_balanced (entry p)" using assms node_balanced(1) by (fastforce simp: compile_Inr)
  have fin: "balanced 0 final_cont"
    by (rule balancedI) (auto simp: final_cont_def intro: balanced_at_refl)
  have "case fst (find_loop p (length inp) ?m start) of Inl e \<Rightarrow> e \<noteq> ErrFuel | Inr _ \<Rightarrow> True"
  proof (rule find_loop_rule [where I = "\<lambda>m at. err m = None"
        and Q = "\<lambda>r m. case r of Inl e \<Rightarrow> e \<noteq> ErrFuel | Inr _ \<Rightarrow> True"])
    fix m at m1 assume m: "err m = None" "step m = (True, m1)"
    then have "deep 0 (attempt_start m1 at)"
      using step_frame [OF m(2)] by (simp add: deep_def attempt_start_def)
    then have "balanced_at (attempt_start m1 at) (snd (attempt p m1 at))"
      unfolding attempt_alt by (rule matcher_balancedD [OF b order_refl fin])
    then show "round_ok p (\<lambda>m at. err m = None)
        (\<lambda>r m. case r of Inl e \<Rightarrow> e \<noteq> ErrFuel | Inr _ \<Rightarrow> True) at (attempt p m1 at)"
      by (auto simp: round_ok_def balanced_at_def split: option.split prod.split)
  next
    fix m m1 e assume "step m = (False, m1)" "err m1 = Some (e :: match_err)"
    then show "case Inl e of Inl e \<Rightarrow> e \<noteq> ErrFuel | Inr _ \<Rightarrow> True"
      using step_frame [of m False m1] by auto
  qed (auto simp: initial_machine_def)
  then show ?thesis by (auto simp: FindSubmatchIndex_def)
qed

end
