(* ===== verification/Regexp_Spec.thy ===== *)
theory Regexp_Spec
  imports Regexp_Safety
begin

text \<open>
  A denotational specification of matching and the proof that the compiled, budgeted,
  mutating closures refine it. A node denotes a function from a position and capture slots to
  the list of outcomes (end position and slots) in the order the search tries them; choice
  appends, sequence binds, a lookaround keeps the first outcome of its body, a quantifier is the
  specification's RepeatMatcher. \<open>refines\<close> says that a matcher run with any continuation
  behaves like the first outcome its continuation accepts, and leaves the slots as it found
  them when there is none, unless the run is cut off by the budget, the depth guard or the
  context.
\<close>

type_synonym outcome = "nat \<times> int list"
type_synonym sem = "nat \<Rightarrow> int list \<Rightarrow> outcome list"

subsection \<open>Outcome semantics\<close>

definition probe :: "int list \<Rightarrow> bool \<Rightarrow> int list \<Rightarrow> machine" where
  "probe inp u cs = \<lparr>input = inp, caps = cs, m_unicode = u, ctx = None, steps = 0, limit = 0,
     depth = 0, err = None\<rparr>"

definition consumer_sem :: "int list \<Rightarrow> bool \<Rightarrow> unitConsumer \<Rightarrow> sem" where
  "consumer_sem inp u cons sp cs =
     (case cons (probe inp u cs) sp of None \<Rightarrow> [] | Some np \<Rightarrow> [(np, cs)])"

definition reset_caps :: "int list \<Rightarrow> int \<Rightarrow> int \<Rightarrow> int list" where
  "reset_caps cs lo hi =
     (if lo > hi then cs
      else take (nat (2 * lo)) cs @ replicate (nat (2 * (hi - lo + 1))) (-1) @ drop (nat (2 * hi + 2)) cs)"

fun seq_sem :: "sem list \<Rightarrow> sem" where
  "seq_sem [] sp cs = [(sp, cs)]"
| "seq_sem (x # xs) sp cs = concat (map (\<lambda>(y, cs'). seq_sem xs y cs') (x sp cs))"

definition alt_sem :: "sem list \<Rightarrow> sem" where
  "alt_sem xs sp cs = concat (map (\<lambda>x. x sp cs) xs)"

text \<open>
  RepeatMatcher. Once the minimum is reached an iteration has to move: a body never moves
  against its direction, so "does not move" is the code's \<open>y == x\<close>.
\<close>

function rep_sem :: "bool \<Rightarrow> nat \<Rightarrow> sem \<Rightarrow> int \<Rightarrow> int \<Rightarrow> bool \<Rightarrow> nat \<Rightarrow> int \<Rightarrow> sem" where
  "rep_sem bk len body lo hi greedy mn mx x cs =
     (if mx = 0 then [(x, cs)]
      else
        let iter = concat (map (\<lambda>(y, cs').
              if mn = 0 \<and> \<not> moves bk len x y then []
              else rep_sem bk len body lo hi greedy (mn - 1) (if mx > 0 then mx - 1 else mx) y cs')
              (body x (reset_caps cs lo hi)))
        in if mn \<noteq> 0 then iter else if greedy then iter @ [(x, cs)] else (x, cs) # iter)"
  by pat_completeness auto
termination
  by (relation "measures [\<lambda>(bk, len, body, lo, hi, g, mn, mx, x, cs). mn,
      \<lambda>(bk, len, body, lo, hi, g, mn, mx, x, cs). if bk then x else len - x]")
    (auto simp: moves_def split: if_splits)

declare rep_sem.simps [simp del]

definition ref_sem :: "unicode_env \<Rightarrow> compiler \<Rightarrow> int list \<Rightarrow> (machine \<Rightarrow> (int \<times> int) option) \<Rightarrow> sem" where
  "ref_sem ue c inp resolve sp cs =
     (let m = probe inp (cu c) cs in
      case resolve m of
        None \<Rightarrow> []
      | Some (s, e) \<Rightarrow>
          if s < 0 \<or> e < 0 then [(sp, cs)]
          else case ref_end ue c m s e sp of None \<Rightarrow> [] | Some np \<Rightarrow> [(np, cs)])"

definition string_sem :: "unicode_env \<Rightarrow> compiler \<Rightarrow> int list \<Rightarrow> charSetV \<Rightarrow> sem" where
  "string_sem ue c inp st sp cs =
     (let m = probe inp (cu c) cs in
      concat (map (\<lambda>s. case matchStringAt ue (ic c) (cu c) m sp s of None \<Rightarrow> [] | Some np \<Rightarrow> [(np, cs)])
        (longest_first (cstrings st))) @
      (if sp < length inp \<and> classContainsFold (udb ue) (cset st) (fst (codePointAt m sp)) (ic c) (cu c)
       then [(sp + snd (codePointAt m sp), cs)] else []))"

definition class_sem :: "unicode_env \<Rightarrow> compiler \<Rightarrow> int list \<Rightarrow> bool \<Rightarrow> ClassSet \<Rightarrow> sem" where
  "class_sem ue c inp negate s sp cs =
     (case compileClassSet ue c s of
        Inl e \<Rightarrow> []
      | Inr st \<Rightarrow>
          if cstrings st \<noteq> [] then string_sem ue c inp st sp cs
          else consumer_sem inp (cu c) (classConsumer ue c (cset st) negate) sp cs)"

definition look_sem :: "bool \<Rightarrow> sem \<Rightarrow> sem" where
  "look_sem negate body sp cs =
     (case body sp cs of
        [] \<Rightarrow> if negate then [(sp, cs)] else []
      | (_, cs') # _ \<Rightarrow> if negate then [] else [(sp, cs')])"

definition capture_sem :: "bool \<Rightarrow> nat \<Rightarrow> sem \<Rightarrow> sem" where
  "capture_sem bk i body sp cs =
     map (\<lambda>(y, cs'). (y, if bk then cs'[2 * i := int y, 2 * i + 1 := int sp]
                          else cs'[2 * i := int sp, 2 * i + 1 := int y])) (body sp cs)"

fun node_sem :: "unicode_env \<Rightarrow> int list \<Rightarrow> compiler \<Rightarrow> Node \<Rightarrow> sem"
  and node_sems :: "unicode_env \<Rightarrow> int list \<Rightarrow> compiler \<Rightarrow> Node list \<Rightarrow> sem list" where
  "node_sem ue inp c Empty = (\<lambda>sp cs. [(sp, cs)])"
| "node_sem ue inp c (CharN r) = consumer_sem inp (cu c) (charConsumer ue c r)"
| "node_sem ue inp c AnyChar = consumer_sem inp (cu c) (anyConsumer c)"
| "node_sem ue inp c (Assertion kind) =
     (\<lambda>sp cs. if assertion_holds c kind inp sp then [(sp, cs)] else [])"
| "node_sem ue inp c (CharClass negate s) = class_sem ue c inp negate s"
| "node_sem ue inp c (Concat ts) =
     seq_sem (if backw c then rev (node_sems ue inp c ts) else node_sems ue inp c ts)"
| "node_sem ue inp c (Disjunction ts) = alt_sem (node_sems ue inp c ts)"
| "node_sem ue inp c (Capture i name body) = capture_sem (backw c) i (node_sem ue inp c body)"
| "node_sem ue inp c (Group mods body) =
     (case mods of Some md \<Rightarrow> node_sem ue inp (withModifiers c md) body | None \<Rightarrow> node_sem ue inp c body)"
| "node_sem ue inp c (Quantifier mn mx greedy body) =
     rep_sem (backw c) (length inp) (node_sem ue inp c body) (fst (captureRange body))
       (snd (captureRange body)) greedy mn mx"
| "node_sem ue inp c (BackRef i) = ref_sem ue c inp (backref_span i)"
| "node_sem ue inp c (NamedBackRef name) =
     ref_sem ue c inp (namedBackref_span (case map_of (cnames c) name of None \<Rightarrow> [] | Some idxs \<Rightarrow> idxs))"
| "node_sem ue inp c (Lookaround behind negate body) =
     look_sem negate (node_sem ue inp (c\<lparr>backw := behind\<rparr>) body)"
| "node_sems ue inp c [] = []"
| "node_sems ue inp c (t # ts) = node_sem ue inp c t # node_sems ue inp c ts"

text \<open>
  What the parser guarantees of a tree, and the one restriction on classes: a class with
  strings is not compiled for right-to-left matching (there the code still reads forwards).
\<close>

fun node_wf :: "unicode_env \<Rightarrow> compiler \<Rightarrow> Node \<Rightarrow> bool" where
  "node_wf ue c (Disjunction ts) \<longleftrightarrow> list_all (node_wf ue c) ts"
| "node_wf ue c (Concat ts) \<longleftrightarrow> list_all (node_wf ue c) ts"
| "node_wf ue c (Lookaround bh ng b) \<longleftrightarrow> node_wf ue (c\<lparr>backw := bh\<rparr>) b"
| "node_wf ue c (Capture i nm b) \<longleftrightarrow> 1 \<le> i \<and> node_wf ue c b"
| "node_wf ue c (Group md b) \<longleftrightarrow>
     (case md of None \<Rightarrow> node_wf ue c b | Some x \<Rightarrow> node_wf ue (withModifiers c x) b)"
| "node_wf ue c (BackRef i) \<longleftrightarrow> 1 \<le> i"
| "node_wf ue c (NamedBackRef nm) \<longleftrightarrow>
     (\<forall>idxs. map_of (cnames c) nm = Some idxs \<longrightarrow> list_all (\<lambda>i. 1 \<le> i) idxs)"
| "node_wf ue c (Quantifier mn mx g b) \<longleftrightarrow> (mx < 0 \<or> int mn \<le> mx) \<and> node_wf ue c b"
| "node_wf ue c (CharClass ng s) \<longleftrightarrow>
     (backw c \<longrightarrow> (\<forall>st. compileClassSet ue c s = Inr st \<longrightarrow> cstrings st = []))"
| "node_wf ue c n \<longleftrightarrow> True"

subsection \<open>Refinement\<close>

definition caps_valid :: "nat \<Rightarrow> int list \<Rightarrow> bool" where
  "caps_valid len cs \<longleftrightarrow> (\<forall>i. 1 \<le> i \<and> 2 * i + 1 < length cs \<longrightarrow>
     (cs ! (2 * i) = -1 \<and> cs ! (2 * i + 1) = -1) \<or>
     (0 \<le> cs ! (2 * i) \<and> cs ! (2 * i) \<le> cs ! (2 * i + 1) \<and> cs ! (2 * i + 1) \<le> int len))"

definition rng :: "bool \<Rightarrow> nat \<Rightarrow> nat \<Rightarrow> nat set" where
  "rng bk len sp = (if bk then {..sp} else {sp..len})"

definition ready :: "int list \<Rightarrow> bool \<Rightarrow> nat \<Rightarrow> machine \<Rightarrow> bool" where
  "ready inp u slots m \<longleftrightarrow> static inp u slots m \<and> caps_valid (length inp) (caps m) \<and> err m = None"

definition ok_res :: "bool \<times> machine \<Rightarrow> int list \<Rightarrow> int list option \<Rightarrow> bool" where
  "ok_res r cs out \<longleftrightarrow> (err (snd r) = None \<longrightarrow>
     (case out of None \<Rightarrow> \<not> fst r \<and> caps (snd r) = cs | Some cs' \<Rightarrow> fst r \<and> caps (snd r) = cs'))"

definition agree :: "int list \<Rightarrow> bool \<Rightarrow> nat \<Rightarrow> cont \<Rightarrow> (nat \<Rightarrow> int list \<Rightarrow> int list option) \<Rightarrow> nat \<Rightarrow> bool" where
  "agree inp u slots k q y \<longleftrightarrow> (\<forall>m. ready inp u slots m \<longrightarrow> ok_res (k y m) (caps m) (q y (caps m)))"

definition lawful :: "int list \<Rightarrow> bool \<Rightarrow> nat \<Rightarrow> cont \<Rightarrow> bool" where
  "lawful inp u slots k \<longleftrightarrow> static.keeps inp u slots k \<and> failed.keeps slots k"

definition first_outcome :: "(nat \<Rightarrow> int list \<Rightarrow> int list option) \<Rightarrow> outcome list \<Rightarrow> int list option" where
  "first_outcome q outs = first_some (\<lambda>(y, cs). q y cs) outs"

definition refines :: "int list \<Rightarrow> bool \<Rightarrow> nat \<Rightarrow> bool \<Rightarrow> matcher \<Rightarrow> sem \<Rightarrow> bool" where
  "refines inp u slots bk x S \<longleftrightarrow> (\<forall>k q sp. sp \<le> length inp \<and> lawful inp u slots k \<and>
     (\<forall>y \<in> rng bk (length inp) sp. agree inp u slots k q y) \<longrightarrow>
     agree inp u slots (\<lambda>sp m. x m sp k) (\<lambda>sp cs. first_outcome q (S sp cs)) sp)"

definition sem_ok :: "int list \<Rightarrow> nat \<Rightarrow> bool \<Rightarrow> sem \<Rightarrow> bool" where
  "sem_ok inp slots bk S \<longleftrightarrow> (\<forall>sp cs y cs'. sp \<le> length inp \<and> caps_valid (length inp) cs \<and> length cs = slots \<and>
     (y, cs') \<in> set (S sp cs) \<longrightarrow>
     y \<in> rng bk (length inp) sp \<and> caps_valid (length inp) cs' \<and> length cs' = slots)"

lemma first_outcome_simps [simp]:
  "first_outcome q [] = None"
  "first_outcome q [(y, cs)] = q y cs"
  "first_outcome q (xs @ ys) = (case first_outcome q xs of Some z \<Rightarrow> Some z | None \<Rightarrow> first_outcome q ys)"
  by (auto simp: first_outcome_def first_some_append split: option.splits)

lemma first_outcome_Cons:
  "first_outcome q ((y, cs) # xs) = (case q y cs of Some z \<Rightarrow> Some z | None \<Rightarrow> first_outcome q xs)"
  by (simp add: first_outcome_def split: option.split)

lemma first_outcome_bind:
  "first_outcome q (concat (map (\<lambda>(y, cs). f y cs) xs)) = first_outcome (\<lambda>y cs. first_outcome q (f y cs)) xs"
  by (auto simp: first_outcome_def first_some_concat_map split_def)

lemma rng_mono: "y \<in> rng bk len sp \<Longrightarrow> sp \<le> len \<Longrightarrow> rng bk len y \<subseteq> rng bk len sp \<and> y \<le> len"
  by (auto simp: rng_def split: if_splits)

lemma rng_refl: "sp \<le> len \<Longrightarrow> sp \<in> rng bk len sp"
  by (auto simp: rng_def)

lemma moves_rng: "moves bk len sp y \<Longrightarrow> y \<in> rng bk len sp"
  by (auto simp: moves_def rng_def split: if_splits)

lemma rng_moves: "y \<in> rng bk len x \<Longrightarrow> \<not> moves bk len x y \<longleftrightarrow> y = x"
  by (auto simp: moves_def rng_def split: if_splits)

text \<open>
  The working rules: an error is never cleared, so a run that ends without one had none on the
  way; a continuation that fails leaves a machine that is ready again.
\<close>

lemma lawful_ready:
  assumes "lawful inp u slots k" "agree inp u slots k q y" "ready inp u slots m"
    and "k y m = (b, m')" "err m' = None"
  shows "(b \<longrightarrow> q y (caps m) = Some (caps m')) \<and>
    (\<not> b \<longrightarrow> q y (caps m) = None \<and> caps m' = caps m \<and> ready inp u slots m')"
proof -
  have ok: "ok_res (b, m') (caps m) (q y (caps m))"
    using assms(2-4) unfolding agree_def by metis
  have st: "static inp u slots m'"
    using assms(1,3,4) static.keepsD by (metis lawful_def ready_def)
  show ?thesis
    using ok st assms(3,5) by (auto simp: ok_res_def ready_def split: option.splits)
qed

lemma lawful_static:
  "lawful inp u slots k \<Longrightarrow> static inp u slots m \<Longrightarrow> k y m = (b, m') \<Longrightarrow> static inp u slots m'"
  using static.keeps_snd [of inp u slots k m y] by (simp add: lawful_def)

lemma lawful_err:
  "lawful inp u slots k \<Longrightarrow> static inp u slots m \<Longrightarrow> k y m = (b, m') \<Longrightarrow> err m' = None \<Longrightarrow> err m = None"
  using failed.keepsD [of slots k m y b m'] by (cases "err m") (auto simp: lawful_def failed_def static_def)

lemma agree_ok:
  "agree inp u slots k q y \<Longrightarrow> ready inp u slots m \<Longrightarrow> k y m = (b, m') \<Longrightarrow> ok_res (b, m') (caps m) (q y (caps m))"
  unfolding agree_def by metis

lemma agreeI:
  "(\<And>m b m'. ready inp u slots m \<Longrightarrow> k y m = (b, m') \<Longrightarrow> err m' = None \<Longrightarrow> ok_res (b, m') (caps m) (q y (caps m)))
    \<Longrightarrow> agree inp u slots k q y"
  unfolding agree_def by (metis ok_res_def prod.collapse)

lemma ok_resI:
  "(case out of None \<Rightarrow> \<not> b \<and> caps m = cs | Some cs' \<Rightarrow> b \<and> caps m = cs') \<Longrightarrow> ok_res (b, m) cs out"
  by (cases out) (simp_all add: ok_res_def)

lemma ready_step: "ready inp u slots m \<Longrightarrow> step m = (True, m1) \<Longrightarrow> ready inp u slots m1 \<and> caps m1 = caps m"
  using step_frame [of m True m1] by (auto simp: ready_def static_def)

lemma step_err: "step m = (False, m1) \<Longrightarrow> err m1 \<noteq> None"
  using step_frame [of m False m1] by auto

definition local_to_input :: "unitConsumer \<Rightarrow> bool" where
  "local_to_input cons \<longleftrightarrow> (\<forall>m m' sp. input m = input m' \<and> m_unicode m = m_unicode m' \<longrightarrow> cons m sp = cons m' sp)"

lemma refines_consumer:
  assumes loc: "local_to_input cons"
    and dir: "\<And>m sp np. cons m sp = Some np \<Longrightarrow> sp \<le> length (input m) \<Longrightarrow> np \<in> rng bk (length (input m)) sp"
  shows "refines inp u slots bk (consumerMatcher cons) (consumer_sem inp u cons)"
  unfolding refines_def
proof (intro allI impI agreeI, elim conjE)
  fix k q sp m b m'
  assume sp: "sp \<le> length inp" and k: "lawful inp u slots k"
    and ag: "\<forall>y \<in> rng bk (length inp) sp. agree inp u slots k q y"
    and m: "ready inp u slots m" and run: "consumerMatcher cons m sp k = (b, m')" and e: "err m' = None"
  obtain m1 where st: "step m = (True, m1)"
    using run e m step_err [of m "snd (step m)"]
    by (cases "step m") (auto simp: consumerMatcher_def ready_def split: if_splits)
  have m1: "ready inp u slots m1" "caps m1 = caps m" using ready_step [OF m st] by auto
  have same: "cons m1 sp = cons (probe inp u (caps m)) sp"
    using loc m1(1) by (simp add: local_to_input_def ready_def static_def probe_def)
  show "ok_res (b, m') (caps m) (first_outcome q (consumer_sem inp u cons sp (caps m)))"
  proof (cases "cons m1 sp")
    case None
    then show ?thesis using run st m same m1
      by (auto simp: consumerMatcher_def ready_def consumer_sem_def ok_res_def)
  next
    case (Some np)
    have "np \<in> rng bk (length inp) sp" using dir [OF Some] sp m1(1) by (simp add: ready_def static_def)
    moreover have "k np m1 = (b, m')" using run st m Some by (auto simp: consumerMatcher_def ready_def)
    ultimately have "ok_res (b, m') (caps m) (q np (caps m))"
      using agree_ok [OF _ m1(1)] ag m1(2) by metis
    then show ?thesis using same [symmetric] Some by (simp add: consumer_sem_def)
  qed
qed

lemma codePoint_local:
  assumes "input m = input m'" "m_unicode m = m_unicode m'"
  shows "codePointAt m sp = codePointAt m' sp" "codePointBefore m sp = codePointBefore m' sp"
    "readCP c m sp = readCP c m' sp"
proof -
  show a: "codePointAt m sp = codePointAt m' sp" and b: "codePointBefore m sp = codePointBefore m' sp"
    by (simp_all only: codePointAt_def codePointBefore_def assms)
  show "readCP c m sp = readCP c m' sp" by (simp add: readCP_def a b assms)
qed

lemma local_consumers [simp]:
  "local_to_input (charConsumer ue c r)" "local_to_input (anyConsumer c)"
  "local_to_input (classConsumer ue c s negate)"
  "local_to_input (\<lambda>m sp. if assertion_holds c kind (input m) sp then Some sp else None)"
proof -
  have e: "charConsumer ue c r m sp = charConsumer ue c r m' sp" "anyConsumer c m sp = anyConsumer c m' sp"
    "classConsumer ue c s negate m sp = classConsumer ue c s negate m' sp"
    if "input m = input m'" "m_unicode m = m_unicode m'" for m m' sp
    by (simp_all add: charConsumer_def anyConsumer_def classConsumer_def Let_def split_def
        codePoint_local(3) [OF that] that(1))
  show "local_to_input (charConsumer ue c r)" "local_to_input (anyConsumer c)"
    "local_to_input (classConsumer ue c s negate)"
    unfolding local_to_input_def by (intro allI impI, elim conjE, erule (1) e)+
qed (simp add: local_to_input_def)

lemma assertion_as_consumer:
  "assertionMatcher c kind = consumerMatcher (\<lambda>m sp. if assertion_holds c kind (input m) sp then Some sp else None)"
  by (intro ext) (auto simp: assertionMatcher_def consumerMatcher_def split: prod.split)

lemma refines_assertion:
  "refines inp u slots bk (assertionMatcher c kind)
     (\<lambda>sp cs. if assertion_holds c kind inp sp then [(sp, cs)] else [])"
proof -
  have "consumer_sem inp u (\<lambda>m sp. if assertion_holds c kind (input m) sp then Some sp else None) =
      (\<lambda>sp cs. if assertion_holds c kind inp sp then [(sp, cs)] else [])"
    by (intro ext) (simp add: consumer_sem_def probe_def)
  moreover have "refines inp u slots bk
      (consumerMatcher (\<lambda>m sp. if assertion_holds c kind (input m) sp then Some sp else None))
      (consumer_sem inp u (\<lambda>m sp. if assertion_holds c kind (input m) sp then Some sp else None))"
    by (rule refines_consumer) (auto simp: rng_refl split: if_splits)
  ultimately show ?thesis by (simp only: assertion_as_consumer)
qed

lemma refines_unit_consumer:
  "local_to_input cons \<Longrightarrow> consumes bk cons \<Longrightarrow> refines inp u slots bk (consumerMatcher cons) (consumer_sem inp u cons)"
  by (rule refines_consumer) (auto simp: consumes_def intro: moves_rng)

subsection \<open>Refinement of the combinators\<close>

definition lawful_matcher :: "int list \<Rightarrow> bool \<Rightarrow> nat \<Rightarrow> matcher \<Rightarrow> bool" where
  "lawful_matcher inp u slots x \<longleftrightarrow> static.matcher_keeps inp u slots x \<and> failed.matcher_keeps slots x"

lemma lawful_run: "lawful_matcher inp u slots x \<Longrightarrow> lawful inp u slots k \<Longrightarrow> lawful inp u slots (\<lambda>sp m. x m sp k)"
  unfolding lawful_matcher_def lawful_def static.matcher_keeps_def failed.matcher_keeps_def by blast

lemma refinesD:
  "refines inp u slots bk x S \<Longrightarrow> sp \<le> length inp \<Longrightarrow> lawful inp u slots k \<Longrightarrow>
   (\<And>y. y \<in> rng bk (length inp) sp \<Longrightarrow> agree inp u slots k q y) \<Longrightarrow>
   agree inp u slots (\<lambda>sp m. x m sp k) (\<lambda>sp cs. first_outcome q (S sp cs)) sp"
  unfolding refines_def by blast

lemma refinesI:
  "(\<And>k q sp m b m'. sp \<le> length inp \<Longrightarrow> lawful inp u slots k \<Longrightarrow>
     (\<And>y. y \<in> rng bk (length inp) sp \<Longrightarrow> agree inp u slots k q y) \<Longrightarrow>
     ready inp u slots m \<Longrightarrow> x m sp k = (b, m') \<Longrightarrow> err m' = None \<Longrightarrow>
     ok_res (b, m') (caps m) (first_outcome q (S sp (caps m)))) \<Longrightarrow>
   refines inp u slots bk x S"
  unfolding refines_def by (intro allI impI agreeI) blast

lemma enter_frame: "enter m = (b, m1) \<Longrightarrow>
    input m1 = input m \<and> m_unicode m1 = m_unicode m \<and> caps m1 = caps m
    \<and> (b \<longrightarrow> err m1 = err m) \<and> (\<not> b \<longrightarrow> err m1 \<noteq> None)"
  by (auto simp: enter_def split: if_splits)

lemma ready_enter: "ready inp u slots m \<Longrightarrow> enter m = (True, m1) \<Longrightarrow> ready inp u slots m1 \<and> caps m1 = caps m"
  using enter_frame [of m True m1] by (auto simp: ready_def static_def)

lemma leave_simps [simp]: "caps (leave m) = caps m" "err (leave m) = err m" "input (leave m) = input m"
  by (simp_all add: leave_def)

lemma ok_res_leave [simp]: "ok_res (b, leave m) cs out = ok_res (b, m) cs out"
  by (simp add: ok_res_def split: option.split)

lemma concat_run_lawful:
  "\<forall>x \<in> set xs. lawful_matcher inp u slots x \<Longrightarrow> lawful inp u slots k \<Longrightarrow>
   lawful inp u slots (\<lambda>sp m. concat_run xs k m sp)"
  using static.concat_run_keeps [of xs inp u slots k] failed.concat_run_keeps [of xs slots k]
  by (simp add: lawful_def lawful_matcher_def)

lemma refines_concat_run:
  assumes "list_all2 (refines inp u slots bk) xs Ss" "\<forall>x \<in> set xs. lawful_matcher inp u slots x"
  shows "refines inp u slots bk (\<lambda>m sp k. concat_run xs k m sp) (seq_sem Ss)"
  using assms
proof (induction rule: list_all2_induct)
  case Nil
  show ?case
  proof (rule refinesI, goal_cases)
    case (1 k q sp m b m')
    then have "k sp m = (b, m')" by (auto simp: ready_def)
    then show ?case using agree_ok [OF 1(3) [OF rng_refl [OF 1(1)]] 1(4)] by simp
  qed
next
  case (Cons x xs S Ss)
  show ?case
  proof (rule refinesI)
    fix k q sp m b m'
    assume sp: "sp \<le> length inp" and k: "lawful inp u slots k"
      and ag: "\<And>y. y \<in> rng bk (length inp) sp \<Longrightarrow> agree inp u slots k q y"
      and m: "ready inp u slots m" and run: "concat_run (x # xs) k m sp = (b, m')" and e: "err m' = None"
    let ?k = "\<lambda>sp2 m'. concat_run xs k m' sp2"
    let ?q = "\<lambda>y cs. first_outcome q (seq_sem Ss y cs)"
    have lk: "lawful inp u slots ?k" using concat_run_lawful Cons.prems k by simp
    have "agree inp u slots ?k ?q y" if "y \<in> rng bk (length inp) sp" for y
      using Cons.IH Cons.prems k ag rng_mono [OF that sp] by (intro refinesD [of _ _ _ bk]) auto
    then have ax: "agree inp u slots (\<lambda>sp m. x m sp ?k) (\<lambda>sp cs. first_outcome ?q (S sp cs)) sp"
      by (rule refinesD [OF Cons.hyps(1) sp lk])
    obtain m1 where en: "enter m = (True, m1)"
      using run e m enter_frame [of m False] by (cases "enter m") (auto simp: ready_def split: if_splits)
    obtain m2 where x: "x m1 sp ?k = (b, m2)" and m2: "m' = leave m2"
      using run en m by (auto simp: ready_def split: prod.splits)
    have "ok_res (b, m2) (caps m) (first_outcome ?q (S sp (caps m)))"
      using agree_ok [OF ax, of m1] ready_enter [OF m en] x by auto
    then show "ok_res (b, m') (caps m) (first_outcome q (seq_sem (S # Ss) sp (caps m)))"
      by (simp add: m2 first_outcome_bind)
  qed
qed

lemma disjunction_run_lawful:
  "\<forall>x \<in> set xs. lawful_matcher inp u slots x \<Longrightarrow> lawful_matcher inp u slots (\<lambda>m sp k. disjunction_run xs sp k m)"
  using static.disjunction_keeps [of xs inp u slots] failed.disjunction_keeps [of xs slots]
  by (simp add: lawful_matcher_def)

lemma refines_disjunction:
  assumes "list_all2 (refines inp u slots bk) xs Ss" "\<forall>x \<in> set xs. lawful_matcher inp u slots x"
  shows "refines inp u slots bk (\<lambda>m sp k. disjunction_run xs sp k m) (alt_sem Ss)"
  using assms
proof (induction rule: list_all2_induct)
  case Nil
  show ?case by (rule refinesI) (simp add: alt_sem_def ok_res_def)
next
  case (Cons x xs S Ss)
  show ?case
  proof (rule refinesI)
    fix k q sp m b m'
    assume sp: "sp \<le> length inp" and k: "lawful inp u slots k"
      and ag: "\<And>y. y \<in> rng bk (length inp) sp \<Longrightarrow> agree inp u slots k q y"
      and m: "ready inp u slots m" and run: "disjunction_run (x # xs) sp k m = (b, m')" and e: "err m' = None"
    obtain b1 m1 where x: "x m sp k = (b1, m1)" by force
    have lx: "lawful inp u slots (\<lambda>sp m. x m sp k)" using Cons.prems k lawful_run by simp
    have ax: "agree inp u slots (\<lambda>sp m. x m sp k) (\<lambda>sp cs. first_outcome q (S sp cs)) sp"
      by (rule refinesD [OF Cons.hyps(1) sp k ag])
    have lr: "lawful inp u slots (\<lambda>sp m. disjunction_run xs sp k m)"
      using lawful_run [OF disjunction_run_lawful k] Cons.prems by simp
    have ar: "agree inp u slots (\<lambda>sp m. disjunction_run xs sp k m) (\<lambda>sp cs. first_outcome q (alt_sem Ss sp cs)) sp"
      using refinesD [OF Cons.IH sp k ag] Cons.prems by simp
    have st: "static inp u slots m1"
      using static.keepsD [of inp u slots "\<lambda>sp m. x m sp k" m sp b1 m1] lx m x by (simp add: lawful_def ready_def)
    show "ok_res (b, m') (caps m) (first_outcome q (alt_sem (S # Ss) sp (caps m)))"
    proof (cases b1)
      case True
      then have "b" "m' = m1" using run x m by (auto simp: ready_def)
      then show ?thesis
        using lawful_ready [OF lx ax m x] True e by (auto simp: alt_sem_def ok_res_def)
    next
      case False
      then have run2: "disjunction_run xs sp k m1 = (b, m')" using run x m by (auto simp: ready_def)
      have "err m1 = None" using lawful_err [OF lr st run2 e] .
      then have r: "first_outcome q (S sp (caps m)) = None" "caps m1 = caps m" "ready inp u slots m1"
        using lawful_ready [OF lx ax m x] False by auto
      show ?thesis using agree_ok [OF ar r(3) run2] r(1,2) by (simp add: alt_sem_def)
    qed
  qed
qed

lemma nth_update_if: "xs[i := v] ! j = (if i = j \<and> j < length xs then v else xs ! j)"
  by (cases "i < length xs") (auto simp: nth_list_update list_update_beyond)

lemma group_nth:
  "cs[2 * i := s, Suc (2 * i) := e] ! (2 * j) = (if j = i \<and> 2 * i < length cs then s else cs ! (2 * j))"
  "cs[2 * i := s, Suc (2 * i) := e] ! Suc (2 * j) = (if j = i \<and> Suc (2 * i) < length cs then e else cs ! Suc (2 * j))"
proof -
  have "Suc (2 * i) \<noteq> 2 * j" "2 * i \<noteq> Suc (2 * j)" by presburger+
  then show "cs[2 * i := s, Suc (2 * i) := e] ! (2 * j) = (if j = i \<and> 2 * i < length cs then s else cs ! (2 * j))"
    "cs[2 * i := s, Suc (2 * i) := e] ! Suc (2 * j) = (if j = i \<and> Suc (2 * i) < length cs then e else cs ! Suc (2 * j))"
    by (auto simp: nth_update_if)
qed

lemma group_restore:
  "cs[2 * i := s, Suc (2 * i) := e, 2 * i := cs ! (2 * i), Suc (2 * i) := cs ! Suc (2 * i)] = cs"
  by (rule nth_equalityI) (auto simp: nth_update_if)

lemma caps_valid_group:
  "caps_valid len cs \<Longrightarrow> 0 \<le> s \<Longrightarrow> s \<le> e \<Longrightarrow> e \<le> int len \<Longrightarrow> caps_valid len (cs[2 * i := s, Suc (2 * i) := e])"
  unfolding caps_valid_def
proof (intro allI impI, goal_cases)
  case (1 j)
  then show ?case using spec [OF 1(1), of j] by (cases "j = i") (simp_all add: group_nth)
qed

definition capture_cont :: "compiler \<Rightarrow> nat \<Rightarrow> nat \<Rightarrow> cont \<Rightarrow> cont" where
  "capture_cont c i sp k = (\<lambda>end m'.
      let ps = caps m' ! (2 * i); pe = caps m' ! (2 * i + 1);
        m2 = (if backw c then setGroup m' i (int end) (int sp) else setGroup m' i (int sp) (int end));
        (b, m3) = k end m2 in if b then (True, m3) else (False, setGroup m3 i ps pe))"

context machine_invariant
begin

lemma capture_cont_keeps:
  assumes k: "keeps k"
  shows "keeps (capture_cont c i sp k)"
  unfolding capture_cont_def Let_def
  by (rule keepsI) (auto intro!: keep_rules keeps_snd [OF k])

end

lemma capture_cont_lawful: "lawful inp u slots k \<Longrightarrow> lawful inp u slots (capture_cont c i sp k)"
  by (simp add: lawful_def static.capture_cont_keeps failed.capture_cont_keeps)

lemma capture_matcher_alt:
  "capture_matcher c i x m sp k =
     (if \<not> group_in_range m i then fail_with ErrPanic m
      else let (ok, m1) = x m sp (capture_cont c i sp k) in
        if ok then (True, m1) else (False, setGroup m1 i (caps m ! (2 * i)) (caps m ! (2 * i + 1))))"
  by (simp only: capture_matcher_def capture_cont_def Let_def)

definition capture_upd :: "bool \<Rightarrow> nat \<Rightarrow> nat \<Rightarrow> nat \<Rightarrow> int list \<Rightarrow> int list" where
  "capture_upd bk i sp y cs = (if bk then cs[2 * i := int y, Suc (2 * i) := int sp]
     else cs[2 * i := int sp, Suc (2 * i) := int y])"

lemma capture_cont_agree:
  assumes sp: "sp \<le> length inp" and y: "y \<in> rng (backw c) (length inp) sp" and ag: "agree inp u slots k q y"
  shows "agree inp u slots (capture_cont c i sp k) (\<lambda>y cs. q y (capture_upd (backw c) i sp y cs)) y"
proof (rule agreeI)
  fix m b m' assume m: "ready inp u slots m" and run: "capture_cont c i sp k y m = (b, m')" and e: "err m' = None"
  let ?m = "m\<lparr>caps := capture_upd (backw c) i sp y (caps m)\<rparr>"
  have r: "ready inp u slots ?m"
    using m y sp by (auto simp: ready_def static_def capture_upd_def rng_def intro!: caps_valid_group)
  obtain m3 where k3: "k y ?m = (b, m3)"
    and m3: "m' = (if b then m3 else setGroup m3 i (caps m ! (2 * i)) (caps m ! (2 * i + 1)))"
    using run by (auto simp: capture_cont_def capture_upd_def setGroup_def Let_def split: prod.splits if_splits)
  have "ok_res (b, m3) (capture_upd (backw c) i sp y (caps m)) (q y (capture_upd (backw c) i sp y (caps m)))"
    using agree_ok [OF ag r k3] by simp
  moreover have "caps (setGroup m3 i (caps m ! (2 * i)) (caps m ! (2 * i + 1))) = caps m"
    if "caps m3 = capture_upd (backw c) i sp y (caps m)"
    using that by (simp add: setGroup_def capture_upd_def group_restore)
  ultimately show "ok_res (b, m') (caps m) (q y (capture_upd (backw c) i sp y (caps m)))"
    using e by (auto simp: ok_res_def m3 setGroup_def split: option.splits if_splits)
qed

lemma refines_capture:
  assumes body: "refines inp u slots (backw c) x S"
  shows "refines inp u slots (backw c) (capture_matcher c i x) (capture_sem (backw c) i S)"
proof (rule refinesI)
  fix k q sp m b m'
  assume sp: "sp \<le> length inp" and k: "lawful inp u slots k"
    and ag: "\<And>y. y \<in> rng (backw c) (length inp) sp \<Longrightarrow> agree inp u slots k q y"
    and m: "ready inp u slots m" and run: "capture_matcher c i x m sp k = (b, m')" and e: "err m' = None"
  let ?q = "\<lambda>y cs. q y (capture_upd (backw c) i sp y cs)"
  obtain b1 m1 where x: "x m sp (capture_cont c i sp k) = (b1, m1)" by force
  have m': "b = b1" "m' = (if b1 then m1 else setGroup m1 i (caps m ! (2 * i)) (caps m ! (2 * i + 1)))"
    using run x e by (auto simp: capture_matcher_alt fail_with_def split: if_splits)
  have "ok_res (b1, m1) (caps m) (first_outcome ?q (S sp (caps m)))"
    by (rule agree_ok [OF refinesD [OF body sp capture_cont_lawful [OF k] capture_cont_agree [OF sp _ ag]] m x])
  then have "ok_res (b, m') (caps m) (first_outcome ?q (S sp (caps m)))"
    using e by (auto simp: ok_res_def m' setGroup_def split: option.splits if_splits)
  then show "ok_res (b, m') (caps m) (first_outcome q (capture_sem (backw c) i S sp (caps m)))"
    by (simp add: first_outcome_def capture_sem_def first_some_map capture_upd_def split_def comp_def
        cong: if_cong)
qed

lemma found_lawful: "lawful inp u slots (\<lambda>_ m'. (True, m'))"
  by (simp add: lawful_def static.keeps_found failed.keeps_found)

lemma found_agree: "agree inp u slots (\<lambda>_ m'. (True, m')) (\<lambda>y cs. Some cs) y"
  by (simp add: agree_def ok_res_def)

lemma first_outcome_found:
  "first_outcome (\<lambda>y cs. Some cs) outs = (case outs of [] \<Rightarrow> None | (y, cs) # _ \<Rightarrow> Some cs)"
  by (cases outs) (auto simp: first_outcome_def)

lemma look_run_err:
  assumes "lawful_matcher inp u slots x" "ready inp u slots m" "x m sp (\<lambda>_ m'. (True, m')) = (b, m1)"
  shows "static inp u slots m1"
  using static.matcher_keeps_snd [OF _ static.keeps_found, of inp u slots x m sp] assms
  by (simp add: lawful_matcher_def ready_def)

lemma look_body:
  assumes body: "refines inp u slots bk x S" and lx: "lawful_matcher inp u slots x" and ok: "sem_ok inp slots bk S"
    and sp: "sp \<le> length inp" and m: "ready inp u slots m"
    and run: "x m sp (\<lambda>_ m'. (True, m')) = (b, m1)" and e: "err m1 = None"
  shows "case S sp (caps m) of
      [] \<Rightarrow> \<not> b \<and> caps m1 = caps m \<and> ready inp u slots m1
    | (y, cs) # _ \<Rightarrow> b \<and> caps m1 = cs \<and> ready inp u slots m1"
proof -
  have "agree inp u slots (\<lambda>sp m. x m sp (\<lambda>_ m'. (True, m')))
      (\<lambda>sp cs. first_outcome (\<lambda>y cs. Some cs) (S sp cs)) sp"
    by (rule refinesD [OF body sp found_lawful found_agree])
  then have r: "ok_res (b, m1) (caps m) (first_outcome (\<lambda>y cs. Some cs) (S sp (caps m)))"
    using agree_ok m run by fastforce
  note st = look_run_err [OF lx m run]
  show ?thesis
  proof (cases "S sp (caps m)")
    case Nil
    then show ?thesis using r e st m by (simp add: ok_res_def ready_def)
  next
    case (Cons o1 os)
    obtain y cs where o1: "o1 = (y, cs)" by force
    have "caps_valid (length inp) cs"
      using ok sp m Cons o1 unfolding sem_ok_def ready_def static_def by (metis list.set_intros(1))
    then show ?thesis using r e st Cons o1 by (simp add: ok_res_def ready_def first_outcome_found)
  qed
qed

lemma ready_setAll: "ready inp u slots m1 \<Longrightarrow> ready inp u slots m \<Longrightarrow> ready inp u slots (setAll m1 (cloneAll m))"
  by (simp add: ready_def static_def setAll_def cloneAll_def)

lemma refines_look_pos:
  assumes body: "refines inp u slots bk x S" and lx: "lawful_matcher inp u slots x" and ok: "sem_ok inp slots bk S"
  shows "refines inp u slots bk' (look_pos x) (look_sem False S)"
proof (rule refinesI)
  fix k q sp m b m'
  assume sp: "sp \<le> length inp" and k: "lawful inp u slots k"
    and ag: "\<And>y. y \<in> rng bk' (length inp) sp \<Longrightarrow> agree inp u slots k q y"
    and m: "ready inp u slots m" and run: "look_pos x m sp k = (b, m')" and e: "err m' = None"
  obtain b1 m1 where x: "x m sp (\<lambda>_ m'. (True, m')) = (b1, m1)" by force
  obtain b2 m2 where k2: "k sp m1 = (b2, m2)" by force
  have res: "b = (b1 \<and> b2)" "m' = (if b1 then if b2 then m2 else setAll m2 (cloneAll m) else setAll m1 (cloneAll m))"
    using run x k2 m by (auto simp: look_pos_def ready_def Let_def split: if_splits)
  have e1: "err m1 = None"
    using e res(2) lawful_err [OF k look_run_err [OF lx m x] k2] by (auto simp: setAll_def split: if_splits)
  note bd = look_body [OF body lx ok sp m x e1]
  have a: "agree inp u slots k q sp" using ag rng_refl sp by blast
  show "ok_res (b, m') (caps m) (first_outcome q (look_sem False S sp (caps m)))"
  proof (cases "S sp (caps m)")
    case Nil
    then show ?thesis using bd res by (simp add: look_sem_def ok_res_def setAll_def cloneAll_def)
  next
    case (Cons o1 os)
    obtain y cs where o1: "o1 = (y, cs)" by force
    have m1: "b1" "caps m1 = cs" "ready inp u slots m1" using bd Cons o1 by auto
    show ?thesis using agree_ok [OF a m1(3) k2] m1(1,2) Cons o1 res
      by (auto simp: look_sem_def ok_res_def setAll_def cloneAll_def split: option.splits)
  qed
qed

lemma refines_look_neg:
  assumes body: "refines inp u slots bk x S" and lx: "lawful_matcher inp u slots x" and ok: "sem_ok inp slots bk S"
  shows "refines inp u slots bk' (look_neg x) (look_sem True S)"
proof (rule refinesI)
  fix k q sp m b m'
  assume sp: "sp \<le> length inp" and k: "lawful inp u slots k"
    and ag: "\<And>y. y \<in> rng bk' (length inp) sp \<Longrightarrow> agree inp u slots k q y"
    and m: "ready inp u slots m" and run: "look_neg x m sp k = (b, m')" and e: "err m' = None"
  obtain b1 m1 where x: "x m sp (\<lambda>_ m'. (True, m')) = (b1, m1)" by force
  let ?m2 = "setAll m1 (cloneAll m)"
  have res: "if b1 then \<not> b \<and> m' = ?m2 else k sp ?m2 = (b, m')"
    using run x m by (auto simp: look_neg_def ready_def Let_def split: if_splits)
  have st: "static inp u slots ?m2"
    using look_run_err [OF lx m x] m by (simp add: static_def ready_def setAll_def cloneAll_def)
  have e1: "err m1 = None"
    using e res lawful_err [OF k st, of sp b m'] by (auto simp: setAll_def split: if_splits)
  note bd = look_body [OF body lx ok sp m x e1]
  have a: "agree inp u slots k q sp" using ag rng_refl sp by blast
  show "ok_res (b, m') (caps m) (first_outcome q (look_sem True S sp (caps m)))"
  proof (cases "S sp (caps m)")
    case Nil
    then have m1: "\<not> b1" "ready inp u slots m1" using bd by simp_all
    show ?thesis using agree_ok [OF a ready_setAll [OF m1(2) m], of b m'] res m1(1) Nil
      by (simp add: look_sem_def setAll_def cloneAll_def)
  next
    case (Cons o1 os)
    then show ?thesis using bd res by (auto simp: look_sem_def ok_res_def setAll_def cloneAll_def)
  qed
qed

text \<open>Back references and classes with strings.\<close>

lemma ref_fold_local:
  assumes "input m = input m'" "m_unicode m = m_unicode m'"
  shows "ref_fold_fwd ue u m e i j = ref_fold_fwd ue u m' e i j"
    "ref_fold_back ue u m s i' j' = ref_fold_back ue u m' s i' j'"
proof -
  note loc = codePoint_local [OF assms]
  show "ref_fold_fwd ue u m e i j = ref_fold_fwd ue u m' e i j"
  proof (induction "e - j" arbitrary: i j rule: less_induct)
    case less
    obtain ri wi rj wj where c: "codePointAt m i = (ri, wi)" "codePointAt m j = (rj, wj)" by force
    have "ref_fold_fwd ue u m e (i + wi) (j + wj) = ref_fold_fwd ue u m' e (i + wi) (j + wj)" if "j < e"
      using less.hyps [of "j + wj"] width_pos(1) [of m j] that c by simp
    then show ?case
      using c loc(1) assms(1) by (simp add: ref_fold_fwd.simps [of ue u _ e i j])
  qed
  show "ref_fold_back ue u m s i' j' = ref_fold_back ue u m' s i' j'"
  proof (induction "nat j'" arbitrary: i' j' rule: less_induct)
    case less
    obtain ri wi rj wj where c: "codePointBefore m i' = (ri, wi)" "codePointBefore m (nat j') = (rj, wj)" by force
    have "ref_fold_back ue u m s (i' - wi) (j' - int wj) = ref_fold_back ue u m' s (i' - wi) (j' - int wj)" if "0 < j'"
      using less.hyps [of "j' - int wj"] width_pos(2) [of m "nat j'"] that c by simp
    then show ?case
      using c loc(2) by (simp add: ref_fold_back.simps [of ue u _ s i' j'])
  qed
qed

lemma ref_fold_fwd_range:
  "ref_fold_fwd ue u m e i j = Some np \<Longrightarrow> i \<le> length (input m) \<Longrightarrow> i \<le> np \<and> np \<le> length (input m)"
proof (induction "e - j" arbitrary: i j rule: less_induct)
  case less
  obtain ri wi rj wj where c: "codePointAt m i = (ri, wi)" "codePointAt m j = (rj, wj)" by force
  show ?case
  proof (cases "j < e")
    case False
    then show ?thesis using less.prems by (simp add: ref_fold_fwd.simps [of ue u m e i j])
  next
    case True
    then have r: "i < length (input m)" "ref_fold_fwd ue u m e (i + wi) (j + wj) = Some np"
      using less.prems(1) c by (auto simp: ref_fold_fwd.simps [of ue u m e i j] split: if_splits)
    have "e - (j + wj) < e - j" using width_pos(1) [of m j] c True by simp
    from less.hyps [OF this r(2)] show ?thesis
      using codePoint_width(1) [OF c(1) r(1)] by simp
  qed
qed

lemma ref_fold_back_range: "ref_fold_back ue u m s i j = Some np \<Longrightarrow> np \<le> i"
proof (induction "nat j" arbitrary: i j rule: less_induct)
  case less
  obtain ri wi rj wj where c: "codePointBefore m i = (ri, wi)" "codePointBefore m (nat j) = (rj, wj)" by force
  show ?case
  proof (cases "s < j \<and> 0 < j")
    case False
    then show ?thesis using less.prems by (auto simp: ref_fold_back.simps [of ue u m s i j] split: if_splits)
  next
    case True
    then have r: "ref_fold_back ue u m s (i - wi) (j - int wj) = Some np"
      using less.prems(1) c by (auto simp: ref_fold_back.simps [of ue u m s i j] split: if_splits)
    then show ?thesis
      using less.hyps [OF _ r] width_pos(2) [of m "nat j"] c True by fastforce
  qed
qed

lemma ref_end_local:
  "input m = input m' \<Longrightarrow> m_unicode m = m_unicode m' \<Longrightarrow> ref_end ue c m s e sp = ref_end ue c m' s e sp"
  by (simp add: ref_end_def ref_fold_local [of m m'])

lemma ref_end_range:
  assumes "ref_end ue c m s e sp = Some np" "sp \<le> length (input m)" "s \<le> e"
  shows "np \<in> rng (backw c) (length (input m)) sp"
  using assms ref_fold_fwd_range [of ue "cu c" m "nat e" sp "nat s" np] ref_fold_back_range [of ue "cu c" m s sp e np]
  by (auto simp: ref_end_def rng_def split: if_splits)

lemma refines_ref:
  assumes loc: "\<And>m m'. caps m = caps m' \<Longrightarrow> resolve m = resolve m'"
    and span: "\<And>m s e. ready inp u slots m \<Longrightarrow> resolve m = Some (s, e) \<Longrightarrow> 0 \<le> s \<Longrightarrow> s \<le> e"
    and u: "cu c = u"
  shows "refines inp u slots (backw c) (refMatcher ue c resolve) (ref_sem ue c inp resolve)"
proof (rule refinesI)
  fix k q sp m b m'
  assume sp: "sp \<le> length inp" and k: "lawful inp u slots k"
    and ag: "\<And>y. y \<in> rng (backw c) (length inp) sp \<Longrightarrow> agree inp u slots k q y"
    and m: "ready inp u slots m" and run: "refMatcher ue c resolve m sp k = (b, m')" and e: "err m' = None"
  let ?p = "probe inp (cu c) (caps m)"
  obtain m1 where st: "step m = (True, m1)"
    using run e m step_err [of m "snd (step m)"]
    by (cases "step m") (auto simp: refMatcher_def ready_def split: if_splits)
  have m1: "ready inp u slots m1" "caps m1 = caps m" using ready_step [OF m st] by auto
  have fr: "input m1 = input ?p" "m_unicode m1 = m_unicode ?p" "input m1 = inp"
    using m1(1) u by (simp_all add: ready_def static_def probe_def)
  obtain s f where sf: "resolve m1 = Some (s, f)"
    using run e st m by (auto simp: refMatcher_def ready_def fail_with_def split: option.splits)
  have rp: "resolve ?p = Some (s, f)" using loc [of m1 ?p] sf m1(2) by (simp add: probe_def)
  have re: "ref_end ue c ?p s f sp = ref_end ue c m1 s f sp" by (rule ref_end_local) (simp_all add: fr)
  show "ok_res (b, m') (caps m) (first_outcome q (ref_sem ue c inp resolve sp (caps m)))"
  proof (cases "s < 0 \<or> f < 0")
    case True
    then have "k sp m1 = (b, m')" using run st m sf by (auto simp: refMatcher_def ready_def)
    then have "ok_res (b, m') (caps m) (q sp (caps m))"
      using agree_ok [OF ag [OF rng_refl [OF sp]] m1(1)] m1(2) by metis
    then show ?thesis using True by (simp add: ref_sem_def Let_def rp)
  next
    case False
    then have le: "s \<le> f" using span [OF m1(1) sf] by simp
    show ?thesis
    proof (cases "ref_end ue c m1 s f sp")
      case None
      then show ?thesis using run st m sf False m1 rp re
        by (auto simp: refMatcher_def ready_def ok_res_def ref_sem_def Let_def)
    next
      case (Some np)
      have y: "np \<in> rng (backw c) (length inp) sp"
        using ref_end_range [OF Some _ le] sp fr(3) by simp
      have "k np m1 = (b, m')" using run st m sf False Some by (auto simp: refMatcher_def ready_def)
      then have "ok_res (b, m') (caps m) (q np (caps m))"
        using agree_ok [OF ag [OF y] m1(1)] m1(2) by metis
      then show ?thesis using False Some by (simp add: ref_sem_def Let_def rp re)
    qed
  qed
qed

lemma span_valid:
  assumes "ready inp u slots m" "1 \<le> i" "group_in_range m i" "0 \<le> caps m ! (2 * i)"
  shows "caps m ! (2 * i) \<le> caps m ! (2 * i + 1)"
  using assms by (fastforce simp: ready_def caps_valid_def group_in_range_def)

lemma refines_backref:
  "1 \<le> i \<Longrightarrow> cu c = u \<Longrightarrow> refines inp u slots (backw c) (backref ue c i) (ref_sem ue c inp (backref_span i))"
  unfolding backref_def
proof (rule refines_ref)
  fix m s e assume "1 \<le> i" "ready inp u slots m" "backref_span i m = Some (s, e)" "0 \<le> s"
  then show "s \<le> e" using span_valid [of inp u slots m i] by (auto simp: backref_span_def split: if_splits)
qed (simp_all add: backref_span_def group_in_range_def)

lemma namedBackref_span_cases:
  "namedBackref_span idxs m = Some (s, e) \<Longrightarrow> (s, e) = (-1, -1) \<or>
     (\<exists>i \<in> set idxs. group_in_range m i \<and> s = caps m ! (2 * i) \<and> e = caps m ! (2 * i + 1))"
  by (induction idxs) (auto split: if_splits)

lemma namedBackref_span_local: "caps m = caps m' \<Longrightarrow> namedBackref_span idxs m = namedBackref_span idxs m'"
  by (induction idxs) (auto simp: group_in_range_def)

lemma refines_namedBackref:
  assumes "list_all (\<lambda>i. 1 \<le> i) idxs" "cu c = u"
  shows "refines inp u slots (backw c) (namedBackref ue c idxs) (ref_sem ue c inp (namedBackref_span idxs))"
  unfolding namedBackref_def
proof (rule refines_ref [OF namedBackref_span_local _ assms(2)])
  fix m s e assume "ready inp u slots m" "namedBackref_span idxs m = Some (s, e)" "0 \<le> s"
  then show "s \<le> e" using namedBackref_span_cases [of idxs m s e] span_valid assms(1)
    by (fastforce simp: list_all_iff)
qed

lemma matchString_local:
  "input m = input m' \<Longrightarrow> m_unicode m = m_unicode m' \<Longrightarrow> matchStringAt ue i u m sp s = matchStringAt ue i u m' sp s"
  by (induction s arbitrary: sp) (auto simp: codePoint_local(1) [of m m'] Let_def split: prod.split)

lemma matchString_range:
  "matchStringAt ue i u m sp s = Some np \<Longrightarrow> sp \<le> length (input m) \<Longrightarrow> sp \<le> np \<and> np \<le> length (input m)"
proof (induction s arbitrary: sp)
  case (Cons r rs)
  obtain x w where c: "codePointAt m sp = (x, w)" by force
  have r: "sp < length (input m)" "matchStringAt ue i u m (sp + w) rs = Some np"
    using Cons.prems(1) c by (auto split: if_splits)
  with Cons.IH [OF r(2)] codePoint_width(1) [OF c r(1)] show ?case by simp
qed simp

text \<open>Trying a list of positions in turn, with or without the code's early exit on an error.\<close>

lemma try_positions_ok:
  assumes k: "lawful inp u slots k"
  shows "ready inp u slots m \<Longrightarrow> \<forall>y \<in> set ps. agree inp u slots k q y \<Longrightarrow> try_positions k ps m = (b, m') \<Longrightarrow>
    err m' = None \<Longrightarrow> ok_res (b, m') (caps m) (first_outcome q (map (\<lambda>p. (p, caps m)) ps))
      \<and> (\<not> b \<longrightarrow> ready inp u slots m')"
proof (induction ps arbitrary: m)
  case Nil
  then show ?case by (auto simp: ok_res_def)
next
  case (Cons p ps)
  obtain b1 m1 where r: "k p m = (b1, m1)" by force
  have a: "agree inp u slots k q p" using Cons.prems by simp
  have e1: "err m1 = None" using Cons.prems(3,4) r by (auto split: if_splits)
  note kr = lawful_ready [OF k a Cons.prems(1) r e1]
  show ?case
  proof (cases b1)
    case True
    then show ?thesis using kr Cons.prems(3) r by (auto simp: ok_res_def first_outcome_Cons)
  next
    case False
    then show ?thesis using kr Cons.prems r e1 Cons.IH [of m1] by (auto simp: first_outcome_Cons)
  qed
qed

lemma try_strings_lawful:
  "lawful inp u slots k \<Longrightarrow> lawful inp u slots (\<lambda>sp m. try_strings ue i uf sp k ss m)"
  by (simp add: lawful_def static.keeps_def failed.keeps_def static.try_strings_keeps failed.try_strings_keeps)

lemma try_strings_positions:
  assumes k: "lawful inp u slots k" and st: "static inp u slots m" and u: "uf = u"
    and run: "try_strings ue i uf sp k ss m = (b, m')" and e: "err m' = None"
  shows "try_positions k (concat (map (\<lambda>s. case matchStringAt ue i uf (probe inp u cs) sp s of
      None \<Rightarrow> [] | Some np \<Rightarrow> [np]) ss)) m = (b, m')"
  using st run
proof (induction ss arbitrary: m)
  case (Cons s ss)
  have loc: "matchStringAt ue i uf m sp s = matchStringAt ue i uf (probe inp u cs) sp s"
    using Cons.prems(1) by (intro matchString_local) (simp_all add: static_def probe_def)
  show ?case
  proof (cases "matchStringAt ue i uf m sp s")
    case None
    then show ?thesis using Cons loc by simp
  next
    case (Some np)
    obtain b1 m1 where r: "k np m = (b1, m1)" by force
    have s1: "static inp u slots m1" using lawful_static [OF k Cons.prems(1) r] .
    show ?thesis
    proof (cases b1)
      case True
      then show ?thesis using Some loc r Cons.prems(2) by simp
    next
      case False
      then have run1: "try_strings ue i uf sp k ss m1 = (b, m')" using Cons.prems(2) Some r by simp
      have "err m1 = None" using lawful_err [OF try_strings_lawful [OF k] s1 run1 e] .
      then show ?thesis using Cons.IH [OF s1 run1] False Some loc r by simp
    qed
  qed
qed simp

lemma try_strings_ok:
  assumes k: "lawful inp u slots k" and m: "ready inp u slots m" and sp: "sp \<le> length inp" and u: "uf = u"
    and ag: "\<And>y. y \<in> rng False (length inp) sp \<Longrightarrow> agree inp u slots k q y"
    and run: "try_strings ue i uf sp k ss m = (b, m')" and e: "err m' = None"
  shows "ok_res (b, m') (caps m) (first_outcome q (concat (map (\<lambda>s.
      case matchStringAt ue i uf (probe inp u (caps m)) sp s of None \<Rightarrow> [] | Some np \<Rightarrow> [(np, caps m)]) ss)))
    \<and> (\<not> b \<longrightarrow> ready inp u slots m')"
proof -
  let ?ps = "concat (map (\<lambda>s. case matchStringAt ue i uf (probe inp u (caps m)) sp s of
      None \<Rightarrow> [] | Some np \<Rightarrow> [np]) ss)"
  have "\<forall>y \<in> set ?ps. agree inp u slots k q y"
    using matchString_range [of ue i uf "probe inp u (caps m)" sp] sp
    by (force simp: probe_def rng_def intro: ag split: option.splits)
  moreover have "try_positions k ?ps m = (b, m')"
    using m by (intro try_strings_positions [OF k _ u run e]) (simp add: ready_def)
  moreover have "map (\<lambda>p. (p, caps m)) ?ps = concat (map (\<lambda>s.
      case matchStringAt ue i uf (probe inp u (caps m)) sp s of None \<Rightarrow> [] | Some np \<Rightarrow> [(np, caps m)]) ss)"
    by (induction ss) (auto split: option.split)
  ultimately show ?thesis using try_positions_ok [OF k m _ _ e] by metis
qed

lemma refines_classString:
  assumes u: "cu c = u"
  shows "refines inp u slots False (classStringMatcher ue c st) (string_sem ue c inp st)"
proof (rule refinesI)
  fix k q sp m b m'
  assume sp: "sp \<le> length inp" and k: "lawful inp u slots k"
    and ag: "\<And>y. y \<in> rng False (length inp) sp \<Longrightarrow> agree inp u slots k q y"
    and m: "ready inp u slots m" and run: "classStringMatcher ue c st m sp k = (b, m')" and e: "err m' = None"
  let ?p = "probe inp (cu c) (caps m)"
  let ?strs = "concat (map (\<lambda>s. case matchStringAt ue (ic c) (cu c) ?p sp s of
      None \<Rightarrow> [] | Some np \<Rightarrow> [(np, caps m)]) (longest_first (cstrings st)))"
  obtain m1 where stp: "step m = (True, m1)"
    using run e m step_err [of m "snd (step m)"]
    by (cases "step m") (auto simp: classStringMatcher_def ready_def split: if_splits)
  have m1: "ready inp u slots m1" "caps m1 = caps m" using ready_step [OF m stp] by auto
  obtain b2 m2 where ts: "try_strings ue (ic c) (cu c) sp k (longest_first (cstrings st)) m1 = (b2, m2)" by force
  have st2: "static inp u slots m2"
    using lawful_static [OF try_strings_lawful [OF k] _ ts] m1(1) by (simp add: ready_def)
  obtain r w where rw: "codePointAt ?p sp = (r, w)" by force
  have rw2: "codePointAt m2 sp = (r, w)"
    using st2 u rw codePoint_local(1) [of m2 ?p] by (simp add: static_def probe_def)
  have rest: "(b, m') = (if b2 then (True, m2)
      else if sp < length inp \<and> classContainsFold (udb ue) (cset st) r (ic c) (cu c) then k (sp + w) m2
      else (False, m2))"
    using run stp m ts rw2 st2 by (auto simp: classStringMatcher_def ready_def static_def split: if_splits)
  have e2: "err m2 = None"
    using rest e lawful_err [OF k st2, of "sp + w" b m'] by (auto split: if_splits)
  have ss: "ok_res (b2, m2) (caps m) (first_outcome q ?strs)" "\<not> b2 \<Longrightarrow> ready inp u slots m2"
    using try_strings_ok [OF k m1(1) sp u ag ts e2, unfolded m1(2)] u by simp_all
  show "ok_res (b, m') (caps m) (first_outcome q (string_sem ue c inp st sp (caps m)))"
  proof (cases "b2 \<or> \<not> (sp < length inp \<and> classContainsFold (udb ue) (cset st) r (ic c) (cu c))")
    case True
    then show ?thesis using ss(1) rest rw e2
      by (auto simp: string_sem_def Let_def ok_res_def split: option.splits if_splits)
  next
    case False
    then have kr: "k (sp + w) m2 = (b, m')" and cp: "caps m2 = caps m" "first_outcome q ?strs = None"
      using rest ss(1) e2 by (auto simp: ok_res_def split: option.splits)
    have "sp + w \<in> rng False (length inp) sp"
      using codePoint_width(1) [OF rw] False by (auto simp: rng_def probe_def)
    from agree_ok [OF ag [OF this] ss(2) kr] show ?thesis
      using False cp rw by (auto simp: string_sem_def Let_def)
  qed
qed

subsection \<open>Refinement of the quantifiers\<close>

lemma range_frame [simp]:
  "input (resetRange m lo hi) = input m" "m_unicode (resetRange m lo hi) = m_unicode m"
  "err (resetRange m lo hi) = err m" "input (setRange m lo hi sv) = input m"
  "m_unicode (setRange m lo hi sv) = m_unicode m" "err (setRange m lo hi sv) = err m"
  by (simp_all add: resetRange_def setRange_def)

lemma caps_resetRange: "caps (resetRange m lo hi) = reset_caps (caps m) lo hi"
  by (simp add: resetRange_def reset_caps_def)

lemma length_reset_caps:
  "0 \<le> lo \<Longrightarrow> lo \<le> hi \<longrightarrow> 2 * nat hi + 1 < length cs \<Longrightarrow> length (reset_caps cs lo hi) = length cs"
  by (auto simp: reset_caps_def min_def nat_mult_distrib nat_add_distrib)

lemma reset_caps_nth:
  assumes "0 \<le> lo" "lo \<le> hi" "2 * nat hi + 1 < length cs" "j < length cs"
  shows "reset_caps cs lo hi ! j = (if nat (2 * lo) \<le> j \<and> j < nat (2 * hi + 2) then -1 else cs ! j)"
proof -
  have n: "nat (2 * lo) + nat (2 * (hi - lo + 1)) = nat (2 * hi + 2)" using assms(1,2) by simp
  have l: "nat (2 * lo) \<le> length cs" "nat (2 * hi + 2) \<le> length cs" using assms by auto
  show ?thesis
    using assms(2,4) l n by (auto simp: reset_caps_def nth_append min_def)
qed

lemma reset_caps_valid:
  assumes v: "caps_valid len cs" and lo: "0 \<le> lo" "lo \<le> hi \<longrightarrow> 2 * nat hi + 1 < length cs"
  shows "caps_valid len (reset_caps cs lo hi)"
proof (cases "lo \<le> hi")
  case True
  have n: "nat (2 * lo) = 2 * nat lo" "nat (2 * hi + 2) = 2 * nat hi + 2" using lo(1) True by simp_all
  have "2 * a \<le> 2 * i \<and> 2 * i < 2 * b + 2 \<longleftrightarrow> 2 * a \<le> 2 * i + 1 \<and> 2 * i + 1 < 2 * b + 2" for a b i :: nat
    by presburger
  then have "nat (2 * lo) \<le> 2 * i \<and> 2 * i < nat (2 * hi + 2) \<longleftrightarrow>
      nat (2 * lo) \<le> 2 * i + 1 \<and> 2 * i + 1 < nat (2 * hi + 2)" for i
    unfolding n by blast
  then show ?thesis
    using v lo True by (simp add: caps_valid_def length_reset_caps reset_caps_nth)
qed (use v in \<open>simp add: reset_caps_def\<close>)

lemma caps_setRange_clone:
  assumes "0 \<le> lo" "lo \<le> hi \<longrightarrow> group_in_range m (nat hi)" "caps m' = reset_caps (caps m) lo hi"
  shows "caps (setRange m' lo hi (cloneRange m lo hi)) = caps m"
proof (cases "lo \<le> hi")
  case True
  let ?a = "nat (2 * lo)" and ?b = "nat (2 * (hi - lo + 1))"
  have n: "nat (2 * hi + 2) = ?a + ?b" using assms(1) True by simp
  have l: "?a + ?b \<le> length (caps m)" using assms(1,2) True by (auto simp: group_in_range_def)
  have "caps m = take ?a (caps m) @ take ?b (drop ?a (caps m)) @ drop (?a + ?b) (caps m)"
    by (metis add.commute append_take_drop_id drop_drop)
  then show ?thesis
    using True l by (simp add: setRange_def cloneRange_def assms(3) reset_caps_def n)
qed (use assms in \<open>simp add: setRange_def reset_caps_def\<close>)

lemma ready_resetRange:
  assumes "ready inp u slots m" "0 \<le> lo" "lo \<le> hi \<longrightarrow> group_in_range m (nat hi)"
  shows "ready inp u slots (resetRange m lo hi)"
  using assms length_resetRange [OF assms(2,3)] reset_caps_valid [of "length inp" "caps m" lo hi]
  by (auto simp: ready_def static_def caps_resetRange group_in_range_def)

lemma ready_setRange_clone:
  assumes "ready inp u slots m" "0 \<le> lo" "lo \<le> hi \<longrightarrow> group_in_range m (nat hi)"
    "static inp u slots m'" "err m' = None" "caps m' = reset_caps (caps m) lo hi"
  shows "ready inp u slots (setRange m' lo hi (cloneRange m lo hi))"
  using assms(1,4,5) caps_setRange_clone [OF assms(2,3,6)]
  by (auto simp: ready_def static_def)

lemma ok_res_setRange:
  assumes "0 \<le> lo" "lo \<le> hi \<longrightarrow> group_in_range m2 (nat hi)" "\<not> b" "err m4 = None" "caps m4 = reset_caps (caps m2) lo hi"
  shows "ok_res (b, setRange m4 lo hi (cloneRange m2 lo hi)) (caps m2) None"
  using assms(3) caps_setRange_clone [OF assms(1,2,5)] by (simp add: ok_res_def)

lemma repeat_lawful:
  assumes "lawful_matcher inp u slots body" "range_scoped (\<lambda>_. True) (lo, hi)" "lawful inp u slots k"
  shows "lawful inp u slots (\<lambda>x m. repeat_run fuel body lo hi greedy k mn mx x m)"
  using assms
  by (auto simp: lawful_def lawful_matcher_def intro!: static.keepsI failed.keepsI static.repeat_keeps failed.repeat_keeps)

text \<open>
  One round. \<open>d\<close> is the continuation of the body, \<open>iter\<close> the outcomes of a further iteration; the
  captures of the body are reset before it runs and restored when it fails.
\<close>

lemma repeat_round:
  assumes body: "refines inp u slots bk x S" and lx: "lawful_matcher inp u slots x"
    and lo: "0 \<le> lo" "lo \<le> hi \<longrightarrow> group_in_range m2 (nat hi)"
    and sp: "sp \<le> length inp" and ld: "lawful inp u slots d"
    and ad: "\<And>y. y \<in> rng bk (length inp) sp \<Longrightarrow> agree inp u slots d q' y"
    and m2: "ready inp u slots m2" and m3: "ready inp u slots m3" "caps m3 = reset_caps (caps m2) lo hi"
    and run: "x m3 sp d = (b, m4)" and e: "err m4 = None"
  shows "case first_outcome q' (S sp (reset_caps (caps m2) lo hi)) of
      Some cs \<Rightarrow> b \<and> caps m4 = cs
    | None \<Rightarrow> \<not> b \<and> (let m5 = setRange m4 lo hi (cloneRange m2 lo hi) in caps m5 = caps m2 \<and> ready inp u slots m5)"
proof -
  have "ok_res (b, m4) (caps m3) (first_outcome q' (S sp (caps m3)))"
    by (rule agree_ok [OF refinesD [OF body sp ld ad] m3(1) run])
  moreover have "static inp u slots m4"
    using lawful_static [OF lawful_run [OF lx ld] _ run] m3(1) by (simp add: ready_def)
  ultimately show ?thesis
    using e m3(2) ready_setRange_clone [OF m2 lo, of m4] caps_setRange_clone [OF lo, of m4]
    by (auto simp: ok_res_def Let_def split: option.splits)
qed

definition repeat_next :: "int \<Rightarrow> matcher \<Rightarrow> int \<Rightarrow> int \<Rightarrow> bool \<Rightarrow> cont \<Rightarrow> nat \<Rightarrow> int \<Rightarrow> nat \<Rightarrow> cont" where
  "repeat_next fuel body lo hi greedy k mn mx x = (\<lambda>y m3.
     if mn = 0 \<and> y = x then (False, m3)
     else repeat_run (fuel - 1) body lo hi greedy k (mn - 1) (if mx > 0 then mx - 1 else mx) y m3)"

lemma repeat_next_lawful:
  assumes "lawful_matcher inp u slots body" "range_scoped (\<lambda>_. True) (lo, hi)" "lawful inp u slots k"
  shows "lawful inp u slots (repeat_next fuel body lo hi greedy k mn mx x)"
  using repeat_lawful [OF assms, of "fuel - 1" greedy "mn - 1" "if mx > 0 then mx - 1 else mx"]
  by (auto simp: lawful_def static.keeps_def failed.keeps_def repeat_next_def)

lemma repeat_iter_next:
  "repeat_iter fuel body lo hi greedy k mn mx x m2 =
     (let d = repeat_next fuel body lo hi greedy k mn mx x; saved = cloneRange m2 lo hi; m3 = resetRange m2 lo hi
      in if mn \<noteq> 0 then
           let (b, m4) = body m3 x d in if b then (True, m4) else (False, setRange m4 lo hi saved)
         else if greedy then
           let (b, m4) = body m3 x d in if b then (True, m4) else k x (setRange m4 lo hi saved)
         else
           let (b, m4) = k x (setRange m3 lo hi saved) in
           if b then (True, m4)
           else let (b, m5) = body (resetRange m4 lo hi) x d in
             if b then (True, m5) else (False, setRange m5 lo hi saved))"
  by (simp only: repeat_iter_def repeat_next_def Let_def)

lemma repeat_eager_ok:
  assumes body: "refines inp u slots bk body S" and lx: "lawful_matcher inp u slots body"
    and lo: "0 \<le> lo" "lo \<le> hi \<longrightarrow> group_in_range m2 (nat hi)"
    and sp: "x \<le> length inp" and k: "lawful inp u slots k" and ak: "agree inp u slots k q x"
    and ld: "lawful inp u slots (repeat_next fuel body lo hi greedy k mn mx x)"
    and ad: "\<And>y. y \<in> rng bk (length inp) x \<Longrightarrow>
      agree inp u slots (repeat_next fuel body lo hi greedy k mn mx x) q' y"
    and m2: "ready inp u slots m2" and mode: "mn \<noteq> 0 \<or> greedy"
    and run: "repeat_iter fuel body lo hi greedy k mn mx x m2 = (b, m')" and e: "err m' = None"
  shows "ok_res (b, m') (caps m2) (case first_outcome q' (S x (reset_caps (caps m2) lo hi)) of
      Some z \<Rightarrow> Some z | None \<Rightarrow> if mn \<noteq> 0 then None else q x (caps m2))"
proof -
  let ?sv = "cloneRange m2 lo hi"
  have m3: "ready inp u slots (resetRange m2 lo hi)" "caps (resetRange m2 lo hi) = reset_caps (caps m2) lo hi"
    using ready_resetRange [OF m2 lo] by (simp_all add: caps_resetRange)
  obtain b4 m4 where r4: "body (resetRange m2 lo hi) x (repeat_next fuel body lo hi greedy k mn mx x) = (b4, m4)"
    by force
  have st4: "static inp u slots m4"
    using lawful_static [OF lawful_run [OF lx ld] _ r4] m3(1) by (simp add: ready_def)
  have res: "if b4 then (b, m') = (True, m4) else
      if mn \<noteq> 0 then (b, m') = (False, setRange m4 lo hi ?sv) else k x (setRange m4 lo hi ?sv) = (b, m')"
    using run r4 mode by (auto simp: repeat_iter_next Let_def split: if_splits)
  have "static inp u slots (setRange m4 lo hi ?sv)"
    using st4 m2 length_setRange_clone [OF lo, of m4] by (simp add: static_def ready_def)
  then have e4: "err m4 = None"
    using res e lawful_err [OF k, of "setRange m4 lo hi ?sv" x b m'] by (auto split: if_splits)
  note it = repeat_round [OF body lx lo sp ld ad m2 m3 r4 e4]
  show ?thesis
  proof (cases "b4 \<or> mn \<noteq> 0")
    case True
    then show ?thesis using it res mode by (auto simp: ok_res_def Let_def split: option.splits)
  next
    case False
    then have n: "first_outcome q' (S x (reset_caps (caps m2) lo hi)) = None"
      and c5: "caps (setRange m4 lo hi ?sv) = caps m2" "ready inp u slots (setRange m4 lo hi ?sv)"
      using it by (auto simp: Let_def split: option.splits)
    then show ?thesis using agree_ok [OF ak c5(2)] res False by simp
  qed
qed

lemma repeat_lazy_ok:
  assumes body: "refines inp u slots bk body S" and lx: "lawful_matcher inp u slots body"
    and lo: "0 \<le> lo" "lo \<le> hi \<longrightarrow> group_in_range m2 (nat hi)"
    and sp: "x \<le> length inp" and k: "lawful inp u slots k" and ak: "agree inp u slots k q x"
    and ld: "lawful inp u slots (repeat_next fuel body lo hi False k 0 mx x)"
    and ad: "\<And>y. y \<in> rng bk (length inp) x \<Longrightarrow>
      agree inp u slots (repeat_next fuel body lo hi False k 0 mx x) q' y"
    and m2: "ready inp u slots m2"
    and run: "repeat_iter fuel body lo hi False k 0 mx x m2 = (b, m')" and e: "err m' = None"
  shows "ok_res (b, m') (caps m2) (case q x (caps m2) of
      Some z \<Rightarrow> Some z | None \<Rightarrow> first_outcome q' (S x (reset_caps (caps m2) lo hi)))"
proof -
  let ?sv = "cloneRange m2 lo hi" and ?d = "repeat_next fuel body lo hi False k 0 mx x"
  let ?m3 = "setRange (resetRange m2 lo hi) lo hi ?sv"
  have c3: "caps ?m3 = caps m2" "ready inp u slots ?m3"
    using caps_setRange_clone [OF lo caps_resetRange] ready_setRange_clone [OF m2 lo _ _ caps_resetRange]
      ready_resetRange [OF m2 lo] by (simp_all add: ready_def)
  obtain b5 m5 where r5: "k x ?m3 = (b5, m5)" by force
  obtain b6 m6 where r6: "body (resetRange m5 lo hi) x ?d = (b6, m6)" by force
  have res: "(b, m') = (if b5 then (True, m5) else if b6 then (True, m6) else (False, setRange m6 lo hi ?sv))"
    using run r5 r6 by (auto simp: repeat_iter_next Let_def split: if_splits)
  have s5: "static inp u slots m5" using lawful_static [OF k _ r5] c3(2) by (simp add: ready_def)
  then have s5': "static inp u slots (resetRange m5 lo hi)"
    using m2 length_resetRange [OF lo(1), of hi m5] lo(2) by (simp add: static_def ready_def group_in_range_def)
  have e6: "\<not> b5 \<Longrightarrow> err m6 = None" using res e by (auto split: if_splits)
  have e5: "err m5 = None"
    using res e lawful_err [OF lawful_run [OF lx ld] s5' r6] e6 by (cases b5) auto
  note k5 = lawful_ready [OF k ak c3(2) r5 e5]
  show ?thesis
  proof (cases b5)
    case True
    then show ?thesis using k5 res c3(1) by (simp add: ok_res_def)
  next
    case False
    then have q0: "q x (caps m2) = None" "caps m5 = caps m2" "ready inp u slots m5" using k5 c3(1) by auto
    have c5: "ready inp u slots (resetRange m5 lo hi)" "caps (resetRange m5 lo hi) = reset_caps (caps m2) lo hi"
      using ready_resetRange [OF q0(3) lo(1)] lo(2) q0(2) by (simp_all add: caps_resetRange group_in_range_def)
    from repeat_round [OF body lx lo sp ld ad m2 c5 r6 e6] False show ?thesis
      using res q0(1) by (auto simp: ok_res_def Let_def split: option.splits)
  qed
qed

lemma case_option_id: "(case v of None \<Rightarrow> None | Some z \<Rightarrow> Some z) = v"
  by (cases v) simp_all

definition rep_next_q ::
  "(nat \<Rightarrow> int list \<Rightarrow> int list option) \<Rightarrow> bool \<Rightarrow> nat \<Rightarrow> sem \<Rightarrow> int \<Rightarrow> int \<Rightarrow> bool \<Rightarrow> nat \<Rightarrow> int \<Rightarrow> nat
    \<Rightarrow> nat \<Rightarrow> int list \<Rightarrow> int list option" where
  "rep_next_q q bk len S lo hi greedy mn mx x y cs =
     (if mn = 0 \<and> \<not> moves bk len x y then None
      else first_outcome q (rep_sem bk len S lo hi greedy (mn - 1) (if mx > 0 then mx - 1 else mx) y cs))"

lemma first_outcome_rep:
  assumes "mx \<noteq> 0"
  shows "first_outcome q (rep_sem bk len S lo hi greedy mn mx x cs) =
    (let it = first_outcome (rep_next_q q bk len S lo hi greedy mn mx x) (S x (reset_caps cs lo hi)) in
     if mn \<noteq> 0 then it else if greedy then (case it of Some z \<Rightarrow> Some z | None \<Rightarrow> q x cs)
     else (case q x cs of Some z \<Rightarrow> Some z | None \<Rightarrow> it))"
proof -
  let ?f = "\<lambda>y cs. if mn = 0 \<and> \<not> moves bk len x y then []
    else rep_sem bk len S lo hi greedy (mn - 1) (if mx > 0 then mx - 1 else mx) y cs"
  let ?it = "concat (map (\<lambda>(y, cs'). ?f y cs') (S x (reset_caps cs lo hi)))"
  have q: "(\<lambda>y cs. first_outcome q (?f y cs)) = rep_next_q q bk len S lo hi greedy mn mx x"
    by (intro ext) (simp only: if_distrib [of "first_outcome q"] first_outcome_simps rep_next_q_def)
  have it: "first_outcome q ?it = first_outcome (rep_next_q q bk len S lo hi greedy mn mx x) (S x (reset_caps cs lo hi))"
    unfolding q [symmetric] by (rule first_outcome_bind)
  have "rep_sem bk len S lo hi greedy mn mx x cs =
      (if mn \<noteq> 0 then ?it else if greedy then ?it @ [(x, cs)] else (x, cs) # ?it)"
    by (subst rep_sem.simps) (simp only: Let_def assms if_False)
  then show ?thesis
    unfolding Let_def it [symmetric] by (simp only: if_distrib [of "first_outcome q"] first_outcome_simps first_outcome_Cons
        case_option_id)
qed

lemma refines_repeat:
  assumes body: "refines inp u slots bk body S" and lx: "lawful_matcher inp u slots body"
    and rs: "range_scoped (\<lambda>_. True) (lo, hi)" and k: "lawful inp u slots k"
  shows "x \<le> length inp \<Longrightarrow> (\<And>y. y \<in> rng bk (length inp) x \<Longrightarrow> agree inp u slots k q y) \<Longrightarrow>
    agree inp u slots (\<lambda>x m. repeat_run fuel body lo hi greedy k mn mx x m)
      (\<lambda>x cs. first_outcome q (rep_sem bk (length inp) S lo hi greedy mn mx x cs)) x"
proof (induction "nat fuel" arbitrary: fuel mn mx x rule: less_induct)
  case less
  have lo: "0 \<le> lo" using rs by (simp add: range_scoped_def)
  let ?mx = "if mx > 0 then mx - 1 else mx"
  let ?q = "rep_next_q q bk (length inp) S lo hi greedy mn mx x"
  have ld: "lawful inp u slots (repeat_next fuel body lo hi greedy k mn mx x)"
    by (rule repeat_next_lawful [OF lx rs k])
  have ak: "agree inp u slots k q x" using less.prems rng_refl by blast
  show ?case
  proof (rule agreeI)
    fix m b m' assume m: "ready inp u slots m" and e: "err m' = None"
      and run: "repeat_run fuel body lo hi greedy k mn mx x m = (b, m')"
    have f: "0 < fuel" using run e by (cases "0 < fuel") (auto simp: repeat_run.simps [of fuel] fail_with_def)
    have ad: "agree inp u slots (repeat_next fuel body lo hi greedy k mn mx x) ?q y"
      if y: "y \<in> rng bk (length inp) x" for y
    proof (cases "mn = 0 \<and> y = x")
      case True
      then show ?thesis using rng_moves [OF y] by (simp add: agree_def repeat_next_def ok_res_def rep_next_q_def)
    next
      case False
      have "agree inp u slots (\<lambda>x m. repeat_run (fuel - 1) body lo hi greedy k (mn - 1) ?mx x m)
          (\<lambda>x cs. first_outcome q (rep_sem bk (length inp) S lo hi greedy (mn - 1) ?mx x cs)) y"
        using f less.prems rng_mono [OF y less.prems(1)] by (intro less.hyps) auto
      moreover have "(mn = 0 \<and> y = x) = False" "(mn = 0 \<and> \<not> moves bk (length inp) x y) = False"
        using False rng_moves [OF y] by auto
      ultimately show ?thesis by (simp only: agree_def repeat_next_def rep_next_q_def if_False)
    qed
    obtain m1 where st: "step m = (True, m1)"
      using run e m step_err [of m "snd (step m)"] f
      by (cases "step m") (auto simp: repeat_run_unfold ready_def split: if_splits)
    have rb: "repeat_body fuel body lo hi greedy k mn mx x m1 = (b, m')"
      using run st m f by (auto simp: repeat_run_unfold ready_def)
    obtain m2 where en: "enter m1 = (True, m2)"
      using rb e enter_frame [of m1 False] by (cases "enter m1") (auto simp: repeat_body_def split: if_splits)
    have m2: "ready inp u slots m2" "caps m2 = caps m"
      using ready_enter [OF _ en] ready_step [OF m st] by auto
    show "ok_res (b, m') (caps m) (first_outcome q (rep_sem bk (length inp) S lo hi greedy mn mx x (caps m)))"
    proof (cases "mx = 0")
      case True
      then obtain m3 where "k x m2 = (b, m3)" "m' = leave m3"
        using rb en by (auto simp: repeat_body_def split: prod.splits)
      then show ?thesis using agree_ok [OF ak m2(1)] m2(2) True by (simp add: rep_sem.simps)
    next
      case False
      then obtain m3 where it: "repeat_iter fuel body lo hi greedy k mn mx x m2 = (b, m3)" "m' = leave m3"
        and gr: "lo \<le> hi \<longrightarrow> group_in_range m2 (nat hi)"
        using rb en e by (auto simp: repeat_body_def fail_with_def split: prod.splits if_splits)
      have e3: "err m3 = None" using it(2) e by simp
      note sem = first_outcome_rep [OF False, of q bk "length inp" S lo hi greedy mn x]
      show ?thesis
      proof (cases "mn \<noteq> 0 \<or> greedy")
        case True
        from repeat_eager_ok [OF body lx lo gr less.prems(1) k ak ld ad m2(1) this it(1) e3]
        show ?thesis using True it(2) m2(2) by (auto simp: sem Let_def split: option.splits)
      next
        case lz: False
        then have lz: "mn = 0" "greedy = False" by simp_all
        have "ok_res (b, m3) (caps m2) (case q x (caps m2) of Some z \<Rightarrow> Some z
            | None \<Rightarrow> first_outcome ?q (S x (reset_caps (caps m2) lo hi)))"
          unfolding lz by (rule repeat_lazy_ok [OF body lx lo gr less.prems(1) k ak ld [unfolded lz]
                ad [unfolded lz] m2(1) it(1) [unfolded lz] e3])
        then show ?thesis unfolding sem Let_def it(2) m2(2) by (simp add: lz)
      qed
    qed
  qed
qed

lemma refines_quantifier:
  assumes "refines inp u slots bk body S" "lawful_matcher inp u slots body"
  shows "refines inp u slots bk (quantifier_matcher n mn mx greedy body)
    (rep_sem bk (length inp) S (fst (captureRange n)) (snd (captureRange n)) greedy mn mx)"
proof -
  have "range_scoped (\<lambda>_. True) (captureRange n)" by (rule captureRange_scoped [of _ "[]"]) simp
  then show ?thesis
    unfolding refines_def quantifier_matcher_def
    using refines_repeat [OF assms] by (auto simp: split_def Let_def)
qed

text \<open>
  The iterative path. The positions a one-character body reaches form a chain; RepeatMatcher on
  such a body yields the chain beyond the minimum, from its end when greedy.
\<close>

function positions_from :: "bool \<Rightarrow> nat \<Rightarrow> (nat \<Rightarrow> nat option) \<Rightarrow> int \<Rightarrow> nat \<Rightarrow> nat list" where
  "positions_from bk len f mx x =
     (if mx = 0 then [x]
      else case f x of
        None \<Rightarrow> [x]
      | Some y \<Rightarrow>
          if moves bk len x y then x # positions_from bk len f (if mx > 0 then mx - 1 else mx) y else [x])"
  by pat_completeness auto
termination
  by (relation "measure (\<lambda>(bk, len, f, mx, x). if bk then x else len - x)") (auto simp: moves_def split: if_splits)

declare positions_from.simps [simp del]

lemma positions_from_rng: "x \<le> len \<Longrightarrow> p \<in> set (positions_from bk len f mx x) \<Longrightarrow> p \<in> rng bk len x"
proof (induction bk len f mx x rule: positions_from.induct)
  case (1 bk len f mx x)
  show ?case
  proof (cases "mx \<noteq> 0 \<and> (\<exists>y. f x = Some y \<and> moves bk len x y)")
    case True
    then obtain y where y: "f x = Some y" "moves bk len x y" "mx \<noteq> 0" by blast
    have yr: "y \<in> rng bk len x" "y \<le> len" using moves_rng [OF y(2)] rng_mono 1(2) by blast+
    have "p = x \<or> p \<in> set (positions_from bk len f (if mx > 0 then mx - 1 else mx) y)"
      using 1(3) y by (simp add: positions_from.simps [of bk len f mx x])
    then show ?thesis
      using "1.IH" [OF y(3,1,2) yr(2)] rng_mono [OF yr(1) 1(2)] rng_refl [OF 1(2)] by blast
  next
    case False
    then have "p = x" using 1(3) by (subst (asm) positions_from.simps) (auto split: option.splits if_splits)
    then show ?thesis using rng_refl [OF 1(2)] by simp
  qed
qed

lemma positions_from_Cons: "\<exists>ps. positions_from bk len f mx x = x # ps"
  by (subst positions_from.simps) (auto split: option.splits)

lemma rep_sem_consumer:
  assumes dir: "\<And>x y. f x = Some y \<Longrightarrow> moves bk len x y" and nocap: "hi < lo"
  shows "mx < 0 \<or> int mn \<le> mx \<Longrightarrow>
    rep_sem bk len (\<lambda>sp cs. case f sp of None \<Rightarrow> [] | Some np \<Rightarrow> [(np, cs)]) lo hi greedy mn mx x cs =
    map (\<lambda>p. (p, cs)) (let ps = drop mn (positions_from bk len f mx x) in if greedy then rev ps else ps)"
  using dir
proof (induction bk len f mx x arbitrary: mn rule: positions_from.induct)
  case (1 bk len f mx x)
  have caps: "reset_caps cs lo hi = cs" using nocap by (simp add: reset_caps_def)
  let ?mx = "if mx > 0 then mx - 1 else mx"
  show ?case
  proof (cases "mx \<noteq> 0 \<and> f x \<noteq> None")
    case True
    then obtain y where y: "f x = Some y" "moves bk len x y" using 1(3) by auto
    have "mx < 0 \<or> int (mn - 1) \<le> ?mx" using 1(2) True by auto
    then have ih: "rep_sem bk len (\<lambda>sp cs. case f sp of None \<Rightarrow> [] | Some np \<Rightarrow> [(np, cs)]) lo hi greedy (mn - 1) ?mx y cs =
        map (\<lambda>p. (p, cs)) (let ps = drop (mn - 1) (positions_from bk len f ?mx y) in if greedy then rev ps else ps)"
      using 1 True y by auto
    have p: "positions_from bk len f mx x = x # positions_from bk len f ?mx y"
      using True y by (simp add: positions_from.simps [of bk len f mx x])
    show ?thesis unfolding rep_sem.simps [of _ _ _ _ _ _ mn] p
      using True y caps ih by (cases mn) (auto simp: Let_def)
  next
    case False
    then have "positions_from bk len f mx x = [x]" by (subst positions_from.simps) auto
    then show ?thesis using False 1(2) caps
      by (subst rep_sem.simps) (cases mn; auto simp: Let_def)
  qed
qed

lemma probe_input [simp]: "input (probe inp u cs) = inp" "m_unicode (probe inp u cs) = u" "caps (probe inp u cs) = cs"
  by (simp_all add: probe_def)

lemma consumes_probe: "consumes bk cons \<Longrightarrow> cons (probe inp u cs) x = Some y \<Longrightarrow> moves bk (length inp) x y"
  by (metis consumes_def probe_input(1))

lemma local_probe: "local_to_input cons \<Longrightarrow> cons (probe inp u cs) sp = cons (probe inp u cs') sp"
  unfolding local_to_input_def by (metis probe_input)

lemma collect_positions_ok:
  assumes loc: "local_to_input cons" and dir: "consumes bk cons"
  shows "ready inp u slots m \<Longrightarrow> mx < 0 \<or> int (length ps) \<le> mx \<Longrightarrow>
    collect_positions fuel cons mx cur (ps @ [cur]) m = (r, m') \<Longrightarrow> err m' = None \<Longrightarrow>
    r = Some (ps @ positions_from bk (length inp) (cons (probe inp u []))
      (if mx < 0 then mx else mx - int (length ps)) cur)
    \<and> ready inp u slots m' \<and> caps m' = caps m"
proof (induction fuel arbitrary: cur ps m)
  case 0
  then show ?case
    by (subst (asm) collect_positions.simps) (auto simp: positions_from.simps [of _ _ _ 0] split: if_splits)
next
  case (Suc fuel)
  let ?f = "cons (probe inp u [])"
  show ?case
  proof (cases "mx < 0 \<or> int (length ps) < mx")
    case False
    then have "int (length ps) = mx" using Suc.prems(2) by linarith
    then show ?thesis
      using Suc.prems by (subst (asm) collect_positions.simps) (auto simp: positions_from.simps [of _ _ _ 0])
  next
    case True
    obtain m1 where st: "step m = (True, m1)"
      using Suc.prems(3,4) step_err [of m "snd (step m)"] True
      by (cases "step m"; subst (asm) collect_positions.simps) (auto split: if_splits)
    note m1 = ready_step [OF Suc.prems(1) st]
    have c: "cons m1 cur = ?f cur"
      using loc m1 by (simp add: local_to_input_def ready_def static_def probe_def)
    show ?thesis
    proof (cases "?f cur")
      case None
      then show ?thesis using Suc.prems(3) True st c m1
        by (subst (asm) collect_positions.simps) (auto simp: positions_from.simps [of _ _ _ _ cur])
    next
      case (Some np)
      have mv: "moves bk (length inp) cur np" using consumes_probe [OF dir Some] .
      then have ne: "np \<noteq> cur" by (auto simp: moves_def split: if_splits)
      have rec: "collect_positions fuel cons mx np ((ps @ [cur]) @ [np]) m1 = (r, m')"
        using Suc.prems(3) True st c Some ne by (subst (asm) collect_positions.simps) auto
      have pos: "positions_from bk (length inp) ?f (if mx < 0 then mx else mx - int (length ps)) cur =
          cur # positions_from bk (length inp) ?f (if mx < 0 then mx else mx - int (length (ps @ [cur]))) np"
        using True Some mv by (subst positions_from.simps) (auto simp: algebra_simps)
      have "mx < 0 \<or> int (length (ps @ [cur])) \<le> mx" using True by auto
      from Suc.IH [OF conjunct1 [OF m1] this rec Suc.prems(4)] show ?thesis
        using m1 unfolding pos by simp
    qed
  qed
qed

lemma refines_simpleQuantifier:
  assumes loc: "local_to_input cons" and dir: "consumes bk cons" and b: "mx < 0 \<or> int mn \<le> mx" and nocap: "hi < lo"
  shows "refines inp u slots bk (simpleQuantifier cons mn mx greedy)
    (rep_sem bk (length inp) (consumer_sem inp u cons) lo hi greedy mn mx)"
proof (rule refinesI)
  fix k q sp m b m'
  assume sp: "sp \<le> length inp" and k: "lawful inp u slots k"
    and ag: "\<And>y. y \<in> rng bk (length inp) sp \<Longrightarrow> agree inp u slots k q y"
    and m: "ready inp u slots m" and run: "simpleQuantifier cons mn mx greedy m sp k = (b, m')" and e: "err m' = None"
  let ?f = "cons (probe inp u [])"
  let ?P = "positions_from bk (length inp) ?f mx sp"
  let ?Q = "if greedy then rev (drop mn ?P) else drop mn ?P"
  obtain r m1 where c: "collect_positions (sp + length (input m) + 1) cons mx sp ([] @ [sp]) m = (r, m1)" by force
  have st1: "static inp u slots m1" and fl: "err m1 \<noteq> None \<Longrightarrow> failed slots m1"
    using static.collect_keeps [of inp u slots m "sp + length (input m) + 1" cons mx sp "[] @ [sp]"] m
    unfolding c by (simp_all add: ready_def failed_def static_def)
  have res: "case r of None \<Rightarrow> (b, m') = (False, m1)
      | Some ps \<Rightarrow> (b, m') = (if length ps - 1 < mn then (False, m1)
          else try_positions k (if greedy then rev (drop mn ps) else drop mn ps) m1)"
    using run c m by (auto simp: simpleQuantifier_def ready_def split: option.splits)
  have "err m1 = None"
  proof (rule ccontr)
    assume "err m1 \<noteq> None"
    then have "failed slots m'"
      using res fl failed.try_positions_keeps [of slots k m1] k
      by (auto simp: lawful_def split: option.splits if_splits) (metis snd_conv)+
    then show False using e by (simp add: failed_def)
  qed
  then have P: "r = Some ?P" "ready inp u slots m1" "caps m1 = caps m"
    using collect_positions_ok [OF loc dir m _ c] b assms(3) by auto
  obtain ps where ps: "?P = sp # ps" using positions_from_Cons by blast
  have tp: "try_positions k ?Q m1 = (b, m')"
    using res P(1) ps by (cases "length ps < mn") auto
  have "\<forall>y \<in> set ?Q. agree inp u slots k q y"
    using positions_from_rng [OF sp] ag by (auto dest: in_set_dropD)
  then have "ok_res (b, m') (caps m) (first_outcome q (map (\<lambda>p. (p, caps m)) ?Q))"
    using try_positions_ok [OF k P(2) _ tp e] P(3) by simp
  moreover have "consumer_sem inp u cons = (\<lambda>sp cs. case ?f sp of None \<Rightarrow> [] | Some np \<Rightarrow> [(np, cs)])"
    by (intro ext, subst consumer_sem_def, subst local_probe [OF loc, where cs' = "[]"]) (rule refl)
  moreover have "moves bk (length inp) x y" if "?f x = Some y" for x y
    using consumes_probe [OF dir that] .
  ultimately show "ok_res (b, m') (caps m)
      (first_outcome q (rep_sem bk (length inp) (consumer_sem inp u cons) lo hi greedy mn mx sp (caps m)))"
    using rep_sem_consumer [of ?f bk "length inp" hi lo mx mn greedy sp "caps m"] nocap assms(3)
    by (simp add: Let_def)
qed

subsection \<open>Outcomes stay in range\<close>

lemma sem_okI:
  "(\<And>sp cs y cs'. sp \<le> length inp \<Longrightarrow> caps_valid (length inp) cs \<Longrightarrow> length cs = slots \<Longrightarrow>
     (y, cs') \<in> set (S sp cs) \<Longrightarrow> y \<in> rng bk (length inp) sp \<and> caps_valid (length inp) cs' \<and> length cs' = slots) \<Longrightarrow>
   sem_ok inp slots bk S"
  unfolding sem_ok_def by blast

lemma sem_okD:
  "sem_ok inp slots bk S \<Longrightarrow> sp \<le> length inp \<Longrightarrow> caps_valid (length inp) cs \<Longrightarrow> length cs = slots \<Longrightarrow>
   (y, cs') \<in> set (S sp cs) \<Longrightarrow> y \<in> rng bk (length inp) sp \<and> caps_valid (length inp) cs' \<and> length cs' = slots"
  unfolding sem_ok_def by blast

lemma consumer_sem_ok: "consumes bk cons \<Longrightarrow> sem_ok inp slots bk (consumer_sem inp u cons)"
  by (rule sem_okI) (auto simp: consumer_sem_def intro: moves_rng consumes_probe [OF _ sym] split: option.splits)

lemma seq_sem_ok: "list_all (sem_ok inp slots bk) Ss \<Longrightarrow> sem_ok inp slots bk (seq_sem Ss)"
proof (induction Ss)
  case Nil
  show ?case by (rule sem_okI) (auto simp: rng_refl)
next
  case (Cons S Ss)
  show ?case
  proof (rule sem_okI)
    fix sp cs y cs' assume h: "sp \<le> length inp" "caps_valid (length inp) cs" "length cs = slots"
      and "(y, cs') \<in> set (seq_sem (S # Ss) sp cs)"
    then obtain z ds where z: "(z, ds) \<in> set (S sp cs)" "(y, cs') \<in> set (seq_sem Ss z ds)" by auto
    have s: "z \<in> rng bk (length inp) sp" "caps_valid (length inp) ds" "length ds = slots"
      using sem_okD [of inp slots bk S, OF _ h z(1)] Cons.prems by simp_all
    show "y \<in> rng bk (length inp) sp \<and> caps_valid (length inp) cs' \<and> length cs' = slots"
      using sem_okD [of inp slots bk "seq_sem Ss", OF Cons.IH _ s(2,3) z(2)] rng_mono [OF s(1) h(1)] Cons.prems by auto
  qed
qed

lemma alt_sem_ok: "list_all (sem_ok inp slots bk) Ss \<Longrightarrow> sem_ok inp slots bk (alt_sem Ss)"
  by (rule sem_okI) (auto simp: alt_sem_def list_all_iff dest: sem_okD)

lemma capture_sem_ok: "sem_ok inp slots bk S \<Longrightarrow> sem_ok inp slots bk (capture_sem bk i S)"
proof (rule sem_okI)
  fix sp cs y cs' assume S: "sem_ok inp slots bk S" and h: "sp \<le> length inp" "caps_valid (length inp) cs" "length cs = slots"
    and "(y, cs') \<in> set (capture_sem bk i S sp cs)"
  then obtain ds where y: "(y, ds) \<in> set (S sp cs)"
    and cs': "cs' = (if bk then ds[2 * i := int y, Suc (2 * i) := int sp] else ds[2 * i := int sp, Suc (2 * i) := int y])"
    by (auto simp: capture_sem_def)
  have r: "y \<in> rng bk (length inp) sp" "caps_valid (length inp) ds" "length ds = slots"
    using sem_okD [OF S h y] by simp_all
  moreover have "caps_valid (length inp) cs'"
    unfolding cs' using r h(1) by (auto simp: rng_def intro!: caps_valid_group)
  ultimately show "y \<in> rng bk (length inp) sp \<and> caps_valid (length inp) cs' \<and> length cs' = slots"
    by (simp add: cs')
qed

lemma look_sem_ok: "sem_ok inp slots bk S \<Longrightarrow> sem_ok inp slots bk' (look_sem negate S)"
  by (rule sem_okI) (auto simp: look_sem_def rng_refl split: list.splits if_splits dest: sem_okD)

lemma rep_sem_ok:
  assumes S: "sem_ok inp slots bk S" and lo: "0 \<le> lo" "lo \<le> hi \<longrightarrow> 2 * nat hi + 1 < slots"
  shows "sem_ok inp slots bk (rep_sem bk (length inp) S lo hi greedy mn mx)"
proof (rule sem_okI)
  fix sp cs y cs'
  show "sp \<le> length inp \<Longrightarrow> caps_valid (length inp) cs \<Longrightarrow> length cs = slots \<Longrightarrow>
     (y, cs') \<in> set (rep_sem bk (length inp) S lo hi greedy mn mx sp cs) \<Longrightarrow>
     y \<in> rng bk (length inp) sp \<and> caps_valid (length inp) cs' \<and> length cs' = slots"
    using S lo
  proof (induction bk "length inp" S lo hi greedy mn mx sp cs rule: rep_sem.induct)
    case (1 bk S lo hi greedy mn mx x cs)
    let ?mx = "if mx > 0 then mx - 1 else mx"
    have rc: "caps_valid (length inp) (reset_caps cs lo hi)" "length (reset_caps cs lo hi) = slots"
      using reset_caps_valid [OF "1.prems"(2)] length_reset_caps "1.prems" by simp_all
    have "(y, cs') = (x, cs) \<or> (mx \<noteq> 0 \<and> (\<exists>z ds. (z, ds) \<in> set (S x (reset_caps cs lo hi)) \<and>
        \<not> (mn = 0 \<and> \<not> moves bk (length inp) x z) \<and>
        (y, cs') \<in> set (rep_sem bk (length inp) S lo hi greedy (mn - 1) ?mx z ds)))"
      using "1.prems"(4) unfolding rep_sem.simps [of _ _ _ _ _ _ mn] Let_def
      by (force split: if_splits)
    then consider "y = x" "cs' = cs"
      | z ds where "mx \<noteq> 0" "(z, ds) \<in> set (S x (reset_caps cs lo hi))" "\<not> (mn = 0 \<and> \<not> moves bk (length inp) x z)"
          "(y, cs') \<in> set (rep_sem bk (length inp) S lo hi greedy (mn - 1) ?mx z ds)"
      by blast
    then show ?case
    proof cases
      case 1
      then show ?thesis using "1.prems" rng_refl by simp
    next
      case (2 z ds)
      note zd = sem_okD [OF "1.prems"(5,1) rc 2(2)]
      have "y \<in> rng bk (length inp) z \<and> caps_valid (length inp) cs' \<and> length cs' = slots"
        using "1.hyps" [OF 2(1,2) refl 2(3)] 2(4) zd rng_mono "1.prems" by blast
      then show ?thesis using rng_mono zd "1.prems"(1) by blast
    qed
  qed
qed

lemma ref_sem_ok:
  assumes span: "\<And>cs s e. caps_valid (length inp) cs \<Longrightarrow> resolve (probe inp (cu c) cs) = Some (s, e) \<Longrightarrow> 0 \<le> s \<Longrightarrow> s \<le> e"
  shows "sem_ok inp slots (backw c) (ref_sem ue c inp resolve)"
proof (rule sem_okI)
  fix sp cs y cs' assume h: "sp \<le> length inp" "caps_valid (length inp) cs" "length cs = slots"
    and y: "(y, cs') \<in> set (ref_sem ue c inp resolve sp cs)"
  have "cs' = cs \<and> (y = sp \<or> (\<exists>s e. resolve (probe inp (cu c) cs) = Some (s, e) \<and> 0 \<le> s \<and>
      ref_end ue c (probe inp (cu c) cs) s e sp = Some y))"
    using y by (auto simp: ref_sem_def Let_def split: option.splits if_splits)
  then show "y \<in> rng (backw c) (length inp) sp \<and> caps_valid (length inp) cs' \<and> length cs' = slots"
    using h rng_refl [OF h(1)] span [OF h(2)] ref_end_range [of ue c "probe inp (cu c) cs"] by auto
qed

lemma caps_valid_span:
  "caps_valid len cs \<Longrightarrow> 1 \<le> i \<Longrightarrow> 2 * i + 1 < length cs \<Longrightarrow> 0 \<le> cs ! (2 * i) \<Longrightarrow> cs ! (2 * i) \<le> cs ! (2 * i + 1)"
  unfolding caps_valid_def by fastforce

lemma string_sem_ok: "sem_ok inp slots False (string_sem ue c inp st)"
proof (rule sem_okI)
  fix sp cs y cs' assume h: "sp \<le> length inp" "caps_valid (length inp) cs" "length cs = slots"
    and y: "(y, cs') \<in> set (string_sem ue c inp st sp cs)"
  have "cs' = cs \<and> ((\<exists>s. matchStringAt ue (ic c) (cu c) (probe inp (cu c) cs) sp s = Some y) \<or>
      sp < length inp \<and> y = sp + snd (codePointAt (probe inp (cu c) cs) sp))"
    using y by (auto simp: string_sem_def Let_def split: option.splits if_splits)
  then show "y \<in> rng False (length inp) sp \<and> caps_valid (length inp) cs' \<and> length cs' = slots"
    using h matchString_range [of ue "ic c" "cu c" "probe inp (cu c) cs" sp _ y]
      codePoint_width(1) [of "probe inp (cu c) cs" sp "fst (codePointAt (probe inp (cu c) cs) sp)"
        "snd (codePointAt (probe inp (cu c) cs) sp)"]
    by (auto simp: rng_def)
qed

lemma class_sem_ok:
  "node_wf ue c (CharClass negate s) \<Longrightarrow> sem_ok inp slots (backw c) (class_sem ue c inp negate s)"
proof (cases "compileClassSet ue c s")
  case (Inl e)
  then show ?thesis by (auto simp: sem_ok_def class_sem_def)
next
  case (Inr st)
  assume wf: "node_wf ue c (CharClass negate s)"
  show ?thesis
  proof (cases "cstrings st = []")
    case True
    then have "class_sem ue c inp negate s = consumer_sem inp (cu c) (classConsumer ue c (cset st) negate)"
      using Inr by (intro ext) (simp add: class_sem_def)
    then show ?thesis using consumer_sem_ok [OF consumers_consume(3)] by simp
  next
    case False
    then have "class_sem ue c inp negate s = string_sem ue c inp st" "backw c = False"
      using Inr wf by (auto simp: class_sem_def fun_eq_iff)
    then show ?thesis using string_sem_ok by simp
  qed
qed

lemma node_sem_ok:
  "node_wf ue c n \<Longrightarrow> node_scoped (\<lambda>i. 2 * i + 1 < slots) (cnames c) n \<Longrightarrow>
     sem_ok inp slots (backw c) (node_sem ue inp c n)"
  "list_all (node_wf ue c) ns \<Longrightarrow> list_all (node_scoped (\<lambda>i. 2 * i + 1 < slots) (cnames c)) ns \<Longrightarrow>
     list_all (sem_ok inp slots (backw c)) (node_sems ue inp c ns)"
proof (induction ue inp c n and ue inp c ns rule: node_sem_node_sems.induct)
  case (1 ue inp c)
  show ?case by (auto simp: sem_ok_def rng_refl)
next
  case (4 ue inp c kind)
  show ?case by (auto simp: sem_ok_def rng_refl)
next
  case (5 ue inp c negate s)
  then show ?case using class_sem_ok by simp
next
  case (6 ue inp c ts)
  then show ?case by (auto simp: list_all_rev intro!: seq_sem_ok)
next
  case (9 ue inp c mods body)
  then show ?case by (auto split: option.splits)
next
  case (10 ue inp c mn mx greedy body)
  have "range_scoped (\<lambda>i. 2 * i + 1 < slots) (captureRange body)"
    by (rule captureRange_scoped [of _ "cnames c"]) (use 10 in simp)
  then show ?case using 10 by (auto simp: range_scoped_def intro!: rep_sem_ok)
next
  case (11 ue inp c i)
  then show ?case using caps_valid_span
    by (auto simp: backref_span_def group_in_range_def intro!: ref_sem_ok split: if_splits)
next
  case (12 ue inp c name)
  let ?idxs = "case map_of (cnames c) name of None \<Rightarrow> [] | Some idxs \<Rightarrow> idxs"
  have pos: "list_all (\<lambda>i. 1 \<le> i) ?idxs" using 12 by (auto split: option.split)
  show ?case unfolding node_sem.simps
  proof (rule ref_sem_ok)
    fix cs s e assume v: "caps_valid (length inp) cs" "namedBackref_span ?idxs (probe inp (cu c) cs) = Some (s, e)" "0 \<le> s"
    then obtain i where "i \<in> set ?idxs" "2 * i + 1 < length cs" "s = cs ! (2 * i)" "e = cs ! (2 * i + 1)"
      using namedBackref_span_cases [OF v(2)] by (auto simp: group_in_range_def)
    with v caps_valid_span [OF v(1), of i] pos show "s \<le> e" by (auto simp: list_all_iff)
  qed
qed (auto simp: consumer_sem_ok consumers_consume alt_sem_ok capture_sem_ok look_sem_ok)

subsection \<open>Every compiled matcher refines its node\<close>

lemma node_lawful: "node ue c n = Inr x \<Longrightarrow> lawful_matcher inp u slots x"
  by (simp add: lawful_matcher_def static.node_keeps(1) failed.node_keeps(1))

lemma nodes_lawful: "nodes ue c ns = Inr xs \<Longrightarrow> \<forall>x \<in> set xs. lawful_matcher inp u slots x"
  using nodes_Inr_mem node_lawful by blast

lemma refines_class:
  assumes "classMatcher ue c negate s = Inr x" "node_wf ue c (CharClass negate s)" "cu c = u"
  shows "refines inp u slots (backw c) x (class_sem ue c inp negate s)"
proof -
  obtain st where st: "compileClassSet ue c s = Inr st" using assms(1) by (auto simp: classMatcher_def res_bind_eq_Inr)
  show ?thesis
  proof (cases "cstrings st = []")
    case True
    then have "class_sem ue c inp negate s = consumer_sem inp u (classConsumer ue c (cset st) negate)"
      using st assms(3) by (intro ext) (simp add: class_sem_def)
    then show ?thesis
      using assms(1) st True refines_unit_consumer [OF local_consumers(3) consumers_consume(3)]
      by (auto simp: classMatcher_def)
  next
    case False
    then have "class_sem ue c inp negate s = string_sem ue c inp st" "backw c = False"
      using st assms(2) by (auto simp: class_sem_def fun_eq_iff)
    then show ?thesis
      using assms(1) st False refines_classString [OF assms(3)] by (auto simp: classMatcher_def split: if_splits)
  qed
qed

lemma refines_simple:
  assumes "simpleConsumer ue c n = Some cons" "mx < 0 \<or> int mn \<le> mx" "cu c = u"
  shows "refines inp u slots (backw c) (simpleQuantifier cons mn mx greedy) (node_sem ue inp c (Quantifier mn mx greedy n))"
proof -
  have sem: "node_sem ue inp c n = consumer_sem inp u cons"
    using assms(1,3)
    by (cases n) (auto simp: simpleConsumer_def class_sem_def [abs_def] split: sum.splits if_splits)
  have loc: "local_to_input cons" using assms(1) by (cases n) (auto simp: simpleConsumer_def split: sum.splits if_splits)
  have "captureRange n = (1073741824, 0)"
    using assms(1) by (cases n) (auto simp: simpleConsumer_def captureRange_def split: sum.splits if_splits)
  then show ?thesis
    using refines_simpleQuantifier [OF loc simpleConsumer_consumes [OF assms(1)] assms(2), of 0 1073741824] sem by simp
qed

lemma refines_empty: "refines inp u slots bk (\<lambda>m sp k. k sp m) (\<lambda>sp cs. [(sp, cs)])"
proof (rule refinesI, goal_cases)
  case (1 k q sp m b m')
  then show ?case using agree_ok [OF 1(3) [OF rng_refl [OF 1(1)]] 1(4,5)] by simp
qed

lemma node_refines:
  "node ue c n = Inr x \<Longrightarrow> node_wf ue c n \<Longrightarrow> node_scoped (\<lambda>i. 2 * i + 1 < slots) (cnames c) n \<Longrightarrow> cu c = u \<Longrightarrow>
     refines inp u slots (backw c) x (node_sem ue inp c n)"
  "nodes ue c ns = Inr xs \<Longrightarrow> list_all (node_wf ue c) ns \<Longrightarrow>
     list_all (node_scoped (\<lambda>i. 2 * i + 1 < slots) (cnames c)) ns \<Longrightarrow> cu c = u \<Longrightarrow>
     list_all2 (refines inp u slots (backw c)) xs (node_sems ue inp c ns)"
proof (induction ue c n and ue c ns arbitrary: x and xs rule: node_nodes.induct)
  case (1 ue c)
  then show ?case using refines_empty by auto
next
  case (6 ue c ts)
  then obtain ms where ms: "nodes ue c ts = Inr ms" "x = concat_matcher c ms" by (auto simp: res_bind_eq_Inr)
  have r: "list_all2 (refines inp u slots (backw c)) ms (node_sems ue inp c ts)" using 6 ms by simp
  note l = nodes_lawful [OF ms(1)]
  have "refines inp u slots (backw c) (\<lambda>m sp k. concat_run (rev ms) k m sp) (seq_sem (rev (node_sems ue inp c ts)))"
    by (rule refines_concat_run) (use r l in simp_all)
  then show ?case
    using refines_concat_run [OF r l] by (cases "backw c") (simp_all add: ms(2) concat_matcher_def [abs_def])
next
  case (7 ue c ts)
  then show ?case by (auto simp: res_bind_eq_Inr intro!: refines_disjunction nodes_lawful)
next
  case (10 ue c mn mx greedy body)
  show ?case
  proof (cases "simpleConsumer ue c body")
    case None
    then show ?thesis using 10 by (auto simp: res_bind_eq_Inr intro!: refines_quantifier node_lawful)
  next
    case (Some cons)
    then show ?thesis using 10 refines_simple [OF Some, of mx mn] by auto
  qed
next
  case (12 ue c name)
  then show ?case by (auto simp: refines_namedBackref split: option.splits if_splits)
next
  case (13 ue c behind negate body)
  then obtain b where b: "node ue (c\<lparr>backw := behind\<rparr>) body = Inr b" "x = (if negate then look_neg b else look_pos b)"
    by (auto simp: res_bind_eq_Inr)
  have r: "refines inp u slots behind b (node_sem ue inp (c\<lparr>backw := behind\<rparr>) body)"
    using "13.IH" [OF b(1)] "13.prems" by simp
  have o: "sem_ok inp slots behind (node_sem ue inp (c\<lparr>backw := behind\<rparr>) body)"
    using node_sem_ok(1) [of ue "c\<lparr>backw := behind\<rparr>" body slots inp] "13.prems" by simp
  show ?case
    using refines_look_neg [OF r node_lawful [OF b(1)] o] refines_look_pos [OF r node_lawful [OF b(1)] o] b(2)
    by simp
qed (auto simp: charMatcher_def res_bind_eq_Inr refines_unit_consumer consumers_consume refines_assertion refines_class
    refines_capture refines_backref split: option.splits)

subsection \<open>The search\<close>

text \<open>
  What a search means: at each anchor from the start on, take the first outcome of the pattern;
  a sticky pattern tries only the first anchor; in Unicode mode an anchor is never inside a
  surrogate pair.
\<close>

definition start_caps :: "nat \<Rightarrow> nat \<Rightarrow> int list" where
  "start_caps groups at = (replicate (2 * (groups + 1)) (-1))[0 := int at]"

definition match_at :: "unicode_env \<Rightarrow> Pattern \<Rightarrow> int list \<Rightarrow> nat \<Rightarrow> int list option" where
  "match_at ue pat inp at =
     (case node_sem ue inp (initial_compiler (PFlags pat) (GroupNames pat)) (Body pat) at (start_caps (GroupCount pat) at) of
        [] \<Rightarrow> None
      | (y, cs) # _ \<Rightarrow> Some (cs[1 := int y]))"

function find_sem :: "unicode_env \<Rightarrow> Pattern \<Rightarrow> int list \<Rightarrow> nat \<Rightarrow> int list option" where
  "find_sem ue pat inp at =
     (if at \<le> length inp then
        case match_at ue pat inp at of
          Some r \<Rightarrow> Some r
        | None \<Rightarrow>
            if Sticky (PFlags pat) then None
            else find_sem ue pat inp (nextStart (probe inp (UnicodeMode (PFlags pat)) []) at)
      else None)"
  by pat_completeness auto
termination
  by (relation "measure (\<lambda>(ue, pat, inp, at). length inp + 1 - at)") (auto simp: nextStart_def)

declare find_sem.simps [simp del]

definition pattern_ok :: "unicode_env \<Rightarrow> Pattern \<Rightarrow> bool" where
  "pattern_ok ue pat \<longleftrightarrow>
     node_wf ue (initial_compiler (PFlags pat) (GroupNames pat)) (Body pat) \<and>
     node_scoped (\<lambda>i. i \<le> GroupCount pat) (GroupNames pat) (Body pat)"

lemma start_caps_valid: "caps_valid len (start_caps g at)" "length (start_caps g at) = 2 * (g + 1)"
  by (simp_all add: caps_valid_def start_caps_def nth_list_update del: replicate_Suc)

lemma attempt_refines:
  assumes c: "compile ue pat = Inr p" and ok: "pattern_ok ue pat"
    and m: "static inp (punicode p) (2 * (numGroups p + 1)) m" "err m = None" and at: "at \<le> length inp"
    and run: "attempt p m at = (b, m')" and e: "err m' = None"
  shows "case match_at ue pat inp at of Some r \<Rightarrow> b \<and> caps m' = r | None \<Rightarrow> \<not> b"
proof -
  let ?c = "initial_compiler (PFlags pat) (GroupNames pat)" and ?slots = "2 * (numGroups p + 1)"
  let ?S = "node_sem ue inp ?c (Body pat)" and ?q = "\<lambda>y cs. Some (cs[1 := int y]) :: int list option"
  obtain x where x: "node ue ?c (Body pat) = Inr x" "entry p = x" "numGroups p = GroupCount pat"
      "punicode p = UnicodeMode (PFlags pat)"
    using c by (auto simp: compile_Inr)
  have sc: "(\<lambda>i. 2 * i + 1 < ?slots) = (\<lambda>i. i \<le> GroupCount pat)" using x(3) by auto
  have r: "refines inp (punicode p) ?slots False x ?S"
    using node_refines(1) [OF x(1), of ?slots "punicode p" inp] ok x(4) unfolding pattern_ok_def sc by simp
  have fl: "lawful inp (punicode p) ?slots final_cont"
    by (simp add: lawful_def static.keeps_final failed.keeps_final)
  have fa: "agree inp (punicode p) ?slots final_cont ?q y" for y
    by (simp add: agree_def final_cont_def ok_res_def)
  have st: "ready inp (punicode p) ?slots (attempt_start m at)" "caps (attempt_start m at) = start_caps (GroupCount pat) at"
    using m start_caps_valid x(3) by (simp_all add: ready_def static_def attempt_start_def start_caps_def)
  have "ok_res (b, m') (start_caps (GroupCount pat) at) (first_outcome ?q (?S at (start_caps (GroupCount pat) at)))"
    using agree_ok [OF refinesD [OF r at fl fa] st(1)] run unfolding attempt_alt x(2) st(2) by simp
  then show ?thesis
    using e by (auto simp: ok_res_def match_at_def first_outcome_def split: list.splits)
qed

lemma find_loop_sem:
  assumes c: "compile ue pat = Inr p" and ok: "pattern_ok ue pat"
    and m: "static inp (punicode p) (2 * (numGroups p + 1)) m" "err m = None"
    and r: "fst (find_loop p (length inp) m at) = Inr res"
  shows "res = find_sem ue pat inp at"
proof -
  let ?slots = "2 * (numGroups p + 1)"
  have pf: "pflags p = PFlags pat" "punicode p = UnicodeMode (PFlags pat)" using c by (auto simp: compile_Inr)
  have "case fst (find_loop p (length inp) m at) of Inr res \<Rightarrow> res = find_sem ue pat inp at | Inl _ \<Rightarrow> True"
  proof (rule find_loop_rule [where I = "\<lambda>m a. static inp (punicode p) ?slots m \<and> err m = None \<and>
        find_sem ue pat inp a = find_sem ue pat inp at"
        and Q = "\<lambda>r m. case r of Inr res \<Rightarrow> res = find_sem ue pat inp at | Inl _ \<Rightarrow> True"])
    fix m a m1
    assume I: "static inp (punicode p) ?slots m \<and> err m = None \<and> find_sem ue pat inp a = find_sem ue pat inp at"
      and a: "a \<le> length inp" and st: "step m = (True, m1)"
    have m1: "static inp (punicode p) ?slots m1" "err m1 = None"
      using I step_frame [OF st] by (auto simp: static_def)
    obtain b m2 where at: "attempt p m1 a = (b, m2)" by force
    have s2: "static inp (punicode p) ?slots m2"
      using static.attempt_keeps [OF c node_scoped_all, of inp "punicode p" ?slots m1 a] m1(1) at
      by (simp add: static_def attempt_start_def)
    have ns: "nextStart m2 a = nextStart (probe inp (UnicodeMode (PFlags pat)) []) a"
      using s2 pf by (simp add: nextStart_def static_def)
    show "round_ok p (\<lambda>m a. static inp (punicode p) ?slots m \<and> err m = None \<and>
        find_sem ue pat inp a = find_sem ue pat inp at)
        (\<lambda>r m. case r of Inr res \<Rightarrow> res = find_sem ue pat inp at | Inl _ \<Rightarrow> True) a (attempt p m1 a)"
      using attempt_refines [OF c ok m1 a at] I a s2 ns pf at
      by (auto simp: round_ok_def find_sem.simps [of ue pat inp a] split: option.splits if_splits)
  next
    fix m a assume "static inp (punicode p) ?slots m \<and> err m = None \<and> find_sem ue pat inp a = find_sem ue pat inp at"
      "length inp < a"
    then show "case Inr None of Inr res \<Rightarrow> res = find_sem ue pat inp at | Inl (_::match_err) \<Rightarrow> True"
      by (simp add: find_sem.simps [of ue pat inp a])
  qed (use m in auto)
  then show ?thesis using r by simp
qed

lemma find_Inr:
  assumes "compile ue pat = Inr p" "pattern_ok ue pat" "FindSubmatchIndex p lim cx inp start = Inr res"
  shows "res = find_sem ue pat inp start"
proof -
  have "static inp (punicode p) (2 * (numGroups p + 1)) (initial_machine p lim cx inp)"
    by (simp add: static_def initial_machine_def)
  then show ?thesis
    using find_loop_sem [OF assms(1,2), of inp "initial_machine p lim cx inp" start res] assms(3)
    by (simp add: FindSubmatchIndex_def initial_machine_def)
qed

subsection \<open>What a result looks like\<close>

text \<open>Slot 0 belongs to the search: no group writes it, no quantifier resets it.\<close>

definition keeps_start :: "sem \<Rightarrow> bool" where
  "keeps_start S \<longleftrightarrow> (\<forall>sp cs y cs'. cs \<noteq> [] \<and> (y, cs') \<in> set (S sp cs) \<longrightarrow> cs' \<noteq> [] \<and> cs' ! 0 = cs ! 0)"

lemma keeps_startD: "keeps_start S \<Longrightarrow> cs \<noteq> [] \<Longrightarrow> (y, cs') \<in> set (S sp cs) \<Longrightarrow> cs' \<noteq> [] \<and> cs' ! 0 = cs ! 0"
  unfolding keeps_start_def by blast

lemma keeps_startI:
  "(\<And>sp cs y cs'. cs \<noteq> [] \<Longrightarrow> (y, cs') \<in> set (S sp cs) \<Longrightarrow> cs' \<noteq> [] \<and> cs' ! 0 = cs ! 0) \<Longrightarrow> keeps_start S"
  unfolding keeps_start_def by blast

lemma captureRange_walk_lo:
  "node_scoped (\<lambda>i. 1 \<le> i) names n \<Longrightarrow> 1 \<le> fst r \<Longrightarrow> 1 \<le> fst (captureRange_walk n r)"
  "list_all (node_scoped (\<lambda>i. 1 \<le> i) names) ns \<Longrightarrow> 1 \<le> fst r \<Longrightarrow> 1 \<le> fst (captureRange_walks ns r)"
  by (induction n r and ns r rule: captureRange_walk_captureRange_walks.induct) auto

lemma node_wf_scoped: "node_wf ue c n \<Longrightarrow> node_scoped (\<lambda>i. 1 \<le> i) (cnames c) n"
  by (induction ue c n rule: node_wf.induct) (auto simp: list_all_iff split: option.splits)

lemma reset_start: "1 \<le> lo \<Longrightarrow> cs \<noteq> [] \<Longrightarrow> reset_caps cs lo hi \<noteq> [] \<and> reset_caps cs lo hi ! 0 = cs ! 0"
  by (auto simp: reset_caps_def nth_append)

lemma rep_keeps_start:
  assumes S: "keeps_start S" and lo: "1 \<le> lo"
  shows "keeps_start (rep_sem bk len S lo hi greedy mn mx)"
proof -
  have "cs \<noteq> [] \<Longrightarrow> (y, cs') \<in> set (rep_sem bk len S lo hi greedy mn mx sp cs) \<Longrightarrow> cs' \<noteq> [] \<and> cs' ! 0 = cs ! 0"
    for sp cs y cs'
    using S lo
  proof (induction bk len S lo hi greedy mn mx sp cs rule: rep_sem.induct)
    case (1 bk len S lo hi greedy mn mx x cs)
    let ?mx = "if mx > 0 then mx - 1 else mx"
    have "(y, cs') = (x, cs) \<or> (mx \<noteq> 0 \<and> (\<exists>z ds. (z, ds) \<in> set (S x (reset_caps cs lo hi)) \<and>
        \<not> (mn = 0 \<and> \<not> moves bk len x z) \<and>
        (y, cs') \<in> set (rep_sem bk len S lo hi greedy (mn - 1) ?mx z ds)))"
      using "1.prems"(2) unfolding rep_sem.simps [of _ _ _ _ _ _ mn] Let_def by (force split: if_splits)
    then show ?case
    proof (elim disjE conjE exE)
      fix z ds assume z: "mx \<noteq> 0" "(z, ds) \<in> set (S x (reset_caps cs lo hi))"
        "\<not> (mn = 0 \<and> \<not> moves bk len x z)" "(y, cs') \<in> set (rep_sem bk len S lo hi greedy (mn - 1) ?mx z ds)"
      have "ds \<noteq> []" "ds ! 0 = cs ! 0"
        using keeps_startD [OF "1.prems"(3) _ z(2)] reset_start [OF "1.prems"(4,1)] by auto
      then show ?thesis using "1.IH" [OF z(1,2) refl z(3) _ z(4)] "1.prems" by auto
    qed (use "1.prems"(1) in auto)
  qed
  then show ?thesis unfolding keeps_start_def by blast
qed

lemma seq_keeps_start: "list_all keeps_start Ss \<Longrightarrow> keeps_start (seq_sem Ss)"
proof (induction Ss)
  case (Cons S Ss)
  then have S: "keeps_start S" and Ss: "keeps_start (seq_sem Ss)" by simp_all
  show ?case
  proof (rule keeps_startI)
    fix sp cs y cs' assume ne: "cs \<noteq> []" and "(y, cs') \<in> set (seq_sem (S # Ss) sp cs)"
    then obtain z ds where z: "(z, ds) \<in> set (S sp cs)" "(y, cs') \<in> set (seq_sem Ss z ds)" by auto
    then show "cs' \<noteq> [] \<and> cs' ! 0 = cs ! 0"
      using keeps_startD [OF S ne z(1)] keeps_startD [OF Ss _ z(2)] by simp
  qed
qed (simp add: keeps_start_def)

lemma basic_keeps_start:
  "keeps_start (consumer_sem inp u cons)" "keeps_start (ref_sem ue c inp resolve)"
  "keeps_start (class_sem ue c inp negate s)"
  "keeps_start S \<Longrightarrow> 1 \<le> i \<Longrightarrow> keeps_start (capture_sem bk i S)"
  "keeps_start S \<Longrightarrow> keeps_start (look_sem negate S)"
  "list_all keeps_start Ss \<Longrightarrow> keeps_start (alt_sem Ss)"
proof -
  show "keeps_start (consumer_sem inp u cons)" "keeps_start (ref_sem ue c inp resolve)"
    by (auto simp: keeps_start_def consumer_sem_def ref_sem_def Let_def split: option.splits if_splits)
  show "keeps_start (class_sem ue c inp negate s)"
    by (auto simp: keeps_start_def class_sem_def string_sem_def consumer_sem_def Let_def
        split: sum.splits option.splits if_splits)
  show "keeps_start S \<Longrightarrow> 1 \<le> i \<Longrightarrow> keeps_start (capture_sem bk i S)"
  proof (rule keeps_startI)
    fix sp cs y cs' assume S: "keeps_start S" "1 \<le> i" "cs \<noteq> []" and "(y, cs') \<in> set (capture_sem bk i S sp cs)"
    then obtain ds where ds: "(y, ds) \<in> set (S sp cs)"
      and cs': "cs' = (if bk then ds[2 * i := int y, 2 * i + 1 := int sp] else ds[2 * i := int sp, 2 * i + 1 := int y])"
      by (auto simp: capture_sem_def)
    show "cs' \<noteq> [] \<and> cs' ! 0 = cs ! 0"
      using keeps_startD [OF S(1,3) ds] S(2) by (simp add: cs')
  qed
  show "keeps_start S \<Longrightarrow> keeps_start (look_sem negate S)"
  proof (rule keeps_startI)
    fix sp cs y cs' assume S: "keeps_start S" "cs \<noteq> []" and o: "(y, cs') \<in> set (look_sem negate S sp cs)"
    have "cs' = cs \<or> (\<exists>z. (z, cs') \<in> set (S sp cs))"
      using o by (cases "S sp cs") (auto simp: look_sem_def split: if_splits)
    then show "cs' \<noteq> [] \<and> cs' ! 0 = cs ! 0" using keeps_startD [OF S] S(2) by blast
  qed
  show "list_all keeps_start Ss \<Longrightarrow> keeps_start (alt_sem Ss)"
    by (rule keeps_startI) (auto simp: alt_sem_def list_all_iff dest!: bspec intro: keeps_startD [THEN conjunct2] dest: keeps_startD)
qed

lemma node_keeps_start:
  "node_wf ue c n \<Longrightarrow> keeps_start (node_sem ue inp c n)"
  "list_all (node_wf ue c) ns \<Longrightarrow> list_all keeps_start (node_sems ue inp c ns)"
proof (induction ue inp c n and ue inp c ns rule: node_sem_node_sems.induct)
  case (10 ue inp c mn mx greedy body)
  have "1 \<le> fst (captureRange body)"
    unfolding captureRange_def using 10 node_wf_scoped [of ue c body] by (intro captureRange_walk_lo) auto
  then show ?case using 10 by (auto intro: rep_keeps_start)
next
  case (6 ue inp c ts)
  then show ?case by (auto simp: list_all_rev intro!: seq_keeps_start)
next
  case (1 ue inp c)
  show ?case by (simp add: keeps_start_def)
next
  case (4 ue inp c kind)
  show ?case by (simp add: keeps_start_def)
qed (auto simp: basic_keeps_start split: option.splits)

lemma match_at_shape:
  assumes ok: "pattern_ok ue pat" and at: "at \<le> length inp" and r: "match_at ue pat inp at = Some cs"
  shows "length cs = 2 * (GroupCount pat + 1)" "cs ! 0 = int at" "int at \<le> cs ! 1" "cs ! 1 \<le> int (length inp)"
    "caps_valid (length inp) cs"
proof -
  let ?slots = "2 * (GroupCount pat + 1)" and ?c = "initial_compiler (PFlags pat) (GroupNames pat)"
  obtain y ds where y: "(y, ds) \<in> set (node_sem ue inp ?c (Body pat) at (start_caps (GroupCount pat) at))"
      "cs = ds[1 := int y]"
    using r by (auto simp: match_at_def split: list.splits)
  have sc: "(\<lambda>i. 2 * i + 1 < ?slots) = (\<lambda>i. i \<le> GroupCount pat)" by auto
  have so: "sem_ok inp ?slots False (node_sem ue inp ?c (Body pat))"
    using node_sem_ok(1) [of ue ?c "Body pat" ?slots inp] ok unfolding pattern_ok_def sc by simp
  have o: "y \<in> rng False (length inp) at" "caps_valid (length inp) ds" "length ds = ?slots"
    using sem_okD [OF so at start_caps_valid y(1)] by simp_all
  have ne: "start_caps (GroupCount pat) at \<noteq> []" "start_caps (GroupCount pat) at ! 0 = int at"
    by (simp_all add: start_caps_def)
  have "ds ! 0 = int at"
    using keeps_startD [OF node_keeps_start(1) ne(1) y(1)] ok ne(2) by (simp add: pattern_ok_def)
  then show "length cs = ?slots" "cs ! 0 = int at" "int at \<le> cs ! 1" "cs ! 1 \<le> int (length inp)"
    using o y(2) by (auto simp: rng_def)
  have "2 * i \<noteq> 1" "i \<ge> 1 \<Longrightarrow> 2 * i + 1 \<noteq> 1" for i :: nat by presburger+
  then show "caps_valid (length inp) cs" using o(2) unfolding y(2) caps_valid_def by (simp add: nth_update_if)
qed

text \<open>
  In what order the anchors are tried: the anchors of a search from \<open>start\<close> are \<open>start\<close>, its
  successor by \<open>nextStart\<close>, and so on up to the end of the input.
\<close>

inductive anchor :: "bool \<Rightarrow> int list \<Rightarrow> nat \<Rightarrow> nat \<Rightarrow> bool" for u inp start where
  anchor_first: "start \<le> length inp \<Longrightarrow> anchor u inp start start"
| anchor_next: "anchor u inp start a \<Longrightarrow> nextStart (probe inp u []) a \<le> length inp \<Longrightarrow>
    anchor u inp start (nextStart (probe inp u []) a)"

lemma anchor_bounds: "anchor u inp start a \<Longrightarrow> start \<le> a \<and> a \<le> length inp"
  by (induction rule: anchor.induct) (auto simp: nextStart_def split: if_splits)

lemma anchor_shift:
  "anchor u inp (nextStart (probe inp u []) start) a \<Longrightarrow> start \<le> length inp \<Longrightarrow> anchor u inp start a"
  by (induction rule: anchor.induct) (auto intro: anchor.intros)

lemma anchor_cases:
  "anchor u inp start a \<Longrightarrow> a = start \<or> anchor u inp (nextStart (probe inp u []) start) a"
  by (induction rule: anchor.induct) (auto intro: anchor.intros)

lemma find_sem_Some:
  "find_sem ue pat inp start = Some cs \<Longrightarrow> \<not> Sticky (PFlags pat) \<Longrightarrow>
   \<exists>a. anchor (UnicodeMode (PFlags pat)) inp start a \<and> match_at ue pat inp a = Some cs \<and>
     (\<forall>a'. anchor (UnicodeMode (PFlags pat)) inp start a' \<and> a' < a \<longrightarrow> match_at ue pat inp a' = None)"
proof (induction ue pat inp start rule: find_sem.induct)
  case (1 ue pat inp start)
  let ?n = "nextStart (probe inp (UnicodeMode (PFlags pat)) []) start"
  have le: "start \<le> length inp" using 1(2) by (simp add: find_sem.simps [of ue pat inp start] split: if_splits)
  show ?case
  proof (cases "match_at ue pat inp start")
    case (Some r)
    then have "r = cs" using 1(2) le by (simp add: find_sem.simps [of ue pat inp start])
    then show ?thesis using Some anchor_first [OF le] anchor_bounds by (metis not_le)
  next
    case None
    then have f: "find_sem ue pat inp ?n = Some cs"
      using 1(2,3) le by (simp add: find_sem.simps [of ue pat inp start])
    obtain a where a: "anchor (UnicodeMode (PFlags pat)) inp ?n a" "match_at ue pat inp a = Some cs"
      "\<forall>a'. anchor (UnicodeMode (PFlags pat)) inp ?n a' \<and> a' < a \<longrightarrow> match_at ue pat inp a' = None"
      using 1(1) [OF le None 1(3) f 1(3)] by blast
    then show ?thesis using anchor_shift [OF a(1) le] anchor_cases None by blast
  qed
qed

lemma find_sem_None:
  "find_sem ue pat inp start = None \<Longrightarrow> \<not> Sticky (PFlags pat) \<Longrightarrow>
   anchor (UnicodeMode (PFlags pat)) inp start a \<Longrightarrow> match_at ue pat inp a = None"
proof (induction ue pat inp start rule: find_sem.induct)
  case (1 ue pat inp start)
  have le: "start \<le> length inp" using anchor_bounds [OF 1(4)] by simp
  have n: "match_at ue pat inp start = None"
    "find_sem ue pat inp (nextStart (probe inp (UnicodeMode (PFlags pat)) []) start) = None"
    using 1(2,3) le by (auto simp: find_sem.simps [of ue pat inp start] split: option.splits)
  then show ?case using 1(1) [OF le n(1) 1(3) n(2) 1(3)] anchor_cases [OF 1(4)] by blast
qed

lemma find_sem_anchor:
  "find_sem ue pat inp start = Some cs \<Longrightarrow> \<exists>a \<ge> start. a \<le> length inp \<and> match_at ue pat inp a = Some cs"
proof (cases "Sticky (PFlags pat)")
  case True
  assume "find_sem ue pat inp start = Some cs"
  then show ?thesis using True by (subst (asm) find_sem.simps) (auto split: if_splits option.splits)
next
  case False
  assume "find_sem ue pat inp start = Some cs"
  then show ?thesis using find_sem_Some [OF _ False] anchor_bounds by blast
qed

subsection \<open>Examples\<close>

text \<open>The pattern \<open>/(a)*b/\<close> and the sticky \<open>/b/y\<close>.\<close>

definition star_pat :: Pattern where
  "star_pat = \<lparr>Body = Concat [Quantifier 0 (-1) True (Capture 1 [] (CharN 0x61)), CharN 0x62], GroupCount = 1,
     GroupNames = [], PFlags = noFlags\<rparr>"

definition sticky_pat :: Pattern where
  "sticky_pat = \<lparr>Body = CharN 0x62, GroupCount = 0, GroupNames = [], PFlags = noFlags\<lparr>Sticky := True\<rparr>\<rparr>"

lemma example_ok: "pattern_ok ascii_env star_pat" "pattern_ok ascii_env sticky_pat"
  by (simp_all add: pattern_ok_def star_pat_def sticky_pat_def)

lemma example_compiles: "\<exists>p. compile ascii_env star_pat = Inr p" "\<exists>p. compile ascii_env sticky_pat = Inr p"
  by (simp_all add: compile_def star_pat_def sticky_pat_def simpleConsumer_def)

lemma example_sem:
  "find_sem ascii_env star_pat [0x78, 0x61, 0x61, 0x62] 0 = Some [1, 4, 2, 3]"
  "find_sem ascii_env sticky_pat [0x61, 0x62] 0 = None"
  by code_simp+

subsection \<open>Properties\<close>

text \<open>
  C1: The matcher is correct. A search with a compiled, well-formed pattern either stops on the step
  budget, the depth guard or the caller's context, or returns exactly what the outcome semantics
  says: the first outcome, in the order of the specification, at the first anchor that has one.
\<close>

theorem find_refines:
  assumes "compile ue pat = Inr p" "pattern_ok ue pat"
  shows "FindSubmatchIndex p lim cx inp start \<in> {Inl ErrBudget, Inl ErrCtx, Inr (find_sem ue pat inp start)}"
proof (cases "FindSubmatchIndex p lim cx inp start")
  case (Inl e)
  then show ?thesis
    using find_no_panic [OF assms(1), of lim cx inp start] find_no_fuel [OF assms(1), of lim cx inp start] assms(2)
    by (cases e) (auto simp: pattern_ok_def)
qed (use find_Inr [OF assms] in auto)

theorem find_refines_witness:
  "\<exists>p. compile ascii_env star_pat = Inr p \<and>
     FindSubmatchIndex p 0 None [0x78, 0x61, 0x61, 0x62] 0 \<in> {Inl ErrBudget, Inl ErrCtx, Inr (Some [1, 4, 2, 3])}"
  using example_compiles(1) find_refines [OF _ example_ok(1)] example_sem(1) by metis





text \<open>
  C6: The iterative fast path is equivalent to the general one. For a body that consumes exactly one
  character \<open>simpleQuantifier\<close> (collect the positions, then try the continuation) and the recursive
  RepeatMatcher agree: with any continuation that has a specification, runs that are not cut off
  give the same answer and the same capture slots.
\<close>

theorem fast_path_equiv:
  assumes body: "simpleConsumer ue c n = Some cons" "mx < 0 \<or> int mn \<le> mx"
    and k: "lawful inp (cu c) slots k" "\<forall>y. agree inp (cu c) slots k q y"
    and m: "ready inp (cu c) slots m" "sp \<le> length inp"
    and fast: "simpleQuantifier cons mn mx greedy m sp k = (b1, m1)" "err m1 = None"
    and slow: "quantifier_matcher n mn mx greedy (consumerMatcher cons) m sp k = (b2, m2)" "err m2 = None"
  shows "b1 = b2 \<and> caps m1 = caps m2"
proof -
  have loc: "local_to_input cons"
    using body(1) by (cases n) (auto simp: simpleConsumer_def split: sum.splits if_splits)
  note dir = simpleConsumer_consumes [OF body(1)]
  have cr: "captureRange n = (1073741824, 0)"
    using body(1) by (cases n) (auto simp: simpleConsumer_def captureRange_def split: sum.splits if_splits)
  let ?S = "rep_sem (backw c) (length inp) (consumer_sem inp (cu c) cons) 1073741824 0 greedy mn mx"
  have r1: "refines inp (cu c) slots (backw c) (simpleQuantifier cons mn mx greedy) ?S"
    by (rule refines_simpleQuantifier [OF loc dir body(2)]) simp
  have lm: "lawful_matcher inp (cu c) slots (consumerMatcher cons)"
    by (simp add: lawful_matcher_def static.consumer_keeps failed.consumer_keeps)
  have r2: "refines inp (cu c) slots (backw c) (quantifier_matcher n mn mx greedy (consumerMatcher cons)) ?S"
    using refines_quantifier [OF refines_unit_consumer [OF loc dir] lm, of n mn mx greedy] cr by simp
  have "ok_res (b1, m1) (caps m) (first_outcome q (?S sp (caps m)))"
    using agree_ok [OF refinesD [OF r1 m(2) k(1)] m(1) fast(1)] k(2) by blast
  moreover have "ok_res (b2, m2) (caps m) (first_outcome q (?S sp (caps m)))"
    using agree_ok [OF refinesD [OF r2 m(2) k(1)] m(1) slow(1)] k(2) by blast
  ultimately show ?thesis
    using fast(2) slow(2) by (cases "first_outcome q (?S sp (caps m))") (auto simp: ok_res_def)
qed

lemma final_cont_spec: "lawful inp u slots final_cont" "agree inp u slots final_cont (\<lambda>y cs. Some (cs[1 := int y])) y"
  by (simp_all add: lawful_def static.keeps_final failed.keeps_final agree_def final_cont_def ok_res_def)

theorem fast_path_equiv_witness:
  "let c = initial_compiler noFlags []; cons = anyConsumer c;
       m = probe [0x61, 0x62, 0x0A] False [0, -1];
       r1 = simpleQuantifier cons 1 (-1) True m 0 final_cont;
       r2 = quantifier_matcher AnyChar 1 (-1) True (consumerMatcher cons) m 0 final_cont
   in fst r1 = fst r2 \<and> caps (snd r1) = caps (snd r2) \<and> caps (snd r1) = [0, 2]"
proof -
  let ?c = "initial_compiler noFlags []" and ?m = "probe [0x61, 0x62, 0x0A] False [0, -1]"
  let ?r1 = "simpleQuantifier (anyConsumer ?c) 1 (-1) True ?m 0 final_cont"
  let ?r2 = "quantifier_matcher AnyChar 1 (-1) True (consumerMatcher (anyConsumer ?c)) ?m 0 final_cont"
  have e1: "fst ?r1 \<and> caps (snd ?r1) = [0, 2] \<and> err (snd ?r1) = None" by code_simp
  have e2: "err (snd ?r2) = None" by code_simp
  have u: "cu ?c = False" by code_simp
  have m: "ready [0x61, 0x62, 0x0A] (cu ?c) 2 ?m"
    unfolding u by (simp add: ready_def static_def caps_valid_def) (simp add: probe_def)
  have "fst ?r1 = fst ?r2 \<and> caps (snd ?r1) = caps (snd ?r2)"
  proof (rule fast_path_equiv [where ue = ascii_env and c = ?c and n = AnyChar and cons = "anyConsumer ?c"
        and mx = "-1" and mn = 1 and greedy = True and k = final_cont and sp = 0 and m = ?m and slots = 2
        and inp = "[0x61, 0x62, 0x0A]" and q = "\<lambda>y cs. Some (cs[1 := int y])"])
    show "simpleConsumer ascii_env ?c AnyChar = Some (anyConsumer ?c)" by (simp add: simpleConsumer_def)
    show "lawful [0x61, 0x62, 0x0A] (cu ?c) 2 final_cont"
      "\<forall>y. agree [0x61, 0x62, 0x0A] (cu ?c) 2 final_cont (\<lambda>y cs. Some (cs[1 := int y])) y"
      using final_cont_spec by blast+
    show "?r1 = (fst ?r1, snd ?r1)" "?r2 = (fst ?r2, snd ?r2)" by (rule prod.collapse [symmetric])+
  qed (use e1 e2 m in \<open>simp_all\<close>)
  with e1 show ?thesis by (simp add: Let_def)
qed

text \<open>
  C9: Every search returns. Whatever compiled program, input, limit and context: the loops of the
  model never exhaust their fuel, the depth guard of the code trips first; and when the capture
  indices of the pattern are within its group count, no capture access is out of range.
\<close>

theorem find_total:
  assumes "compile ue pat = Inr p"
  shows "FindSubmatchIndex p lim cx inp start \<noteq> Inl ErrFuel \<and>
    (node_scoped (\<lambda>i. i \<le> GroupCount pat) (GroupNames pat) (Body pat) \<longrightarrow>
       FindSubmatchIndex p lim cx inp start \<noteq> Inl ErrPanic)"
  using find_no_fuel [OF assms] find_no_panic [OF assms] by blast

theorem find_total_witness:
  "\<exists>p. compile ascii_env star_pat = Inr p \<and> FindSubmatchIndex p 5 None [0x61, 0x61, 0x61] 1 \<noteq> Inl ErrFuel \<and>
     FindSubmatchIndex p 5 None [0x61, 0x61, 0x61] 1 \<noteq> Inl ErrPanic"
  using example_compiles(1) find_total [of ascii_env star_pat] example_ok(1) unfolding pattern_ok_def by metis



end
