(* ===== verification/Regexp_Parse_Correct.thy ===== *)
theory Regexp_Parse_Correct
  imports Regexp_Parser_Grammar Regexp_Dup_Names Regexp_Spec
begin

text \<open>
  What \<open>Parse\<close> guarantees: it always returns, it panics only in the v-mode class grammar, and the
  pattern it returns is one the compiler can run. The capture numbering of the tree agrees with
  the group count of the independent pre-scan, which is what sizes the capture slots.
\<close>

subsection \<open>The names table of the pre-scan\<close>

definition indices_in :: "nat \<Rightarrow> group_names \<Rightarrow> bool" where
  "indices_in n names \<longleftrightarrow> (\<forall>(k, idxs) \<in> set names. \<forall>i \<in> set idxs. 1 \<le> i \<and> i \<le> n)"

lemma indices_in_mono: "indices_in n names \<Longrightarrow> n \<le> m \<Longrightarrow> indices_in m names"
  by (fastforce simp: indices_in_def)

lemma indices_in_add: "indices_in n names \<Longrightarrow> indices_in (n + 1) (add_name names k (n + 1))"
  by (auto simp: indices_in_def add_name_def split: option.splits if_splits) fastforce+

lemma scan_loop_indices:
  "scan_loop src i b cnt names = Inr (n, names') \<Longrightarrow> indices_in cnt names \<Longrightarrow> indices_in n names'"
proof (induction src i b cnt names rule: scan_loop.induct)
  case (1 src i b cnt names)
  have mono: "indices_in (cnt + 1) names" using indices_in_mono [OF "1.prems"(2)] by simp
  show ?case
  proof (cases "i < length src \<and> src ! i = 0x28 \<and> \<not> b")
    case True
    then have ch: "i < length src" "src ! i \<noteq> 0x5C" "\<not> (src ! i = 0x5B \<and> \<not> b)" "\<not> (src ! i = 0x5D \<and> b)" "src ! i = 0x28 \<and> \<not> b"
      by auto
    consider (named) "i + 1 < length src \<and> src ! (i + 1) = 0x3F" "is_named_group src i"
      | (other) "i + 1 < length src \<and> src ! (i + 1) = 0x3F" "\<not> is_named_group src i"
      | (plain) "\<not> (i + 1 < length src \<and> src ! (i + 1) = 0x3F)" by blast
    then show ?thesis
    proof cases
      case named
      then obtain nm j where nm: "scanGroupName src (i + 3) = Some (nm, j)"
        using "1.prems"(1) ch by (subst (asm) scan_loop.simps) (auto simp: Let_def split: option.splits)
      then have "scan_loop src j b (cnt + 1) (add_name names nm (cnt + 1)) = Inr (n, names')"
        using "1.prems"(1) ch named by (subst (asm) scan_loop.simps) (auto simp: Let_def)
      from "1.IH"(4) [OF ch(1) refl ch(2-5) named nm refl this indices_in_add [OF "1.prems"(2)]] show ?thesis .
    next
      case other
      then have "scan_loop src (i + 1) b cnt names = Inr (n, names')"
        using "1.prems"(1) ch by (subst (asm) scan_loop.simps) (auto simp: Let_def)
      from "1.IH"(5) [OF ch(1) refl ch(2-5) other this "1.prems"(2)] show ?thesis .
    next
      case plain
      then have "scan_loop src (i + 1) b (cnt + 1) names = Inr (n, names')"
        using "1.prems"(1) ch by (subst (asm) scan_loop.simps) (auto simp: Let_def)
      from "1.IH"(6) [OF ch(1) refl ch(2-5) plain this mono] show ?thesis .
    qed
  next
    case False
    then show ?thesis using "1.prems" "1.IH"(1-3,7) by (subst (asm) scan_loop.simps) (auto simp: Let_def split: if_splits)
  qed
qed

lemma scanGroups_indices: "scanGroups src = Inr (n, names) \<Longrightarrow> indices_in n names"
  unfolding scanGroups_def by (erule scan_loop_indices) (simp add: indices_in_def)

subsection \<open>Parse\<close>

definition initial_parser :: "rune list \<Rightarrow> Flags \<Rightarrow> nat \<Rightarrow> group_names \<Rightarrow> parser" where
  "initial_parser src flags n names =
     \<lparr>p_src = src, p_pos = 0, p_flags = flags, p_numGroups = n, p_names = names, p_capIndex = 0\<rparr>"

lemma disjunction_from_start:
  "wp (UnicodeSets flags) (parseDisjunction db (parse_fuel src) (initial_parser src flags n names))
     (\<lambda>b q. parsed db (initial_parser src flags n names) [b] q)"
  using pd.rec_parses [of "initial_parser src flags n names" "parse_fuel src" db]
  by (simp add: initial_parser_def parse_fuel_def)

lemma disjunction_error:
  "parseDisjunction db (parse_fuel src) (initial_parser src flags n names) = Inl e \<Longrightarrow>
   e \<noteq> OutOfFuel \<and> (e = IndexPanic \<longrightarrow> UnicodeSets flags)"
  using disjunction_from_start [of flags db src n names] by (simp add: wp_def)

lemma disjunction_parsed:
  "parseDisjunction db (parse_fuel src) (initial_parser src flags n names) = Inr (b, q) \<Longrightarrow>
   parsed db (initial_parser src flags n names) [b] q"
  using disjunction_from_start [of flags db src n names] by (simp add: wp_def)

lemma Parse_alt:
  "Parse db src flags = (case scanGroups src of
     Inl e \<Rightarrow> Inl (Syntax e)
   | Inr (n, names) \<Rightarrow>
       res_bind (parseDisjunction db (parse_fuel src) (initial_parser src flags n names)) (\<lambda>(body, p1).
         if p_pos p1 \<noteq> length src then
           Inl (Syntax \<lparr>Msg = str ''unmatched '' @ [0x27, 0x29, 0x27], Pos = int (p_pos p1)\<rparr>)
         else res_bind (lift_syntax (dupCheckNames body)) (\<lambda>_.
           Inr \<lparr>Body = body, GroupCount = n, GroupNames = names, PFlags = flags\<rparr>)))"
  by (auto simp: Parse_def lift_syntax_def initial_parser_def Let_def split: sum.splits)

lemma Parse_error:
  assumes "Parse db src flags = Inl e"
  shows "e \<noteq> OutOfFuel" "\<not> UnicodeSets flags \<Longrightarrow> e \<noteq> IndexPanic"
  using assms
  by (auto simp: Parse_alt lift_syntax_def res_bind_eq_Inl split: sum.splits if_splits dest: disjunction_error)

lemma Parse_Inr:
  assumes "Parse db src flags = Inr pat"
  obtains q where "scanGroups src = Inr (GroupCount pat, GroupNames pat)" "PFlags pat = flags" "p_pos q = length src"
    "parsed db (initial_parser src flags (GroupCount pat) (GroupNames pat)) [Body pat] q"
    "\<exists>s. dupCheckNames (Body pat) = Inr s"
  using assms
  by (auto simp: Parse_alt lift_syntax_def res_bind_eq_Inr split: sum.splits if_splits dest!: disjunction_parsed)

lemma Parse_captures:
  assumes "Parse db src flags = Inr pat" "names_plain db" "\<not> UnicodeSets flags" "node_plain (Body pat)"
  shows "node_caps (Body pat) = [1 ..< GroupCount pat + 1]"
proof -
  let ?p = "initial_parser src flags (GroupCount pat) (GroupNames pat)"
  obtain q where q: "scanGroups src = Inr (GroupCount pat, GroupNames pat)" "p_pos q = length src"
      "parsed db ?p [Body pat] q"
    using Parse_Inr [OF assms(1)] by metis
  have "counts src 0 (length src) (p_capIndex q)"
    using q assms by (simp add: parsed_def initial_parser_def)
  then obtain names' where "scan_loop src 0 False 0 [] = scan_loop src (length src) False (0 + p_capIndex q) names'"
    unfolding counts_def by blast
  then have "GroupCount pat = p_capIndex q"
    using q(1) by (simp add: scanGroups_def scan_loop.simps [of src "length src"])
  then show ?thesis using q(3) by (simp add: parsed_def initial_parser_def)
qed

subsection \<open>Parsed patterns are well formed\<close>

lemma good_scoped:
  "node_good fl g names n \<Longrightarrow> set (node_caps n) \<subseteq> {1 .. g} \<Longrightarrow> indices_in g names \<Longrightarrow> node_scoped (\<lambda>i. i \<le> g) names n"
  by (induction n) (auto simp: list_all_iff indices_in_def dest!: map_of_SomeD)

lemma simple_operands_no_strings:
  "operands ue c items = Inr ops \<Longrightarrow> list_all (item_simple False) items \<Longrightarrow> \<forall>s \<in> set ops. cstrings s = []"
proof (induction items arbitrary: ops)
  case (Cons x xs)
  then show ?case by (cases x) (auto simp: res_bind_eq_Inr single_set_def)
qed simp

lemma simple_class_no_strings:
  assumes "compileClassSet ue c s = Inr st" "Op s = SetUnion" "list_all (item_simple False) (Items s)"
  shows "cstrings st = []"
proof -
  obtain items where s: "s = ClassSet SetUnion items" using assms(2) by (cases s) auto
  then obtain ops where o: "operands ue c items = Inr ops" "st = combine_sets SetUnion ops"
    using assms(1) by (auto simp: res_bind_eq_Inr)
  have "\<forall>s \<in> set ops. cstrings s = []" using simple_operands_no_strings [OF o(1)] assms(3) s by simp
  then have e: "concat (map cstrings ops) = []" by simp
  have "cstrings (union_sets ops) = []" unfolding union_sets_def charSetV.simps e by (simp add: dedupStrings_def)
  then show ?thesis using o(2) by (cases ops) (auto simp: combine_sets_def emptySet_def)
qed

lemma good_wf:
  "node_good fl g names n \<Longrightarrow> \<not> UnicodeMode fl \<Longrightarrow> cnames c = names \<Longrightarrow> indices_in g names \<Longrightarrow> node_wf ue c n"
proof (induction ue c n rule: node_wf.induct)
  case (5 ue c md b)
  then show ?case by (cases md) (auto simp: withModifiers_def)
next
  case (9 ue c ng s)
  then show ?case using simple_class_no_strings by (auto simp: UnicodeMode_def)
qed (auto simp: list_all_iff indices_in_def dest!: map_of_SomeD)

lemma good_plain: "node_good fl g names n \<Longrightarrow> \<not> UnicodeMode fl \<Longrightarrow> node_plain n"
proof (induction n)
  case (CharClass ng s)
  have "item_simple False i \<Longrightarrow> item_plain i" for i by (cases i) auto
  then show ?case using CharClass by (auto simp: UnicodeMode_def list_all_iff)
qed (auto simp: list_all_iff)

lemma Parse_good:
  assumes "Parse db src flags = Inr pat"
  shows "node_good flags (GroupCount pat) (GroupNames pat) (Body pat)" "indices_in (GroupCount pat) (GroupNames pat)" "PFlags pat = flags"
  using Parse_Inr [OF assms] scanGroups_indices by (auto simp: parsed_def initial_parser_def)

lemma Parse_pattern_ok:
  assumes "Parse db src flags = Inr pat" "names_plain db" "\<not> UnicodeMode flags"
  shows "pattern_ok ue pat"
proof -
  note g = Parse_good [OF assms(1)]
  have "node_caps (Body pat) = [1 ..< GroupCount pat + 1]"
    using Parse_captures [OF assms(1,2)] good_plain [OF g(1)] assms(3) by (simp add: UnicodeMode_def)
  then have "set (node_caps (Body pat)) \<subseteq> {1 .. GroupCount pat}" by auto
  then have "node_scoped (\<lambda>i. i \<le> GroupCount pat) (GroupNames pat) (Body pat)"
    using good_scoped [OF g(1) _ g(2)] by blast
  moreover have "node_wf ue (initial_compiler (PFlags pat) (GroupNames pat)) (Body pat)"
    using good_wf [OF g(1) assms(3) _ g(2)] by (simp add: initial_compiler_def)
  ultimately show ?thesis by (simp add: pattern_ok_def)
qed

lemma good_alts_nonempty: "node_good fl g names n \<Longrightarrow> alts_nonempty n"
  by (induction n) (auto simp: list_all_iff)

lemma Parse_names_distinct:
  assumes "Parse db src flags = Inr pat" "b \<in> set (branches (Body pat))"
  shows "distinct b"
proof -
  obtain s where "dupCheckNames (Body pat) = Inr s" using Parse_Inr [OF assms(1)] by metis
  then show ?thesis
    using dupCheck_outcome(1) [OF good_alts_nonempty [OF Parse_good(1) [OF assms(1)]]] assms(2) by (simp add: outcome_def)
qed

subsection \<open>Properties\<close>

lemma ascii_names_plain: "names_plain ascii_db"
  by (auto simp: names_plain_def isIDStart_def isIDContinue_def ascii_db_def plain_def high_surrogate_def)


text \<open>
  C19: Every failure is a syntax error. Without the v flag the parser never reads past the end of the
  pattern, so the only panic it raises is the \<open>*SyntaxError\<close> that \<open>Parse\<close> recovers and returns.
\<close>

theorem parse_errors_are_syntax:
  assumes "\<not> UnicodeSets flags"
  shows "(\<exists>pat. Parse db src flags = Inr pat) \<or> (\<exists>e. Parse db src flags = Inl (Syntax e))"
proof (cases "Parse db src flags")
  case (Inl e)
  then show ?thesis using Parse_error [OF Inl] assms by (cases e) auto
qed simp

theorem parse_errors_are_syntax_witness:
  "Parse ascii_db (str ''[a'') noFlags = Inl (Syntax \<lparr>Msg = str ''unterminated character class'', Pos = 2\<rparr>) \<and>
   ((\<exists>pat. Parse ascii_db (str ''[a'') noFlags = Inr pat) \<or> (\<exists>e. Parse ascii_db (str ''[a'') noFlags = Inl (Syntax e)))"
proof
  show "Parse ascii_db (str ''[a'') noFlags = Inl (Syntax \<lparr>Msg = str ''unterminated character class'', Pos = 2\<rparr>)" by code_simp
  show "(\<exists>pat. Parse ascii_db (str ''[a'') noFlags = Inr pat) \<or> (\<exists>e. Parse ascii_db (str ''[a'') noFlags = Inl (Syntax e))"
    by (rule parse_errors_are_syntax) (simp add: noFlags_def)
qed


definition example_source :: "rune list" where
  "example_source = str ''(?<n>a(b)|[(c])(d){2,3}''"

definition example_pattern :: Pattern where
  "example_pattern = projr (Parse ascii_db example_source noFlags)"

lemma example_parses: "Parse ascii_db example_source noFlags = Inr example_pattern"
proof -
  have "isl (Parse ascii_db example_source noFlags) = False" by code_simp
  then show ?thesis unfolding example_pattern_def by simp
qed


text \<open>
  C21: Parsed patterns are well typed. Without the u and v flags every pattern the parser returns is
  well formed: captures and references are within the group count, quantifier bounds are ordered,
  classes hold no strings, and no branch declares a group name twice. This is the precondition of
  the compiler and the search.
\<close>

theorem parse_well_formed:
  assumes "Parse db src flags = Inr pat" "names_plain db" "\<not> UnicodeMode flags"
  shows "pattern_ok ue pat \<and> PFlags pat = flags \<and> (\<forall>b \<in> set (branches (Body pat)). distinct b)"
  using Parse_pattern_ok [OF assms] Parse_good(3) [OF assms(1)] Parse_names_distinct [OF assms(1)] by blast

theorem parse_well_formed_witness:
  "pattern_ok ascii_env example_pattern \<and> PFlags example_pattern = noFlags \<and>
   list_all distinct (branches (Body example_pattern))"
  using parse_well_formed [OF example_parses ascii_names_plain] by (simp add: noFlags_def UnicodeMode_def list_all_iff)

subsection \<open>Where the parser departs from the grammar\<close>

definition vflags :: Flags where
  "vflags = noFlags\<lparr>UnicodeSets := True\<rparr>"

lemma v_class_panics:
  "Parse ascii_db (str ''['') vflags = Inl IndexPanic" "Parse ascii_db (str ''[a&&'') vflags = Inl IndexPanic"
  by code_simp+

lemma v_empty_class_rejected:
  "Parse ascii_db (str ''[]'') vflags = Inl (Syntax \<lparr>Msg = str ''invalid character in character class'', Pos = 1\<rparr>)"
  by code_simp

lemma control_escape_drops_c:
  "map_sum id Body (Parse ascii_db (str (CHR 0x5C # ''c1'')) noFlags) = Inr (Concat [CharN 0x5C, CharN 0x31])"
  by code_simp

lemma v_scan_miscounts:
  "map_sum id (\<lambda>p. (GroupCount p, GroupNames p, node_caps (Body p)))
     (Parse ascii_db (str (''[[a]'' @ [CHR 0x5C] @ ''q{(}](?<n>b)'')) vflags) =
   Inr (2, [(str ''n'', [2])], [1])"
  by code_simp


end
