(* ===== verification/Utf16.thy ===== *)
theory Utf16
  imports Go_Prelude
begin

unbundle bit_operations_syntax

text \<open>
  JavaScript strings as bytes and as UTF-16 code units (\<open>src/interp/utf16.go\<close>, and \<open>ToUnits\<close> and
  \<open>FromUnits\<close> of \<open>src/jsregexp/vm.go\<close>). A string is stored as WTF-8: UTF-8 for scalar values and
  three bytes for a lone surrogate. Bytes and code units are integers in their range; a loop over
  byte offsets is a recursion on the bytes from the offset on.
\<close>

type_synonym bytes = "int list"
type_synonym units = "int list"

subsection \<open>UTF-8 of the Go standard library\<close>

definition cont_byte :: "int \<Rightarrow> bool" where
  "cont_byte b \<longleftrightarrow> 0x80 \<le> b \<and> b \<le> 0xBF"

definition decode3 :: "int \<Rightarrow> int \<Rightarrow> int \<Rightarrow> int" where
  "decode3 b0 b1 b2 = push_bit 12 (b0 AND 0x0F) OR push_bit 6 (b1 AND 0x3F) OR (b2 AND 0x3F)"

text \<open>
  \<open>utf8.DecodeRuneInString\<close>: the rune at the start of the bytes and its size; an invalid sequence
  is the replacement character with size 1. The second byte is restricted after \<open>E0\<close>, \<open>ED\<close>, \<open>F0\<close>
  and \<open>F4\<close>, so overlong forms, surrogates and values above \<open>10FFFF\<close> are invalid.
\<close>

definition second_ok :: "int \<Rightarrow> int \<Rightarrow> bool" where
  "second_ok b0 b1 \<longleftrightarrow>
     (if b0 = 0xE0 then 0xA0 else if b0 = 0xF0 then 0x90 else 0x80) \<le> b1 \<and>
     b1 \<le> (if b0 = 0xED then 0x9F else if b0 = 0xF4 then 0x8F else 0xBF)"

definition DecodeRune :: "bytes \<Rightarrow> rune \<times> nat" where
  "DecodeRune s =
     (case s of
        [] \<Rightarrow> (0xFFFD, 0)
      | b0 # t \<Rightarrow>
          if b0 < 0x80 then (b0, 1)
          else if 0xC2 \<le> b0 \<and> b0 \<le> 0xDF then
            (case t of
               b1 # _ \<Rightarrow> if cont_byte b1 then (push_bit 6 (b0 AND 0x1F) OR (b1 AND 0x3F), 2) else (0xFFFD, 1)
             | _ \<Rightarrow> (0xFFFD, 1))
          else if 0xE0 \<le> b0 \<and> b0 \<le> 0xEF then
            (case t of
               b1 # b2 # _ \<Rightarrow> if second_ok b0 b1 \<and> cont_byte b2 then (decode3 b0 b1 b2, 3) else (0xFFFD, 1)
             | _ \<Rightarrow> (0xFFFD, 1))
          else if 0xF0 \<le> b0 \<and> b0 \<le> 0xF4 then
            (case t of
               b1 # b2 # b3 # _ \<Rightarrow>
                 if second_ok b0 b1 \<and> cont_byte b2 \<and> cont_byte b3
                 then (push_bit 18 (b0 AND 0x07) OR push_bit 12 (b1 AND 0x3F) OR push_bit 6 (b2 AND 0x3F) OR (b3 AND 0x3F), 4)
                 else (0xFFFD, 1)
             | _ \<Rightarrow> (0xFFFD, 1))
          else (0xFFFD, 1))"

text \<open>The three-byte form, and \<open>utf8.AppendRune\<close>: the bytes it appends.\<close>

definition enc3 :: "rune \<Rightarrow> bytes" where
  "enc3 r = [0xE0 OR drop_bit 12 r, 0x80 OR (drop_bit 6 r AND 0x3F), 0x80 OR (r AND 0x3F)]"

definition AppendRune :: "rune \<Rightarrow> bytes" where
  "AppendRune r =
     (if 0 \<le> r \<and> r \<le> 0x7F then [r]
      else if 0 \<le> r \<and> r \<le> 0x7FF then [0xC0 OR drop_bit 6 r, 0x80 OR (r AND 0x3F)]
      else if r < 0 \<or> r > 0x10FFFF \<or> (0xD800 \<le> r \<and> r \<le> 0xDFFF) then [0xEF, 0xBF, 0xBD]
      else if r \<le> 0xFFFF then enc3 r
      else [0xF0 OR drop_bit 18 r, 0x80 OR (drop_bit 12 r AND 0x3F), 0x80 OR (drop_bit 6 r AND 0x3F), 0x80 OR (r AND 0x3F)])"

subsection \<open>Code units of a string\<close>

definition isASCIIStr :: "bytes \<Rightarrow> bool" where
  "isASCIIStr s = list_all (\<lambda>b. b < 0x80) s"

text \<open>\<open>wtf8Surrogate s i\<close>, on the bytes from offset \<open>i\<close> on.\<close>

definition wtf8Surrogate :: "bytes \<Rightarrow> int option" where
  "wtf8Surrogate s =
     (case s of
        b0 # b1 # b2 # _ \<Rightarrow>
          if b0 = 0xED \<and> b1 \<ge> 0xA0 \<and> b1 \<le> 0xBF \<and> b2 \<ge> 0x80 \<and> b2 \<le> 0xBF then Some (decode3 b0 b1 b2) else None
      | _ \<Rightarrow> None)"

definition rune_units :: "rune \<Rightarrow> units" where
  "rune_units r =
     (if r \<ge> 0x10000 then let r = r - 0x10000 in [0xD800 + drop_bit 10 r, 0xDC00 + (r AND 0x3FF)] else [r])"

lemma DecodeRune_size: "s \<noteq> [] \<Longrightarrow> 1 \<le> snd (DecodeRune s)"
  by (auto simp: DecodeRune_def split: list.splits)

lemma DecodeRune_drop: "s \<noteq> [] \<Longrightarrow> (r, sz) = DecodeRune s \<Longrightarrow> length s - sz < length s"
  using DecodeRune_size [of s] by (cases s) (auto simp: prod_eq_iff)

function unit_loop :: "bytes \<Rightarrow> units" where
  "unit_loop s =
     (if s = [] then []
      else case wtf8Surrogate s of
        Some cu \<Rightarrow> cu # unit_loop (drop 3 s)
      | None \<Rightarrow> (case DecodeRune s of (r, sz) \<Rightarrow> rune_units r @ unit_loop (drop sz s)))"
  by pat_completeness auto
termination
  by (relation "measure length") (auto dest: DecodeRune_drop)

declare unit_loop.simps [simp del]

definition codeUnits :: "bytes \<Rightarrow> units" where
  "codeUnits s = (if isASCIIStr s then s else unit_loop s)"

function ToUnits :: "bytes \<Rightarrow> units" where
  "ToUnits s =
     (case s of
        [] \<Rightarrow> []
      | b0 # t \<Rightarrow>
          if b0 = 0xED \<and> 2 < length s \<and> s ! 1 \<ge> 0xA0 \<and> s ! 1 \<le> 0xBF \<and> s ! 2 \<ge> 0x80 \<and> s ! 2 \<le> 0xBF
          then decode3 b0 (s ! 1) (s ! 2) # ToUnits (drop 3 s)
          else (case DecodeRune s of (r, sz) \<Rightarrow> rune_units r @ ToUnits (drop sz s)))"
  by pat_completeness auto
termination
  by (relation "measure length") (auto dest: DecodeRune_drop [rotated])

declare ToUnits.simps [simp del]

function unit_count :: "bytes \<Rightarrow> nat" where
  "unit_count s =
     (if s = [] then 0
      else case wtf8Surrogate s of
        Some _ \<Rightarrow> 1 + unit_count (drop 3 s)
      | None \<Rightarrow> (case DecodeRune s of (r, sz) \<Rightarrow> (if r \<ge> 0x10000 then 2 else 1) + unit_count (drop sz s)))"
  by pat_completeness auto
termination
  by (relation "measure length") (auto dest: DecodeRune_drop)

declare unit_count.simps [simp del]

definition codeUnitLen :: "bytes \<Rightarrow> nat" where
  "codeUnitLen s = (if isASCIIStr s then length s else unit_count s)"

function len_ascii_loop :: "bytes \<Rightarrow> nat \<Rightarrow> bool \<Rightarrow> nat \<times> bool" where
  "len_ascii_loop s n ascii =
     (case s of
        [] \<Rightarrow> (n, ascii)
      | c # t \<Rightarrow>
          if c < 0x80 then len_ascii_loop t (n + 1) ascii
          else case wtf8Surrogate s of
            Some _ \<Rightarrow> len_ascii_loop (drop 3 s) (n + 1) False
          | None \<Rightarrow>
              (case DecodeRune s of (r, sz) \<Rightarrow>
                 len_ascii_loop (drop sz s) (if r \<ge> 0x10000 then n + 2 else n + 1) False))"
  by pat_completeness auto
termination
  by (relation "measure (\<lambda>(s, n, ascii). length s)") (auto dest: DecodeRune_drop [rotated])

declare len_ascii_loop.simps [simp del]

definition codeUnitLenASCII :: "bytes \<Rightarrow> nat \<times> bool" where
  "codeUnitLenASCII s = len_ascii_loop s 0 True"

definition appendCodeUnit :: "int \<Rightarrow> bytes" where
  "appendCodeUnit cu = (if cu \<ge> 0xD800 \<and> cu \<le> 0xDFFF then enc3 cu else AppendRune cu)"

definition is_high :: "int \<Rightarrow> bool" where
  "is_high cu \<longleftrightarrow> cu \<ge> 0xD800 \<and> cu \<le> 0xDBFF"

definition is_low :: "int \<Rightarrow> bool" where
  "is_low cu \<longleftrightarrow> cu \<ge> 0xDC00 \<and> cu \<le> 0xDFFF"

definition pair_value :: "int \<Rightarrow> int \<Rightarrow> rune" where
  "pair_value hi lo = 0x10000 + push_bit 10 (hi - 0xD800) + (lo - 0xDC00)"

fun unitsToString :: "units \<Rightarrow> bytes" where
  "unitsToString [] = []"
| "unitsToString [cu] = appendCodeUnit cu"
| "unitsToString (cu # lo # us) =
     (if is_high cu \<and> is_low lo then AppendRune (pair_value cu lo) @ unitsToString us
      else appendCodeUnit cu @ unitsToString (lo # us))"

fun FromUnits :: "units \<Rightarrow> bytes" where
  "FromUnits [] = []"
| "FromUnits (cu # us) =
     (case us of
        lo # us' \<Rightarrow>
          if is_high cu \<and> is_low lo then AppendRune (pair_value cu lo) @ FromUnits us'
          else (if cu \<ge> 0xD800 \<and> cu \<le> 0xDFFF then enc3 cu else AppendRune cu) @ FromUnits us
      | [] \<Rightarrow> (if cu \<ge> 0xD800 \<and> cu \<le> 0xDFFF then enc3 cu else AppendRune cu))"

fun coalescible :: "bytes \<Rightarrow> bool" where
  "coalescible [] = False"
| "coalescible (b0 # t) =
     (case t of
        b1 # b2 # b3 # b4 # b5 # _ \<Rightarrow>
          (b0 = 0xED \<and> b1 \<ge> 0xA0 \<and> b1 \<le> 0xAF \<and> b3 = 0xED \<and> b4 \<ge> 0xB0 \<and> b4 \<le> 0xBF) \<or> coalescible t
      | _ \<Rightarrow> False)"

definition canonicalizeWTF8 :: "bytes \<Rightarrow> bytes" where
  "canonicalizeWTF8 s = (if coalescible s then unitsToString (codeUnits s) else s)"

subsection \<open>Bits as arithmetic\<close>

lemma or_low_bits:
  fixes a x :: int
  assumes "0 \<le> x" "x < 2 ^ n"
  shows "push_bit n a OR x = push_bit n a + x"
proof -
  have "take_bit n x = x" using assms by (simp add: take_bit_int_eq_self)
  then have "\<not> bit (push_bit n a) k \<or> \<not> bit x k" for k
    by (metis bit_push_bit_iff bit_take_bit_iff leD)
  then show ?thesis by (simp add: disjunctive_add)
qed

lemma or_prefixes:
  "0 \<le> x \<Longrightarrow> x < 64 \<Longrightarrow> 0x80 OR x = 0x80 + (x :: int)"
  "0 \<le> x \<Longrightarrow> x < 32 \<Longrightarrow> 0xC0 OR x = 0xC0 + (x :: int)"
  "0 \<le> x \<Longrightarrow> x < 16 \<Longrightarrow> 0xE0 OR x = 0xE0 + (x :: int)"
  "0 \<le> x \<Longrightarrow> x < 8 \<Longrightarrow> 0xF0 OR x = 0xF0 + (x :: int)"
  using or_low_bits [of x 6 2] or_low_bits [of x 5 6] or_low_bits [of x 4 14] or_low_bits [of x 3 30]
  by (simp_all add: push_bit_eq_mult)

lemma and_masks:
  "x AND 0x3F = (x :: int) mod 64" "x AND 0x1F = x mod 32" "x AND 0x0F = x mod 16" "x AND 0x07 = x mod 8" "x AND 0x3FF = x mod 1024"
  using take_bit_eq_mask [of 6 x] take_bit_eq_mask [of 5 x] take_bit_eq_mask [of 4 x] take_bit_eq_mask [of 3 x] take_bit_eq_mask [of 10 x]
  by (simp_all add: take_bit_eq_mod mask_eq_exp_minus_1)

lemma push_drop:
  "push_bit 6 x = (x :: int) * 64" "push_bit 12 x = x * 4096" "push_bit 18 x = x * 262144" "push_bit 10 x = x * 1024"
  "drop_bit 6 x = x div 64" "drop_bit 12 x = x div 4096" "drop_bit 18 x = x div 262144" "drop_bit 10 x = x div 1024"
  by (simp_all add: push_bit_eq_mult drop_bit_eq_div)

lemma or_shifted:
  "0 \<le> y \<Longrightarrow> y < 64 \<Longrightarrow> x * 64 OR y = x * 64 + (y :: int)"
  "0 \<le> y \<Longrightarrow> y < 4096 \<Longrightarrow> x * 4096 OR y = x * 4096 + y"
  "0 \<le> y \<Longrightarrow> y < 262144 \<Longrightarrow> x * 262144 OR y = x * 262144 + y"
  using or_low_bits [of y 6 x] or_low_bits [of y 12 x] or_low_bits [of y 18 x] by (simp_all add: push_drop)

lemma decode3_arith: "decode3 b0 b1 b2 = (b0 mod 16) * 4096 + (b1 mod 64) * 64 + b2 mod 64"
proof -
  have "(b1 mod 64) * 64 OR b2 mod 64 = (b1 mod 64) * 64 + b2 mod 64" by (rule or_shifted(1)) simp_all
  moreover have "0 \<le> (b1 mod 64) * 64 + b2 mod 64" "(b1 mod 64) * 64 + b2 mod 64 < 4096"
    using pos_mod_bound [of 64 b1] pos_mod_bound [of 64 b2] by simp_all
  ultimately show ?thesis using or_shifted(2) [of "(b1 mod 64) * 64 + b2 mod 64" "b0 mod 16"]
    by (simp add: decode3_def and_masks push_drop)
qed

text \<open>The base-64 digits of a code point.\<close>

lemma base64_digits:
  fixes r :: int
  shows "r = 64 * (r div 64) + r mod 64" "0 \<le> r mod 64" "r mod 64 < 64"
    and "r = 4096 * (r div 4096) + 64 * (r div 64 mod 64) + r mod 64" "0 \<le> r div 64 mod 64" "r div 64 mod 64 < 64"
    and "r = 262144 * (r div 262144) + 4096 * (r div 4096 mod 64) + 64 * (r div 64 mod 64) + r mod 64"
      "0 \<le> r div 4096 mod 64" "r div 4096 mod 64 < 64"
proof -
  have 1: "x = 64 * (x div 64) + x mod 64" for x :: int by simp
  have 2: "r div 4096 = r div 64 div 64" "r div 262144 = r div 4096 div 64"
    using zdiv_zmult2_eq [of 64 r 64] zdiv_zmult2_eq [of 64 r 4096] by simp_all
  show "r = 64 * (r div 64) + r mod 64" by (rule 1)
  show three: "r = 4096 * (r div 4096) + 64 * (r div 64 mod 64) + r mod 64"
    using 1 [of r] 1 [of "r div 64"] 2(1) by linarith
  show "r = 262144 * (r div 262144) + 4096 * (r div 4096 mod 64) + 64 * (r div 64 mod 64) + r mod 64"
    using three 1 [of "r div 4096"] 2(2) by linarith
qed simp_all

lemma add_multiple_mod: "0 \<le> q \<Longrightarrow> q < m \<Longrightarrow> (k * m + q) mod m = (q :: int)"
  by (simp add: mod_pos_pos_trivial)

lemma prefix_mods:
  "0 \<le> q \<Longrightarrow> q < 64 \<Longrightarrow> (0x80 + q) mod 64 = (q :: int)"
  "0 \<le> q \<Longrightarrow> q < 32 \<Longrightarrow> (0xC0 + q) mod 32 = q"
  "0 \<le> q \<Longrightarrow> q < 16 \<Longrightarrow> (0xE0 + q) mod 16 = q"
  "0 \<le> q \<Longrightarrow> q < 8 \<Longrightarrow> (0xF0 + q) mod 8 = q"
  using add_multiple_mod [of q 64 2] add_multiple_mod [of q 32 6] add_multiple_mod [of q 16 14] add_multiple_mod [of q 8 30] by simp_all

lemma digit_bounds:
  fixes r :: int
  assumes "0 \<le> r"
  shows "0 \<le> r div 64" "0 \<le> r div 4096" "0 \<le> r div 262144"
    and "r \<le> 0x7FF \<Longrightarrow> r div 64 < 32" "r \<le> 0xFFFF \<Longrightarrow> r div 4096 < 16" "r \<le> 0x10FFFF \<Longrightarrow> r div 262144 < 8"
  using assms base64_digits [of r] by linarith+

lemma enc3_arith:
  assumes "0 \<le> r" "r \<le> 0xFFFF"
  shows "enc3 r = [0xE0 + r div 4096, 0x80 + r div 64 mod 64, 0x80 + r mod 64]"
  using or_prefixes(3) [OF digit_bounds(2,5) [OF assms(1)]] or_prefixes(1) [of "r mod 64"] or_prefixes(1) [of "r div 64 mod 64"] assms
  by (simp add: enc3_def push_drop and_masks)

lemma decode3_enc3:
  assumes "0 \<le> r" "r \<le> 0xFFFF"
  shows "decode3 (0xE0 + r div 4096) (0x80 + r div 64 mod 64) (0x80 + r mod 64) = r"
proof -
  have "(0xE0 + r div 4096) mod 16 = r div 4096" "(0x80 + r mod 64) mod 64 = r mod 64" "(0x80 + r div 64 mod 64) mod 64 = r div 64 mod 64"
    using prefix_mods(3) [OF digit_bounds(2,5) [OF assms(1)]] assms(2) by (simp_all only: prefix_mods(1) base64_digits(2,3,5,6))
  then show ?thesis unfolding decode3_arith using base64_digits(4) [of r] by linarith
qed

lemma AppendRune2_arith:
  assumes "0x80 \<le> r" "r \<le> 0x7FF"
  shows "AppendRune r = [0xC0 + r div 64, 0x80 + r mod 64]"
  using or_prefixes(2) [OF digit_bounds(1,4)] or_prefixes(1) [of "r mod 64"] assms by (simp add: AppendRune_def push_drop and_masks)

lemma AppendRune4_arith:
  assumes "0x10000 \<le> r" "r \<le> 0x10FFFF"
  shows "AppendRune r = [0xF0 + r div 262144, 0x80 + r div 4096 mod 64, 0x80 + r div 64 mod 64, 0x80 + r mod 64]"
proof -
  have "0xF0 OR r div 262144 = 0xF0 + r div 262144" "0x80 OR (r div 4096 mod 64) = 0x80 + r div 4096 mod 64"
      "0x80 OR (r div 64 mod 64) = 0x80 + r div 64 mod 64" "0x80 OR (r mod 64) = 0x80 + r mod 64"
    using assms by (intro or_prefixes digit_bounds base64_digits; simp)+
  moreover have "AppendRune r = [0xF0 OR drop_bit 18 r, 0x80 OR (drop_bit 12 r AND 0x3F), 0x80 OR (drop_bit 6 r AND 0x3F), 0x80 OR (r AND 0x3F)]"
    using assms by (simp add: AppendRune_def)
  ultimately show ?thesis by (simp only: push_drop and_masks)
qed

lemma decode2_enc:
  assumes "0x80 \<le> r" "r \<le> 0x7FF"
  shows "push_bit 6 ((0xC0 + r div 64) AND 0x1F) OR ((0x80 + r mod 64) AND 0x3F) = (r :: int)"
proof -
  have "(0xC0 + r div 64) mod 32 = r div 64" "(0x80 + r mod 64) mod 64 = r mod 64"
    using prefix_mods(2) [OF digit_bounds(1,4)] prefix_mods(1) [of "r mod 64"] assms by simp_all
  moreover have "r div 64 * 64 OR r mod 64 = r" using or_shifted(1) [of "r mod 64" "r div 64"] by simp
  ultimately show ?thesis by (simp add: and_masks push_drop)
qed

lemma decode4_enc:
  assumes "0x10000 \<le> r" "r \<le> 0x10FFFF"
  shows "push_bit 18 ((0xF0 + r div 262144) AND 0x07) OR push_bit 12 ((0x80 + r div 4096 mod 64) AND 0x3F) OR
     push_bit 6 ((0x80 + r div 64 mod 64) AND 0x3F) OR ((0x80 + r mod 64) AND 0x3F) = (r :: int)"
proof -
  let ?a = "r div 4096 mod 64" and ?b = "r div 64 mod 64" and ?c = "r mod 64"
  note d = base64_digits [of r]
  have m: "(0xF0 + r div 262144) mod 8 = r div 262144" "(0x80 + ?a) mod 64 = ?a" "(0x80 + ?b) mod 64 = ?b" "(0x80 + ?c) mod 64 = ?c"
    by (intro prefix_mods digit_bounds d; use assms in simp)+
  have "?b * 64 OR ?c = ?b * 64 + ?c" by (intro or_shifted(1)) simp_all
  moreover have "?a * 4096 OR (?b * 64 + ?c) = ?a * 4096 + (?b * 64 + ?c)" using d by (intro or_shifted(2)) linarith+
  moreover have "r div 262144 * 262144 OR (?a * 4096 + (?b * 64 + ?c)) = r div 262144 * 262144 + (?a * 4096 + (?b * 64 + ?c))"
    using d by (intro or_shifted(3)) linarith+
  moreover have "r div 262144 * 262144 + (?a * 4096 + (?b * 64 + ?c)) = r" using d(7) by linarith
  ultimately show ?thesis by (simp only: m and_masks push_drop or.assoc)
qed

subsection \<open>Reading back what was written\<close>

definition code_point :: "rune \<Rightarrow> bool" where
  "code_point r \<longleftrightarrow> 0 \<le> r \<and> r \<le> 0x10FFFF"

lemma unit_loop_1: "b0 < 0x80 \<Longrightarrow> unit_loop (b0 # t) = rune_units b0 @ unit_loop t"
  by (subst unit_loop.simps) (auto simp: wtf8Surrogate_def DecodeRune_def split: list.splits)

lemma unit_loop_2:
  "0xC2 \<le> b0 \<Longrightarrow> b0 \<le> 0xDF \<Longrightarrow> cont_byte b1 \<Longrightarrow> push_bit 6 (b0 AND 0x1F) OR (b1 AND 0x3F) = r \<Longrightarrow>
   unit_loop (b0 # b1 # t) = rune_units r @ unit_loop t"
  by (subst unit_loop.simps) (auto simp: wtf8Surrogate_def DecodeRune_def split: list.splits)

lemma unit_loop_3:
  "0xE0 \<le> b0 \<Longrightarrow> b0 \<le> 0xEF \<Longrightarrow> second_ok b0 b1 \<Longrightarrow> cont_byte b2 \<Longrightarrow> decode3 b0 b1 b2 = r \<Longrightarrow>
   unit_loop (b0 # b1 # b2 # t) = rune_units r @ unit_loop t"
  by (subst unit_loop.simps) (auto simp: wtf8Surrogate_def DecodeRune_def second_ok_def)

lemma unit_loop_4:
  "0xF0 \<le> b0 \<Longrightarrow> b0 \<le> 0xF4 \<Longrightarrow> second_ok b0 b1 \<Longrightarrow> cont_byte b2 \<Longrightarrow> cont_byte b3 \<Longrightarrow>
   push_bit 18 (b0 AND 0x07) OR push_bit 12 (b1 AND 0x3F) OR push_bit 6 (b2 AND 0x3F) OR (b3 AND 0x3F) = r \<Longrightarrow>
   unit_loop (b0 # b1 # b2 # b3 # t) = rune_units r @ unit_loop t"
  by (subst unit_loop.simps) (auto simp: wtf8Surrogate_def DecodeRune_def)

lemma unit_loop_surrogate:
  "b0 = 0xED \<Longrightarrow> 0xA0 \<le> b1 \<Longrightarrow> b1 \<le> 0xBF \<Longrightarrow> cont_byte b2 \<Longrightarrow> decode3 b0 b1 b2 = r \<Longrightarrow>
   unit_loop (b0 # b1 # b2 # t) = r # unit_loop t"
  by (subst unit_loop.simps) (auto simp: wtf8Surrogate_def cont_byte_def)

lemma cont_byte_digit: "0 \<le> x \<Longrightarrow> x < 64 \<Longrightarrow> cont_byte (0x80 + x)"
  by (simp add: cont_byte_def)

lemma append_Cons4: "[a, b, c, d] @ t = a # b # c # d # t" "[a, b, c] @ t = a # b # c # t" "[a, b] @ t = a # b # t" "[a] @ t = a # t"
  by simp_all

lemma unit_loop_enc:
  assumes "code_point r"
  shows "unit_loop (appendCodeUnit r @ t) = rune_units r @ unit_loop t"
proof -
  note d = base64_digits [of r]
  consider "r \<le> 0x7F" | "0x80 \<le> r" "r \<le> 0x7FF" | "0x800 \<le> r" "r \<le> 0xFFFF" "\<not> (0xD800 \<le> r \<and> r \<le> 0xDFFF)"
    | "0xD800 \<le> r" "r \<le> 0xDFFF" | "0x10000 \<le> r" "r \<le> 0x10FFFF" using assms unfolding code_point_def by linarith
  then show ?thesis
  proof cases
    case 1
    then have a: "appendCodeUnit r = [r]" using assms by (simp add: appendCodeUnit_def AppendRune_def code_point_def)
    show ?thesis unfolding a append_Cons4 using 1 by (intro unit_loop_1) simp
  next
    case 2
    then have a: "appendCodeUnit r = [0xC0 + r div 64, 0x80 + r mod 64]"
      by (simp add: appendCodeUnit_def AppendRune2_arith)
    have q: "2 \<le> r div 64" using zdiv_mono1 [OF 2(1), of 64] by simp
    show ?thesis unfolding a append_Cons4
      by (intro unit_loop_2 decode2_enc cont_byte_digit d) (use q 2 digit_bounds(4) [of r] in simp_all)
  next
    case 3
    then have a: "appendCodeUnit r = [0xE0 + r div 4096, 0x80 + r div 64 mod 64, 0x80 + r mod 64]"
      using enc3_arith [of r] by (auto simp: appendCodeUnit_def AppendRune_def)
    have z: "r div 4096 = 0 \<Longrightarrow> 32 \<le> r div 64 mod 64" using 3(1) d(2-6) by linarith
    have "r div 64 mod 64 \<le> 31" if e: "r div 4096 = 13"
    proof -
      have "\<not> 0xDFFF < r" using e d(2-6) by linarith
      then have "r < 0xD800" using 3(3) by linarith
      then show ?thesis using e d(2-6) by linarith
    qed
    with z have ok: "second_ok (0xE0 + r div 4096) (0x80 + r div 64 mod 64)" using d(5,6) digit_bounds(5) [of r] 3 unfolding second_ok_def by auto
    show ?thesis unfolding a append_Cons4
      by (intro unit_loop_3 decode3_enc3 ok cont_byte_digit d) (use 3 digit_bounds(2,5) [of r] in simp_all)
  next
    case 4
    then have a: "appendCodeUnit r = [0xE0 + r div 4096, 0x80 + r div 64 mod 64, 0x80 + r mod 64]"
      using enc3_arith [of r] by (simp add: appendCodeUnit_def)
    have u: "rune_units r = [r]" using 4 by (simp add: rune_units_def)
    have q: "r div 4096 = 13" using 4 d(2-6) by linarith
    have m: "32 \<le> r div 64 mod 64" using 4(1) q d(3,4) by linarith
    show ?thesis unfolding a u append_Cons4
      by (intro unit_loop_surrogate decode3_enc3 cont_byte_digit d) (use q m d(6) 4 in simp_all)
  next
    case 5
    then have a: "appendCodeUnit r = [0xF0 + r div 262144, 0x80 + r div 4096 mod 64, 0x80 + r div 64 mod 64, 0x80 + r mod 64]"
      using AppendRune4_arith by (simp add: appendCodeUnit_def)
    have "r div 262144 = 0 \<Longrightarrow> 16 \<le> r div 4096 mod 64" "r div 262144 = 4 \<Longrightarrow> r div 4096 mod 64 \<le> 15" using 5 d(2,3,5-9) by linarith+
    then have ok: "second_ok (0xF0 + r div 262144) (0x80 + r div 4096 mod 64)" using d(8,9) digit_bounds(3,6) [of r] 5 unfolding second_ok_def by auto
    have q: "0 \<le> r div 262144" "r div 262144 \<le> 4" using zdiv_mono1 [OF 5(2), of 262144] digit_bounds(3) [of r] 5(1) by simp_all
    show ?thesis unfolding a append_Cons4 using q
      by (intro unit_loop_4 decode4_enc ok cont_byte_digit d 5) simp_all
  qed
qed

end
