(* ===== verification/Utf16_Facts.thy ===== *)
theory Utf16_Facts
  imports Utf16
begin

text \<open>
  Strings as code units: reading back what was written, the length functions, and the canonical
  form that makes byte equality agree with code-unit equality.
\<close>

subsection \<open>The two decoders and the two encoders\<close>

lemma unit_loop_ascii: "isASCIIStr s \<Longrightarrow> unit_loop s = s"
proof (induction s)
  case Nil
  then show ?case by (subst unit_loop.simps) simp
next
  case (Cons b s)
  then show ?case using unit_loop_1 [of b s] by (simp add: isASCIIStr_def rune_units_def)
qed

lemma codeUnits_unit_loop: "codeUnits s = unit_loop s"
  by (simp add: codeUnits_def unit_loop_ascii)

lemma wtf8Surrogate_nth:
  "wtf8Surrogate (b0 # t) = (if b0 = 0xED \<and> 2 < length (b0 # t) \<and> (b0 # t) ! 1 \<ge> 0xA0 \<and> (b0 # t) ! 1 \<le> 0xBF \<and>
     (b0 # t) ! 2 \<ge> 0x80 \<and> (b0 # t) ! 2 \<le> 0xBF then Some (decode3 b0 ((b0 # t) ! 1) ((b0 # t) ! 2)) else None)"
  by (auto simp: wtf8Surrogate_def split: list.splits)

lemma ToUnits_unit_loop: "ToUnits s = unit_loop s"
proof (induction s rule: unit_loop.induct)
  case (1 s)
  show ?case
  proof (cases s)
    case (Cons b0 t)
    then show ?thesis using 1 wtf8Surrogate_nth [of b0 t]
      by (subst ToUnits.simps, subst unit_loop.simps) (auto split: prod.splits)
  qed (simp add: ToUnits.simps unit_loop.simps)
qed

lemma FromUnits_unitsToString: "FromUnits us = unitsToString us"
  by (induction us rule: unitsToString.induct) (auto simp: appendCodeUnit_def)

definition units16 :: "units \<Rightarrow> bool" where
  "units16 us \<longleftrightarrow> list_all (\<lambda>u. 0 \<le> u \<and> u \<le> 0xFFFF) us"

lemma pair_value_bounds: "is_high hi \<Longrightarrow> is_low lo \<Longrightarrow> 0x10000 \<le> pair_value hi lo \<and> pair_value hi lo \<le> 0x10FFFF"
  by (auto simp: is_high_def is_low_def pair_value_def push_drop)

lemma pair_value_units: 
  assumes "is_high hi" "is_low lo"
  shows "rune_units (pair_value hi lo) = [hi, lo]"
proof -
  have d: "pair_value hi lo - 0x10000 = (hi - 0xD800) * 1024 + (lo - 0xDC00)" by (simp add: pair_value_def push_drop)
  have "0 \<le> lo - 0xDC00" "lo - 0xDC00 < 1024" using assms(2) by (auto simp: is_low_def)
  then have "((hi - 0xD800) * 1024 + (lo - 0xDC00)) div 1024 = hi - 0xD800" "((hi - 0xD800) * 1024 + (lo - 0xDC00)) mod 1024 = lo - 0xDC00"
    using div_mult_self3 [of 1024 "hi - 0xD800" "lo - 0xDC00"] add_multiple_mod [of "lo - 0xDC00" 1024 "hi - 0xD800"]
      div_pos_pos_trivial [of "lo - 0xDC00" 1024] by simp_all
  then show ?thesis using pair_value_bounds [OF assms] by (simp add: rune_units_def Let_def d push_drop and_masks)
qed

lemma append_astral: "0x10000 \<le> r \<Longrightarrow> AppendRune r = appendCodeUnit r"
  by (simp add: appendCodeUnit_def)

lemma unit_loop_unitsToString: "units16 us \<Longrightarrow> unit_loop (unitsToString us) = us"
proof (induction us rule: unitsToString.induct)
  case 1
  then show ?case by (subst unit_loop.simps) simp
next
  case (2 cu)
  then show ?case using unit_loop_enc [of cu "[]"]
    by (simp add: units16_def code_point_def rune_units_def unit_loop.simps [of "[]"])
next
  case (3 cu lo us)
  show ?case
  proof (cases "is_high cu \<and> is_low lo")
    case True
    then have b: "0x10000 \<le> pair_value cu lo" "code_point (pair_value cu lo)"
      using pair_value_bounds [of cu lo] by (auto simp: code_point_def)
    show ?thesis using True 3 unit_loop_enc [OF b(2)] pair_value_units [of cu lo] append_astral [OF b(1)]
      by (simp add: units16_def)
  next
    case False
    have "code_point cu" "rune_units cu = [cu]" using 3(3) by (auto simp: units16_def code_point_def rune_units_def)
    then show ?thesis using False 3 unit_loop_enc [of cu] by (auto simp: units16_def)
  qed
qed

subsection \<open>Lengths\<close>

lemma unit_count_length: "unit_count s = length (unit_loop s)"
proof (induction s rule: unit_loop.induct)
  case (1 s)
  then show ?case
    by (subst unit_count.simps, subst unit_loop.simps) (auto simp: rune_units_def Let_def split: option.splits prod.splits)
qed

lemma len_ascii_loop_eq: "len_ascii_loop s n a = (n + length (unit_loop s), a \<and> isASCIIStr s)"
proof (induction s n a rule: len_ascii_loop.induct)
  case (1 s n a)
  show ?case
  proof (cases s)
    case (Cons c t)
    show ?thesis
    proof (cases "c < 0x80")
      case True
      then show ?thesis using 1(1) [OF Cons True] Cons unit_loop_1 [OF True, of t]
        by (subst len_ascii_loop.simps) (simp add: isASCIIStr_def rune_units_def)
    next
      case False
      then have na: "\<not> isASCIIStr s" using Cons by (simp add: isASCIIStr_def)
      show ?thesis
      proof (cases "wtf8Surrogate s")
        case None
        obtain r sz where d: "DecodeRune s = (r, sz)" by fastforce
        have "len_ascii_loop (drop sz s) (if r \<ge> 0x10000 then n + 2 else n + 1) False =
            ((if r \<ge> 0x10000 then n + 2 else n + 1) + length (unit_loop (drop sz s)), False \<and> isASCIIStr (drop sz s))"
          using 1(2) Cons False None d by simp
        then show ?thesis using Cons False None d na
          by (simp add: len_ascii_loop.simps [of "c # t"] unit_loop.simps [of "c # t"] rune_units_def Let_def)
      next
        case (Some cu)
        then have "len_ascii_loop (drop 3 s) (n + 1) False = (n + 1 + length (unit_loop (drop 3 s)), False \<and> isASCIIStr (drop 3 s))"
          using 1(3) Cons False by simp
        then show ?thesis using Some Cons False na by (simp add: len_ascii_loop.simps [of "c # t"] unit_loop.simps [of "c # t"])
      qed
    qed
  qed (simp add: len_ascii_loop.simps unit_loop.simps isASCIIStr_def)
qed

lemma codeUnitLenASCII_eq: "codeUnitLenASCII s = (length (codeUnits s), isASCIIStr s)"
  by (simp add: codeUnitLenASCII_def len_ascii_loop_eq codeUnits_unit_loop)

lemma codeUnitLen_eq: "codeUnitLen s = length (codeUnits s)"
  by (simp add: codeUnitLen_def codeUnits_def unit_count_length)

subsection \<open>Well-formed strings and the canonical form\<close>

text \<open>
  A WTF-8 string in the wide sense: any sequence of code points, surrogates included, each in its
  own encoding. Concatenating two such strings gives one, and can leave a surrogate pair in two
  three-byte sequences.
\<close>

definition wtf8_of :: "rune list \<Rightarrow> bytes" where
  "wtf8_of cps = concat (map appendCodeUnit cps)"

definition wtf8 :: "bytes \<Rightarrow> bool" where
  "wtf8 s \<longleftrightarrow> (\<exists>cps. list_all code_point cps \<and> s = wtf8_of cps)"

lemma wtf8_wtf8_of: "list_all code_point cps \<Longrightarrow> wtf8 (wtf8_of cps)"
  unfolding wtf8_def by blast

lemma wtf8_append [intro]: "wtf8 s \<Longrightarrow> wtf8 t \<Longrightarrow> wtf8 (s @ t)"
  unfolding wtf8_def wtf8_of_def
  by (metis concat_append list_all_append map_append)

lemma wtf8_Nil [simp]: "wtf8 []"
  unfolding wtf8_def wtf8_of_def by (rule exI [of _ "[]"]) simp

lemma wtf8_ascii: "isASCIIStr s \<Longrightarrow> list_all (\<lambda>b. 0 \<le> b) s \<Longrightarrow> wtf8 s"
proof (induction s)
  case (Cons b s)
  then have "wtf8_of [b] = [b]" "code_point b"
    by (auto simp: isASCIIStr_def wtf8_of_def appendCodeUnit_def AppendRune_def code_point_def)
  then have "wtf8 [b]" unfolding wtf8_def by (intro exI [of _ "[b]"]) simp
  then show ?case using Cons wtf8_append [of "[b]" s] by (simp add: isASCIIStr_def)
qed simp

lemma rune_units16: "code_point r \<Longrightarrow> units16 (rune_units r)"
proof -
  assume r: "code_point r"
  have "0 \<le> (r - 0x10000) div 1024 \<and> (r - 0x10000) div 1024 < 1024" if "0x10000 \<le> r"
    using that r zdiv_mono1 [of "r - 0x10000" "0xFFFFF" 1024] by (simp add: code_point_def pos_imp_zdiv_nonneg_iff)
  moreover have "0 \<le> (r - 0x10000) mod 1024 \<and> (r - 0x10000) mod 1024 < 1024" by simp
  ultimately show ?thesis using r
    by (auto simp: rune_units_def units16_def Let_def push_drop and_masks code_point_def)
qed

lemma unit_loop_wtf8_of: "list_all code_point cps \<Longrightarrow> unit_loop (wtf8_of cps @ t) = concat (map rune_units cps) @ unit_loop t"
  by (induction cps) (auto simp: wtf8_of_def unit_loop_enc)

lemma units16_append [simp]: "units16 (us @ vs) \<longleftrightarrow> units16 us \<and> units16 vs"
  by (simp add: units16_def)

lemma units16_concat: "list_all code_point cps \<Longrightarrow> units16 (concat (map rune_units cps))"
  by (induction cps) (auto simp: rune_units16, simp add: units16_def)

lemma unit_loop_Nil [simp]: "unit_loop [] = []"
  by (simp add: unit_loop.simps)

lemma codeUnits_wtf8_of: "list_all code_point cps \<Longrightarrow> codeUnits (wtf8_of cps) = concat (map rune_units cps)"
  using unit_loop_wtf8_of [of cps "[]"] by (simp add: codeUnits_unit_loop)

lemma codeUnits_units16: "wtf8 s \<Longrightarrow> units16 (codeUnits s)"
  by (auto simp: wtf8_def codeUnits_wtf8_of units16_concat)

lemma codeUnits_append: "wtf8 s \<Longrightarrow> codeUnits (s @ t) = codeUnits s @ codeUnits t"
  by (auto simp: wtf8_def codeUnits_unit_loop unit_loop_wtf8_of codeUnits_wtf8_of [unfolded codeUnits_unit_loop])

lemma unit_loop_wtf8: "wtf8 s \<Longrightarrow> unit_loop s = codeUnits s"
  by (simp add: codeUnits_unit_loop)

lemma codeUnits_unitsToString: "units16 us \<Longrightarrow> codeUnits (unitsToString us) = us"
  by (simp add: codeUnits_unit_loop unit_loop_unitsToString)

lemma unitsToString_wtf8: "units16 us \<Longrightarrow> wtf8 (unitsToString us)"
proof (induction us rule: unitsToString.induct)
  case (2 cu)
  then show ?case unfolding wtf8_def by (intro exI [of _ "[cu]"]) (simp add: wtf8_of_def units16_def code_point_def)
next
  case (3 cu lo us)
  show ?case
  proof (cases "is_high cu \<and> is_low lo")
    case True
    then have "wtf8 (AppendRune (pair_value cu lo))" unfolding wtf8_def
      using pair_value_bounds [of cu lo] append_astral [of "pair_value cu lo"]
      by (intro exI [of _ "[pair_value cu lo]"]) (simp add: wtf8_of_def code_point_def)
    then show ?thesis using True 3 by (auto simp: units16_def)
  next
    case False
    have "wtf8 (appendCodeUnit cu)" unfolding wtf8_def using 3(3)
      by (intro exI [of _ "[cu]"]) (simp add: wtf8_of_def units16_def code_point_def)
    then show ?thesis using False 3 by (auto simp: units16_def)
  qed
qed simp

text \<open>A surrogate pair spelt as two code points is what the scan of \<open>canonicalizeWTF8\<close> looks for.\<close>

lemma coalescible_length: "coalescible s \<Longrightarrow> 6 \<le> length s"
  by (induction s) (auto split: list.splits)

lemma coalescible_Cons: "coalescible t \<Longrightarrow> coalescible (b # t)"
  using coalescible_length [of t] by (auto simp: numeral_eq_Suc Suc_le_length_iff simp del: coalescible.simps(2) intro: coalescible.simps(2) [THEN iffD2])

lemma coalescible_append: "coalescible t \<Longrightarrow> coalescible (p @ t)"
  by (induction p) (auto simp del: coalescible.simps intro: coalescible_Cons)

lemma coalescible_bytes:
  "0xA0 \<le> b1 \<Longrightarrow> b1 \<le> 0xAF \<Longrightarrow> 0xB0 \<le> b4 \<Longrightarrow> b4 \<le> 0xBF \<Longrightarrow> coalescible ([0xED, b1, b2] @ [0xED, b4, b5] @ t)"
  by simp

lemma pair_coalescible:
  assumes "is_high hi" "is_low lo"
  shows "coalescible (appendCodeUnit hi @ appendCodeUnit lo @ t)"
proof -
  have b: "0xD800 \<le> hi" "hi \<le> 0xDBFF" "0xDC00 \<le> lo" "lo \<le> 0xDFFF" using assms by (auto simp: is_high_def is_low_def)
  have h: "hi div 4096 = 13" using b(1,2) base64_digits(2-6) [of hi] by linarith
  have l: "lo div 4096 = 13" using b(3,4) base64_digits(2-6) [of lo] by linarith
  have "32 \<le> hi div 64 mod 64" "hi div 64 mod 64 \<le> 47" using b(1,2) h base64_digits(2-4) [of hi] by linarith+
  then have bh: "0xA0 \<le> 0x80 + hi div 64 mod 64" "0x80 + hi div 64 mod 64 \<le> 0xAF" by linarith+
  have "48 \<le> lo div 64 mod 64" using b(3) l base64_digits(2-4) [of lo] by linarith
  then have bl: "0xB0 \<le> 0x80 + lo div 64 mod 64" "0x80 + lo div 64 mod 64 \<le> 0xBF" using base64_digits(6) [of lo] by linarith+
  have "appendCodeUnit hi = [0xED, 0x80 + hi div 64 mod 64, 0x80 + hi mod 64]"
    using b h by (simp only: appendCodeUnit_def enc3_arith) simp
  moreover have "appendCodeUnit lo = [0xED, 0x80 + lo div 64 mod 64, 0x80 + lo mod 64]"
    using b l by (simp only: appendCodeUnit_def enc3_arith) simp
  ultimately show ?thesis by (simp only: coalescible_bytes [OF bh bl])
qed

fun split_pair :: "rune list \<Rightarrow> bool" where
  "split_pair (hi # lo # cps) \<longleftrightarrow> (is_high hi \<and> is_low lo) \<or> split_pair (lo # cps)"
| "split_pair _ \<longleftrightarrow> False"

lemma split_pair_coalescible: "split_pair cps \<Longrightarrow> coalescible (wtf8_of cps)"
  by (induction cps rule: split_pair.induct)
    (auto simp: wtf8_of_def pair_coalescible intro: coalescible_append simp del: coalescible.simps)

lemma unitsToString_bmp: "u \<notin> {0xD800..0xDBFF} \<or> us = [] \<or> \<not> is_low (hd us) \<Longrightarrow> unitsToString (u # us) = appendCodeUnit u @ unitsToString us"
  by (cases us) (auto simp: is_high_def)

lemma rune_units_pair:
  assumes "0x10000 \<le> r" "r \<le> 0x10FFFF"
  shows "\<exists>hi lo. rune_units r = [hi, lo] \<and> is_high hi \<and> is_low lo \<and> pair_value hi lo = r"
proof -
  let ?q = "(r - 0x10000) div 1024" and ?m = "(r - 0x10000) mod 1024"
  have q: "0 \<le> ?q" "?q < 1024" using assms zdiv_mono1 [of "r - 0x10000" "0xFFFFF" 1024] by (simp_all add: pos_imp_zdiv_nonneg_iff)
  have m: "0 \<le> ?m" "?m < 1024" by simp_all
  have e: "?q * 1024 + ?m = r - 0x10000" by (rule div_mult_mod_eq)
  have "rune_units r = [0xD800 + ?q, 0xDC00 + ?m]" using assms by (simp add: rune_units_def Let_def push_drop and_masks)
  moreover have "is_high (0xD800 + ?q)" "is_low (0xDC00 + ?m)" using q m by (simp_all add: is_high_def is_low_def)
  moreover have "pair_value (0xD800 + ?q) (0xDC00 + ?m) = r" using e by (simp add: pair_value_def push_drop)
  ultimately show ?thesis by blast
qed

lemma hd_rune_units: "code_point r \<Longrightarrow> is_low (hd (rune_units r @ us)) \<longleftrightarrow> is_low r"
  using rune_units_pair [of r] by (cases "0x10000 \<le> r") (auto simp: is_high_def is_low_def code_point_def, auto simp: rune_units_def)

lemma unitsToString_codepoints:
  "list_all code_point cps \<Longrightarrow> \<not> split_pair cps \<Longrightarrow> unitsToString (concat (map rune_units cps)) = wtf8_of cps"
proof (induction cps)
  case (Cons r cps)
  let ?us = "concat (map rune_units cps)"
  have r: "code_point r" and np: "\<not> split_pair cps" and ih: "unitsToString ?us = wtf8_of cps"
    using Cons by (auto, (cases cps; auto)+)
  show ?case
  proof (cases "0x10000 \<le> r")
    case True
    then show ?thesis using rune_units_pair [of r] r ih append_astral [OF True]
      by (auto simp: code_point_def wtf8_of_def)
  next
    case False
    then have u: "rune_units r = [r]" by (simp add: rune_units_def)
    have "r \<notin> {0xD800..0xDBFF} \<or> ?us = [] \<or> \<not> is_low (hd ?us)"
    proof (cases cps)
      case (Cons c cs)
      then show ?thesis using Cons.prems hd_rune_units [of c "concat (map rune_units cs)"] by (auto simp: is_high_def)
    qed simp
    then show ?thesis using unitsToString_bmp [of r ?us] u ih by (simp add: wtf8_of_def)
  qed
qed (simp add: wtf8_of_def)

lemma canonicalize_units:
  assumes "wtf8 s"
  shows "canonicalizeWTF8 s = unitsToString (codeUnits s)"
proof -
  obtain cps where c: "list_all code_point cps" "s = wtf8_of cps" using assms by (auto simp: wtf8_def)
  show ?thesis
  proof (cases "coalescible s")
    case False
    then have "\<not> split_pair cps" using c(2) split_pair_coalescible by blast
    then show ?thesis using c False unitsToString_codepoints [of cps] by (simp add: canonicalizeWTF8_def codeUnits_wtf8_of)
  qed (simp add: canonicalizeWTF8_def)
qed

lemma codeUnits_canonicalize: "wtf8 s \<Longrightarrow> codeUnits (canonicalizeWTF8 s) = codeUnits s"
  by (simp add: canonicalize_units codeUnits_unitsToString codeUnits_units16)

lemma wtf8_canonicalize [intro]: "wtf8 s \<Longrightarrow> wtf8 (canonicalizeWTF8 s)"
  by (simp add: canonicalize_units unitsToString_wtf8 codeUnits_units16)

end
