(* ===== verification/Utf16_View.thy ===== *)
theory Utf16_View
  imports Utf16_Facts
begin

text \<open>
  The code-unit view of a string (\<open>utf16View\<close> and \<open>compareUTF16\<close> of \<open>src/interp/utf16.go\<close>,
  \<open>unitHasAt\<close> and \<open>unitIndex\<close> of \<open>src/interp/builtin_string.go\<close>). A view of an ASCII string works
  on the bytes, any other on its code units; the theorems say that the two representations cannot
  be told apart: every operation is a function of the code units alone. An index out of range, a
  panic in Go, is \<open>None\<close>.
\<close>

subsection \<open>Searching a slice of code units\<close>

definition unitHasAt :: "units \<Rightarrow> units \<Rightarrow> int \<Rightarrow> bool" where
  "unitHasAt rs sub at \<longleftrightarrow>
     (if at < 0 \<or> at + int (length sub) > int (length rs) then False
      else list_all (\<lambda>k. rs ! (nat at + k) = sub ! k) [0..<length sub])"

function unit_index_loop :: "units \<Rightarrow> units \<Rightarrow> nat \<Rightarrow> int" where
  "unit_index_loop rs sub k =
     (if k + length sub \<le> length rs
      then if unitHasAt rs sub (int k) then int k else unit_index_loop rs sub (k + 1)
      else -1)"
  by pat_completeness auto
termination
  by (relation "measure (\<lambda>(rs, sub, k). Suc (length rs) - k)") auto

declare unit_index_loop.simps [simp del]

definition unitIndex :: "units \<Rightarrow> units \<Rightarrow> int \<Rightarrow> int" where
  "unitIndex rs sub from =
     (let from = if from < 0 then 0 else from in
      if sub = [] then if from > int (length rs) then int (length rs) else from
      else unit_index_loop rs sub (nat from))"

text \<open>\<open>strings.Index\<close> and \<open>strings.LastIndex\<close>: the first and the last offset of an occurrence.\<close>

definition occurs_at :: "'a list \<Rightarrow> 'a list \<Rightarrow> nat \<Rightarrow> bool" where
  "occurs_at s sub k \<longleftrightarrow> k + length sub \<le> length s \<and> take (length sub) (drop k s) = sub"

function index_loop :: "bytes \<Rightarrow> bytes \<Rightarrow> nat \<Rightarrow> int" where
  "index_loop s sub k =
     (if k + length sub \<le> length s then if occurs_at s sub k then int k else index_loop s sub (k + 1) else -1)"
  by pat_completeness auto
termination
  by (relation "measure (\<lambda>(rs, sub, k). Suc (length rs) - k)") auto

declare index_loop.simps [simp del]

definition strings_Index :: "bytes \<Rightarrow> bytes \<Rightarrow> int" where
  "strings_Index s sub = index_loop s sub 0"

primrec last_index_loop :: "bytes \<Rightarrow> bytes \<Rightarrow> nat \<Rightarrow> int" where
  "last_index_loop s sub 0 = (if occurs_at s sub 0 then 0 else -1)"
| "last_index_loop s sub (Suc k) = (if occurs_at s sub (Suc k) then int (Suc k) else last_index_loop s sub k)"

definition strings_LastIndex :: "bytes \<Rightarrow> bytes \<Rightarrow> int" where
  "strings_LastIndex s sub = last_index_loop s sub (length s)"

fun strings_Compare :: "bytes \<Rightarrow> bytes \<Rightarrow> int" where
  "strings_Compare [] [] = 0"
| "strings_Compare [] (_ # _) = -1"
| "strings_Compare (_ # _) [] = 1"
| "strings_Compare (a # as) (b # bs) = (if a < b then -1 else if b < a then 1 else strings_Compare as bs)"

subsection \<open>Views\<close>

record utf16View =
  v_s :: bytes
  v_units :: "units option"
  v_ascii :: bool

definition viewOf :: "bytes \<Rightarrow> utf16View" where
  "viewOf s =
     (if isASCIIStr s then \<lparr>v_s = s, v_units = None, v_ascii = True\<rparr>
      else \<lparr>v_s = s, v_units = Some (codeUnits s), v_ascii = False\<rparr>)"

text \<open>A nil slice has length 0.\<close>

definition units_of :: "utf16View \<Rightarrow> units" where
  "units_of v = (case v_units v of None \<Rightarrow> [] | Some us \<Rightarrow> us)"

definition Len :: "utf16View \<Rightarrow> nat" where
  "Len v = (if v_ascii v then length (v_s v) else length (units_of v))"

definition index_opt :: "'a list \<Rightarrow> nat \<Rightarrow> 'a option" where
  "index_opt xs i = (if i < length xs then Some (xs ! i) else None)"

definition slice_opt :: "'a list \<Rightarrow> int \<Rightarrow> int \<Rightarrow> 'a list option" where
  "slice_opt xs i j = (if 0 \<le> i \<and> i \<le> j \<and> j \<le> int (length xs) then Some (take (nat (j - i)) (drop (nat i) xs)) else None)"

definition At :: "utf16View \<Rightarrow> nat \<Rightarrow> int option" where
  "At v i = (if v_ascii v then index_opt (v_s v) i else index_opt (units_of v) i)"

definition Slice :: "utf16View \<Rightarrow> int \<Rightarrow> int \<Rightarrow> bytes option" where
  "Slice v i j = (if v_ascii v then slice_opt (v_s v) i j else map_option unitsToString (slice_opt (units_of v) i j))"

definition unitsSlice :: "utf16View \<Rightarrow> units" where
  "unitsSlice v = (case v_units v of Some us \<Rightarrow> us | None \<Rightarrow> v_s v)"

definition HasAt :: "utf16View \<Rightarrow> utf16View \<Rightarrow> int \<Rightarrow> bool option" where
  "HasAt v sub at =
     (if at < 0 \<or> at + int (Len sub) > int (Len v) then Some False
      else if v_ascii v \<and> v_ascii sub
      then map_option (\<lambda>w. w = v_s sub) (slice_opt (v_s v) at (at + int (length (v_s sub))))
      else Some (unitHasAt (unitsSlice v) (unitsSlice sub) at))"

definition IndexOf :: "utf16View \<Rightarrow> utf16View \<Rightarrow> int \<Rightarrow> int option" where
  "IndexOf v sub from =
     (let from = if from < 0 then 0 else from in
      if v_ascii v \<and> v_ascii sub then
        if length (v_s sub) = 0 then Some (if from > int (length (v_s v)) then int (length (v_s v)) else from)
        else if from > int (length (v_s v)) then Some (-1)
        else case slice_opt (v_s v) from (int (length (v_s v))) of
               None \<Rightarrow> None
             | Some w \<Rightarrow> let idx = strings_Index w (v_s sub) in Some (if idx < 0 then -1 else from + idx)
      else Some (unitIndex (unitsSlice v) (unitsSlice sub) from))"

function last_loop :: "units \<Rightarrow> units \<Rightarrow> int \<Rightarrow> nat \<Rightarrow> int \<Rightarrow> int" where
  "last_loop rs rsub start k acc =
     (if k + length rsub \<le> length rs \<and> int k \<le> start
      then last_loop rs rsub start (k + 1) (if unitHasAt rs rsub (int k) then int k else acc)
      else acc)"
  by pat_completeness auto
termination
  by (relation "measure (\<lambda>(rs, rsub, start, k, acc). Suc (length rs) - k)") auto

declare last_loop.simps [simp del]

definition LastIndexOf :: "utf16View \<Rightarrow> utf16View \<Rightarrow> int \<Rightarrow> int option" where
  "LastIndexOf v sub start =
     (if v_ascii v \<and> v_ascii sub then
        if length (v_s sub) = 0 then Some (if start > int (length (v_s v)) then int (length (v_s v)) else start)
        else let upper = start + int (length (v_s sub)) in
             if upper > int (length (v_s v)) then Some (strings_LastIndex (v_s v) (v_s sub))
             else map_option (\<lambda>w. strings_LastIndex w (v_s sub)) (slice_opt (v_s v) 0 upper)
      else Some (last_loop (unitsSlice v) (unitsSlice sub) start 0 (-1)))"

function compare_loop :: "utf16View \<Rightarrow> utf16View \<Rightarrow> nat \<Rightarrow> nat \<Rightarrow> int option" where
  "compare_loop va vb n k =
     (if k < n then
        case (At va k, At vb k) of
          (Some ca, Some cb) \<Rightarrow> if ca \<noteq> cb then Some (if ca < cb then -1 else 1) else compare_loop va vb n (k + 1)
        | _ \<Rightarrow> None
      else Some (if Len va < Len vb then -1 else if Len va > Len vb then 1 else 0))"
  by pat_completeness auto
termination
  by (relation "measure (\<lambda>(va, vb, n, k). n - k)") auto

declare compare_loop.simps [simp del]

definition compareUTF16 :: "bytes \<Rightarrow> bytes \<Rightarrow> int option" where
  "compareUTF16 a b =
     (if a = b then Some 0
      else if isASCIIStr a \<and> isASCIIStr b then Some (strings_Compare a b)
      else let va = viewOf a; vb = viewOf b;
               n = if Len vb < Len va then Len vb else Len va
           in compare_loop va vb n 0)"

subsection \<open>A view is its code units\<close>

lemma view_ascii [simp]: "v_ascii (viewOf s) = isASCIIStr s"
  by (simp add: viewOf_def)

lemma view_s [simp]: "v_s (viewOf s) = s"
  by (simp add: viewOf_def)

lemma codeUnits_ascii [simp]: "isASCIIStr s \<Longrightarrow> codeUnits s = s"
  by (simp add: codeUnits_def)

lemma view_unitsSlice [simp]: "unitsSlice (viewOf s) = codeUnits s"
  by (simp add: unitsSlice_def viewOf_def)

lemma view_Len [simp]: "Len (viewOf s) = length (codeUnits s)"
  by (simp add: Len_def viewOf_def units_of_def)

lemma view_At [simp]: "At (viewOf s) i = index_opt (codeUnits s) i"
  by (simp add: At_def viewOf_def units_of_def)

lemma unitsToString_ascii: "isASCIIStr s \<Longrightarrow> list_all (\<lambda>b. 0 \<le> b) s \<Longrightarrow> unitsToString s = s"
  by (induction s rule: unitsToString.induct) (auto simp: isASCIIStr_def is_high_def appendCodeUnit_def AppendRune_def)

definition bytes_ok :: "bytes \<Rightarrow> bool" where
  "bytes_ok s = list_all (\<lambda>b. 0 \<le> b \<and> b \<le> 0xFF) s"

lemma ascii_sublist: "isASCIIStr s \<Longrightarrow> isASCIIStr (take j (drop i s))"
  by (auto simp: isASCIIStr_def list_all_iff dest: in_set_takeD in_set_dropD)

lemma nonneg_sublist: "bytes_ok s \<Longrightarrow> list_all (\<lambda>b. 0 \<le> b) (take j (drop i s))"
  by (auto simp: bytes_ok_def list_all_iff dest: in_set_takeD in_set_dropD)

lemma view_Slice: "bytes_ok s \<Longrightarrow> Slice (viewOf s) i j = map_option unitsToString (slice_opt (codeUnits s) i j)"
  using nonneg_sublist [of s "nat (j - i)" "nat i"] ascii_sublist [of s "nat (j - i)" "nat i"]
  by (auto simp: Slice_def viewOf_def units_of_def slice_opt_def unitsToString_ascii)

lemma unitHasAt_occurs: "unitHasAt rs sub at \<longleftrightarrow> 0 \<le> at \<and> occurs_at rs sub (nat at)"
proof -
  have "list_all (\<lambda>k. rs ! (nat at + k) = sub ! k) [0..<length sub] \<longleftrightarrow> take (length sub) (drop (nat at) rs) = sub"
    if "nat at + length sub \<le> length rs"
    using that by (simp add: list_all_iff list_eq_iff_nth_eq [of "take (length sub) (drop (nat at) rs)"] min_def) (use that in auto)
  then show ?thesis by (auto simp: unitHasAt_def occurs_at_def)
qed

lemma view_HasAt: "HasAt (viewOf s) (viewOf t) at = Some (unitHasAt (codeUnits s) (codeUnits t) at)"
  by (auto simp: HasAt_def unitHasAt_occurs occurs_at_def slice_opt_def)

subsection \<open>Searches find the first and the last occurrence\<close>

text \<open>The contract of a forward search: the first occurrence at or after an index, or -1.\<close>

definition first_from :: "'a list \<Rightarrow> 'a list \<Rightarrow> nat \<Rightarrow> int \<Rightarrow> bool" where
  "first_from s sub lo r \<longleftrightarrow>
     (r = -1 \<and> (\<forall>k\<ge>lo. \<not> occurs_at s sub k)) \<or>
     (\<exists>k\<ge>lo. r = int k \<and> occurs_at s sub k \<and> (\<forall>j. lo \<le> j \<and> j < k \<longrightarrow> \<not> occurs_at s sub j))"

definition last_upto :: "'a list \<Rightarrow> 'a list \<Rightarrow> int \<Rightarrow> int \<Rightarrow> bool" where
  "last_upto s sub hi r \<longleftrightarrow>
     (r = -1 \<and> (\<forall>k. int k \<le> hi \<longrightarrow> \<not> occurs_at s sub k)) \<or>
     (\<exists>k. int k \<le> hi \<and> r = int k \<and> occurs_at s sub k \<and> (\<forall>j. k < j \<and> int j \<le> hi \<longrightarrow> \<not> occurs_at s sub j))"

lemma first_from_step: "\<not> occurs_at s sub lo \<Longrightarrow> first_from s sub (Suc lo) r \<Longrightarrow> first_from s sub lo r"
  unfolding first_from_def by (metis Suc_leD Suc_leI le_neq_implies_less)

lemma first_from_here: "occurs_at s sub lo \<Longrightarrow> first_from s sub lo (int lo)"
  unfolding first_from_def by auto

lemma first_from_none: "lo + length sub > length s \<Longrightarrow> first_from s sub lo (-1)"
  unfolding first_from_def occurs_at_def by auto

lemma unit_index_loop_first: "first_from rs sub k (unit_index_loop rs sub k)"
proof (induction rs sub k rule: unit_index_loop.induct)
  case (1 rs sub k)
  then show ?case
    by (subst unit_index_loop.simps)
      (simp add: unitHasAt_occurs first_from_here first_from_step first_from_none)
qed

lemma index_loop_first: "first_from s sub k (index_loop s sub k)"
proof (induction s sub k rule: index_loop.induct)
  case (1 s sub k)
  then show ?case
    by (subst index_loop.simps) (simp add: first_from_here first_from_step first_from_none)
qed

lemma unitIndex_first: "first_from rs sub (nat (min from (int (length rs)))) (unitIndex rs sub from)"
proof (cases "sub = []")
  case True
  then show ?thesis using first_from_here [of rs sub "nat (min from (int (length rs)))"]
    by (auto simp: unitIndex_def Let_def occurs_at_def min_def split: if_splits)
next
  case False
  show ?thesis
  proof (cases "from > int (length rs)")
    case True
    then have "unit_index_loop rs sub (nat from) = -1" using zless_nat_eq_int_zless [of "length rs" "from"] by (subst unit_index_loop.simps) simp
    then show ?thesis using True False first_from_none [of rs "length rs" sub] by (simp add: unitIndex_def)
  next
    case 2: False
    then show ?thesis using False unit_index_loop_first [of rs sub "nat from"] by (auto simp: unitIndex_def min_def)
  qed
qed

lemma first_from_unique: "first_from s sub lo r \<Longrightarrow> first_from s sub lo r' \<Longrightarrow> r = r'"
  unfolding first_from_def by (metis linorder_neqE_nat)

lemma occurs_at_drop: "lo \<le> length s \<Longrightarrow> occurs_at (drop lo s) sub k \<longleftrightarrow> occurs_at s sub (lo + k)"
  by (auto simp: occurs_at_def add.commute add.left_commute)

lemma first_from_drop:
  assumes "lo \<le> length s" "first_from (drop lo s) sub 0 r"
  shows "first_from s sub lo (if r < 0 then -1 else int lo + r)"
proof -
  consider "r = -1" "\<And>k. \<not> occurs_at (drop lo s) sub k"
    | k where "r = int k" "occurs_at (drop lo s) sub k" "\<And>j. j < k \<Longrightarrow> \<not> occurs_at (drop lo s) sub j"
    using assms(2) unfolding first_from_def by auto
  then show ?thesis
  proof cases
    case 1
    then have "\<not> occurs_at s sub k" if "lo \<le> k" for k using occurs_at_drop [OF assms(1), of sub "k - lo"] that by simp
    then show ?thesis using 1 by (simp add: first_from_def)
  next
    case 2
    have "\<not> occurs_at s sub j" if "lo \<le> j" "j < lo + k" for j
      using occurs_at_drop [OF assms(1), of sub "j - lo"] 2(3) [of "j - lo"] that by simp
    then show ?thesis using 2 occurs_at_drop [OF assms(1), of sub k] unfolding first_from_def
      by (intro disjI2 exI [of _ "lo + k"]) auto
  qed
qed

lemma view_IndexOf: "IndexOf (viewOf s) (viewOf t) from = Some (unitIndex (codeUnits s) (codeUnits t) from)"
proof (cases "isASCIIStr s \<and> isASCIIStr t \<and> t \<noteq> [] \<and> from \<le> int (length s)")
  case True
  let ?f = "nat from"
  have "first_from s t ?f (if strings_Index (drop ?f s) t < 0 then -1 else int ?f + strings_Index (drop ?f s) t)"
    using True by (intro first_from_drop) (auto simp: strings_Index_def index_loop_first)
  moreover have "first_from s t ?f (unitIndex s t from)" using unitIndex_first [of s t "from"] True by (auto simp: min_def)
  ultimately have "unitIndex s t from = (if strings_Index (drop ?f s) t < 0 then -1 else int ?f + strings_Index (drop ?f s) t)"
    by (rule first_from_unique [rotated])
  then show ?thesis using True by (auto simp: IndexOf_def Let_def slice_opt_def)
next
  case False
  then show ?thesis
    by (auto simp: IndexOf_def Let_def unitIndex_def unit_index_loop.simps [of s t "nat from"])
qed

lemma last_upto_unique: "last_upto s sub hi r \<Longrightarrow> last_upto s sub hi r' \<Longrightarrow> r = r'"
  unfolding last_upto_def by (metis linorder_neqE_nat)

lemma last_upto_cong:
  assumes "\<And>k. int k \<le> hi \<and> occurs_at s sub k \<longleftrightarrow> int k \<le> hi' \<and> occurs_at s' sub k"
  shows "last_upto s sub hi r \<longleftrightarrow> last_upto s' sub hi' r"
  unfolding last_upto_def using assms by (smt (verit))

lemma last_index_loop_upto: "last_upto s sub (int k) (last_index_loop s sub k)"
proof (induction k)
  case 0
  then show ?case by (auto simp: last_upto_def)
next
  case (Suc k)
  show ?case
  proof (cases "occurs_at s sub (Suc k)")
    case True
    then show ?thesis by (auto simp: last_upto_def intro!: exI [of _ "Suc k"])
  next
    case False
    then have "occurs_at s sub j \<and> int j \<le> int (Suc k) \<longleftrightarrow> occurs_at s sub j \<and> int j \<le> int k" for j
      by (cases "j = Suc k") auto
    then have "int j \<le> int (Suc k) \<and> occurs_at s sub j \<longleftrightarrow> int j \<le> int k \<and> occurs_at s sub j" for j by blast
    then have "last_upto s sub (int (Suc k)) r \<longleftrightarrow> last_upto s sub (int k) r" for r by (rule last_upto_cong)
    then show ?thesis using Suc False by (simp only: last_index_loop.simps if_False)
  qed
qed

lemma occurs_at_take: "occurs_at (take n s) sub k \<longleftrightarrow> occurs_at s sub k \<and> k + length sub \<le> n"
  by (auto simp: occurs_at_def drop_take min_def)

lemma strings_LastIndex_upto: "last_upto s sub (int (length s)) (strings_LastIndex s sub)"
  by (simp add: strings_LastIndex_def last_index_loop_upto)

lemma last_loop_upto:
  assumes "last_upto rs sub (min (int k - 1) start) acc"
  shows "last_upto rs sub start (last_loop rs sub start k acc)"
  using assms
proof (induction rs sub start k acc rule: last_loop.induct)
  case (1 rs sub start k acc)
  show ?case
  proof (cases "k + length sub \<le> length rs \<and> int k \<le> start")
    case True
    have "last_upto rs sub (min (int (k + 1) - 1) start) (if unitHasAt rs sub (int k) then int k else acc)"
    proof (cases "occurs_at rs sub k")
      case o: True
      then show ?thesis using True by (auto simp: unitHasAt_occurs last_upto_def)
    next
      case False
      have "int j \<le> int k - 1 \<longleftrightarrow> int j \<le> int k" if "occurs_at rs sub j" for j using that False by (cases "j = k") auto
      then have "last_upto rs sub (int k - 1) acc \<longleftrightarrow> last_upto rs sub (int k) acc" by (intro last_upto_cong) auto
      then show ?thesis using 1(2) True False by (simp add: unitHasAt_occurs min_def split: if_splits)
    qed
    then show ?thesis using 1(1) [OF True] True by (subst last_loop.simps) simp
  next
    case False
    have "int j \<le> min (int k - 1) start \<and> occurs_at rs sub j \<longleftrightarrow> int j \<le> start \<and> occurs_at rs sub j" for j
      using False by (auto simp: occurs_at_def)
    then have "last_upto rs sub (min (int k - 1) start) acc \<longleftrightarrow> last_upto rs sub start acc" by (rule last_upto_cong)
    moreover have "last_loop rs sub start k acc = acc" using False by (subst last_loop.simps) (simp only: if_False)
    ultimately show ?thesis using 1(2) by simp
  qed
qed

lemma last_upto_neg: "hi < 0 \<Longrightarrow> last_upto s sub hi (-1)"
  by (auto simp: last_upto_def)

lemma view_LastIndexOf:
  assumes "0 \<le> start"
  shows "\<exists>r. LastIndexOf (viewOf s) (viewOf t) start = Some r \<and> last_upto (codeUnits s) (codeUnits t) start r"
proof (cases "isASCIIStr s \<and> isASCIIStr t")
  case True
  consider "t = []" | "t \<noteq> []" "start + int (length t) > int (length s)" | "t \<noteq> []" "start + int (length t) \<le> int (length s)" by linarith
  then show ?thesis
  proof cases
    case 1
    let ?r = "min start (int (length s))"
    have "last_upto s [] start ?r" unfolding last_upto_def using assms
      by (intro disjI2 exI [of _ "nat ?r"]) (auto simp: occurs_at_def)
    then show ?thesis using 1 True by (auto simp: LastIndexOf_def min_def split: if_splits)
  next
    case 2
    have "last_upto s t (int (length s)) r \<longleftrightarrow> last_upto s t start r" for r
      using 2 by (intro last_upto_cong) (auto simp: occurs_at_def)
    then show ?thesis using 2 True strings_LastIndex_upto [of s t] by (simp add: LastIndexOf_def)
  next
    case 3
    let ?u = "nat (start + int (length t))"
    have "last_upto (take ?u s) t (int (length (take ?u s))) r \<longleftrightarrow> last_upto s t start r" for r
      using 3 assms by (intro last_upto_cong) (auto simp: occurs_at_take)
    then show ?thesis using 3 True assms strings_LastIndex_upto [of "take ?u s" t]
      by (simp add: LastIndexOf_def slice_opt_def)
  qed
next
  case False
  moreover have "last_upto (codeUnits s) (codeUnits t) start (last_loop (codeUnits s) (codeUnits t) start 0 (-1))"
    by (rule last_loop_upto, rule last_upto_neg) simp
  ultimately show ?thesis by (simp only: LastIndexOf_def view_ascii view_unitsSlice if_False simp_thms) blast
qed

subsection \<open>Ordering\<close>

abbreviation "unit_less \<equiv> lexord {(u, v). u < (v :: int)}"

definition sign_of :: "units \<Rightarrow> units \<Rightarrow> int" where
  "sign_of us vs = (if us = vs then 0 else if (us, vs) \<in> unit_less then -1 else 1)"

lemma sign_of_Cons: "sign_of (u # us) (v # vs) = (if u < v then -1 else if v < u then 1 else sign_of us vs)"
  by (auto simp: sign_of_def)

lemma strings_Compare_sign: "strings_Compare a b = sign_of a b"
  by (induction a b rule: strings_Compare.induct) (auto simp: sign_of_Cons, simp_all add: sign_of_def)

lemma compare_loop_sign:
  assumes "n = min (length (codeUnits a)) (length (codeUnits b))" "k \<le> n"
  shows "compare_loop (viewOf a) (viewOf b) n k = Some (sign_of (drop k (codeUnits a)) (drop k (codeUnits b)))"
  using assms
proof (induction "n - k" arbitrary: k)
  case 0
  then have "k = n" using diff_is_0_eq by (metis le_antisym)
  then show ?case using 0(2) by (subst compare_loop.simps) (auto simp: sign_of_def min_def neq_Nil_conv [symmetric] split: if_splits)
next
  case (Suc d)
  then have l: "k < n" "k < length (codeUnits a)" "k < length (codeUnits b)" by auto
  have "drop k (codeUnits a) = codeUnits a ! k # drop (Suc k) (codeUnits a)" "drop k (codeUnits b) = codeUnits b ! k # drop (Suc k) (codeUnits b)"
    using l by (simp_all add: Cons_nth_drop_Suc)
  then show ?case using Suc(1) [of "Suc k"] Suc(2,3) l by (subst compare_loop.simps) (auto simp: index_opt_def sign_of_Cons)
qed

lemma compareUTF16_sign: "compareUTF16 a b = Some (sign_of (codeUnits a) (codeUnits b))"
proof -
  have "(if length (codeUnits b) < length (codeUnits a) then length (codeUnits b) else length (codeUnits a)) = min (length (codeUnits a)) (length (codeUnits b))"
    by (simp add: min_def)
  then have "compare_loop (viewOf a) (viewOf b) (if length (codeUnits b) < length (codeUnits a) then length (codeUnits b) else length (codeUnits a)) 0 =
      Some (sign_of (codeUnits a) (codeUnits b))"
    using compare_loop_sign [of _ a b 0] by simp
  then show ?thesis by (auto simp: compareUTF16_def Let_def strings_Compare_sign sign_of_def)
qed

subsection \<open>What strings promise\<close>

definition canonical :: "bytes \<Rightarrow> bool" where
  "canonical s \<longleftrightarrow> wtf8 s \<and> canonicalizeWTF8 s = s"

lemma canonical_unitsToString: "canonical s \<Longrightarrow> unitsToString (codeUnits s) = s"
  using canonicalize_units [of s] by (simp add: canonical_def)

lemma unitsToString_canonical: "units16 us \<Longrightarrow> canonical (unitsToString us)"
  by (simp add: canonical_def unitsToString_wtf8 canonicalize_units codeUnits_unitsToString)

lemma canonical_canonicalize: "wtf8 s \<Longrightarrow> canonical (canonicalizeWTF8 s)"
  by (simp add: canonicalize_units unitsToString_canonical codeUnits_units16)

text \<open>
  C27: Code units survive storage. Writing a sequence of 16-bit code units, lone surrogates and
  surrogate pairs included, as bytes and reading it back gives the same code units, for the
  interpreter's pair of functions and for the regexp engine's; and reading a canonical string
  and writing it back gives the same bytes.
\<close>

theorem units_roundtrip:
  "(units16 us \<longrightarrow> codeUnits (unitsToString us) = us \<and> ToUnits (FromUnits us) = us \<and> canonical (unitsToString us)) \<and>
   (canonical s \<longrightarrow> unitsToString (codeUnits s) = s \<and> FromUnits (ToUnits s) = s)"
  by (simp add: codeUnits_unitsToString ToUnits_unit_loop FromUnits_unitsToString unit_loop_unitsToString
      unitsToString_canonical canonical_unitsToString flip: codeUnits_unit_loop)

theorem units_roundtrip_witness:
  "units16 [0xD83D, 0xDE00, 0xD800, 0x61] \<and> codeUnits (unitsToString [0xD83D, 0xDE00, 0xD800, 0x61]) = [0xD83D, 0xDE00, 0xD800, 0x61] \<and>
   canonical [0x61, 0x62] \<and> FromUnits (ToUnits [0x61, 0x62]) = [0x61, 0x62]"
proof -
  have "units16 [0xD83D, 0xDE00, 0xD800, 0x61]" by (simp add: units16_def)
  moreover have "canonical [0x61, 0x62]" using wtf8_ascii [of "[0x61, 0x62]"]
    by (simp add: canonical_def isASCIIStr_def canonicalizeWTF8_def)
  ultimately show ?thesis using units_roundtrip [of "[0xD83D, 0xDE00, 0xD800, 0x61]" "[0x61, 0x62]"] by simp
qed

text \<open>
  C26: Canonical bytes are a faithful key. For any two strings, the bytes of their canonical forms
  are equal exactly when their code units are; canonicalizing is idempotent, keeps the code
  units, and a concatenation denotes the code units of its parts one after the other even where a
  surrogate pair meets across the join.
\<close>

theorem canonical_equality:
  assumes "wtf8 s" "wtf8 t"
  shows "(canonicalizeWTF8 s = canonicalizeWTF8 t \<longleftrightarrow> codeUnits s = codeUnits t) \<and>
    canonicalizeWTF8 (canonicalizeWTF8 s) = canonicalizeWTF8 s \<and>
    codeUnits (canonicalizeWTF8 (s @ t)) = codeUnits s @ codeUnits t"
proof (intro conjI)
  show "canonicalizeWTF8 s = canonicalizeWTF8 t \<longleftrightarrow> codeUnits s = codeUnits t"
    using assms by (metis canonicalize_units codeUnits_canonicalize)
  show "canonicalizeWTF8 (canonicalizeWTF8 s) = canonicalizeWTF8 s"
    using canonical_canonicalize [OF assms(1)] by (simp add: canonical_def)
  show "codeUnits (canonicalizeWTF8 (s @ t)) = codeUnits s @ codeUnits t"
    using assms by (simp add: codeUnits_canonicalize wtf8_append codeUnits_append)
qed

theorem canonical_equality_witness:
  "codeUnits (canonicalizeWTF8 ([0xED, 0xA0, 0xBD] @ [0xED, 0xB8, 0x80])) = codeUnits [0xED, 0xA0, 0xBD] @ codeUnits [0xED, 0xB8, 0x80]"
proof -
  have "wtf8_of [0xD83D] = [0xED, 0xA0, 0xBD]" "wtf8_of [0xDE00] = [0xED, 0xB8, 0x80]"
    by (simp_all add: wtf8_of_def appendCodeUnit_def enc3_arith)
  then have "wtf8 [0xED, 0xA0, 0xBD]" "wtf8 [0xED, 0xB8, 0x80]"
    using wtf8_wtf8_of [of "[0xD83D]"] wtf8_wtf8_of [of "[0xDE00]"] by (simp_all add: code_point_def)
  then show ?thesis using canonical_equality [of "[0xED, 0xA0, 0xBD]" "[0xED, 0xB8, 0x80]"] by blast
qed

text \<open>
  C33: The fast paths are invisible. The allocation-free length scans, and length, indexing and
  slicing through a view (bytes for an ASCII string, code units otherwise) all agree with the
  list of code units, and an index or a slice fails exactly when it is out of its range.
\<close>

theorem views_agree:
  assumes "bytes_ok s"
  shows "codeUnitLen s = length (codeUnits s) \<and> codeUnitLenASCII s = (length (codeUnits s), isASCIIStr s) \<and>
    Len (viewOf s) = length (codeUnits s) \<and>
    At (viewOf s) i = (if i < length (codeUnits s) then Some (codeUnits s ! i) else None) \<and>
    Slice (viewOf s) (int i) (int j) =
      (if i \<le> j \<and> j \<le> length (codeUnits s) then Some (unitsToString (take (j - i) (drop i (codeUnits s)))) else None)"
  using assms by (auto simp: codeUnitLen_eq codeUnitLenASCII_eq view_Slice slice_opt_def index_opt_def nat_diff_distrib)

theorem views_agree_witness: "bytes_ok [0xC3, 0xA9, 0x61] \<and> At (viewOf [0xC3, 0xA9, 0x61]) 5 = None \<and> codeUnitLen [0xC3, 0xA9, 0x61] = length (codeUnits [0xC3, 0xA9, 0x61])"
proof -
  have b: "bytes_ok [0xC3, 0xA9, 0x61]" by (simp add: bytes_ok_def)
  have "length (codeUnits [0xC3, 0xA9, 0x61]) \<le> 5"
    using unit_loop_2 [of "0xC3" "0xA9" _ "[0x61]"] unit_loop_1 [of "0x61" "[]"] by (simp add: codeUnits_unit_loop cont_byte_def rune_units_def Let_def)
  then show ?thesis using b views_agree [OF b, of 5 0] by simp
qed



text \<open>
  C32: Strings are ordered by code units. The comparison that the relational operators and the
  default sort use never fails and returns 0 exactly for equal code-unit sequences, -1 when the
  left one is lexicographically smaller by code unit and 1 otherwise, whichever of its byte
  shortcut and its view loop decides.
\<close>

theorem compare_is_unit_order:
  "compareUTF16 a b =
     Some (if codeUnits a = codeUnits b then 0
           else if (codeUnits a, codeUnits b) \<in> lexord {(u, v). u < v} then -1 else 1)"
  by (simp add: compareUTF16_sign sign_of_def)

end
