(* ===== verification/Regexp_Api.thy ===== *)
theory Regexp_Api
  imports Regexp_Parse_Correct Utf16_View
begin

text \<open>
  The public interface of the regexp engine (\<open>src/jsregexp/regexp.go\<close> and the search methods of
  \<open>src/jsregexp/vm.go\<close>): flags, parser, compiler and machine composed, on the strings of the
  interpreter. A pattern's source is its sequence of runes, as the parser reads it.
\<close>

record Regexp =
  re_source :: go_string
  re_flags :: Flags
  re_pattern :: Pattern
  re_prog :: "prog option"
  re_stepLimit :: int

text \<open>\<open>re.compile()\<close>: attaches the program, once.\<close>

definition compile_regexp :: "unicode_env \<Rightarrow> Regexp \<Rightarrow> SyntaxError + Regexp" where
  "compile_regexp ue re =
     (case re_prog re of
        Some p \<Rightarrow> Inr re
      | None \<Rightarrow> res_bind (compile ue (re_pattern re)) (\<lambda>p. Inr (re\<lparr>re_prog := Some p\<rparr>)))"

definition Compile :: "unicode_env \<Rightarrow> go_string \<Rightarrow> go_string \<Rightarrow> parse_err + Regexp" where
  "Compile ue source flags =
     res_bind (lift_syntax (ParseFlags flags)) (\<lambda>f.
       res_bind (Parse (udb ue) source f) (\<lambda>pat.
         let re = \<lparr>re_source = source, re_flags = f, re_pattern = pat, re_prog = None, re_stepLimit = DefaultStepBudget\<rparr>
         in lift_syntax (compile_regexp ue re)))"

definition SetStepBudget :: "int \<Rightarrow> Regexp \<Rightarrow> Regexp" where
  "SetStepBudget n re = re\<lparr>re_stepLimit := n\<rparr>"

definition NumSubexp :: "Regexp \<Rightarrow> nat" where
  "NumSubexp re = GroupCount (re_pattern re)"

text \<open>\<open>FindSubmatchIndex\<close> as a method: \<open>Inl\<close> of an error of the compiler or of the machine.\<close>

definition re_FindSubmatchIndex ::
  "unicode_env \<Rightarrow> Regexp \<Rightarrow> (int \<Rightarrow> bool) option \<Rightarrow> units \<Rightarrow> nat \<Rightarrow> (SyntaxError + match_err) + int list option" where
  "re_FindSubmatchIndex ue re cx inp start =
     (case compile_regexp ue re of
        Inl e \<Rightarrow> Inl (Inl e)
      | Inr re \<Rightarrow>
          (case FindSubmatchIndex (the (re_prog re)) (re_stepLimit re) cx inp start of
             Inl e \<Rightarrow> Inl (Inr e)
           | Inr r \<Rightarrow> Inr r))"

definition FindStringSubmatchIndex ::
  "unicode_env \<Rightarrow> Regexp \<Rightarrow> (int \<Rightarrow> bool) option \<Rightarrow> bytes \<Rightarrow> nat \<Rightarrow> (SyntaxError + match_err) + int list option" where
  "FindStringSubmatchIndex ue re cx s start = re_FindSubmatchIndex ue re cx (ToUnits s) start"

definition Match :: "unicode_env \<Rightarrow> Regexp \<Rightarrow> (int \<Rightarrow> bool) option \<Rightarrow> bytes \<Rightarrow> (SyntaxError + match_err) + bool" where
  "Match ue re cx s = res_bind (FindStringSubmatchIndex ue re cx s 0) (\<lambda>loc. Inr (loc \<noteq> None))"

subsection \<open>From source to spans\<close>

lemma lift_syntax_Inr: "lift_syntax r = Inr x \<longleftrightarrow> r = Inr x"
  by (cases r) (auto simp: lift_syntax_def)

lemma Compile_Inr:
  assumes "Compile ue source flags = Inr re"
  shows "ParseFlags flags = Inr (re_flags re)" "Parse (udb ue) source (re_flags re) = Inr (re_pattern re)"
    "\<exists>p. re_prog re = Some p \<and> compile ue (re_pattern re) = Inr p" "re_stepLimit re = DefaultStepBudget"
  using assms by (auto simp: Compile_def compile_regexp_def lift_syntax_Inr res_bind_eq_Inr Let_def)

lemma compiled_search:
  assumes "re_prog re = Some p"
  shows "re_FindSubmatchIndex ue re cx inp start = (case FindSubmatchIndex p (re_stepLimit re) cx inp start of Inl e \<Rightarrow> Inl (Inr e) | Inr r \<Rightarrow> Inr r)"
  using assms by (simp add: re_FindSubmatchIndex_def compile_regexp_def)

lemma ToUnits_codeUnits: "ToUnits s = codeUnits s"
  by (simp add: ToUnits_unit_loop codeUnits_unit_loop)

text \<open>Every span of a result can be cut out of the subject.\<close>

lemma span_sliceable:
  assumes "bytes_ok s" "0 \<le> i" "i \<le> j" "j \<le> int (length (codeUnits s))"
  shows "Slice (viewOf s) i j = Some (unitsToString (take (nat (j - i)) (drop (nat i) (codeUnits s))))"
  using assms by (simp add: view_Slice slice_opt_def)

lemma find_sem_shape:
  assumes "pattern_ok ue pat" "find_sem ue pat inp start = Some cs"
  shows "length cs = 2 * (GroupCount pat + 1)" "int start \<le> cs ! 0"
    "i \<le> GroupCount pat \<Longrightarrow> cs ! (2 * i) = -1 \<and> cs ! (2 * i + 1) = -1 \<or>
       0 \<le> cs ! (2 * i) \<and> cs ! (2 * i) \<le> cs ! (2 * i + 1) \<and> cs ! (2 * i + 1) \<le> int (length inp)"
proof -
  obtain a where a: "start \<le> a" "a \<le> length inp" "match_at ue pat inp a = Some cs" using find_sem_anchor assms(2) by blast
  note shape = match_at_shape [OF assms(1) a(2,3)]
  show "length cs = 2 * (GroupCount pat + 1)" "int start \<le> cs ! 0" using shape a(1) by auto
  show "cs ! (2 * i) = -1 \<and> cs ! (2 * i + 1) = -1 \<or>
      0 \<le> cs ! (2 * i) \<and> cs ! (2 * i) \<le> cs ! (2 * i + 1) \<and> cs ! (2 * i + 1) \<le> int (length inp)" if "i \<le> GroupCount pat"
    using that shape unfolding caps_valid_def by (cases "i = 0") auto
qed

text \<open>
  C2: From source text to match spans. Compiling a pattern without the v flag gives a regexp or a
  syntax error, never a panic. For a regexp compiled without u and v, a search of any string from
  any start, with any budget, ends with the budget's or the context's error or with what the
  denotational semantics of its tree says about the code units of the string; each group
  of a match is unset or a span that can be cut out of the string.
\<close>

theorem compile_and_search:
  assumes "names_plain (udb ue)" "bytes_ok s"
  shows "(\<forall>f. ParseFlags flags = Inr f \<longrightarrow> \<not> UnicodeSets f \<longrightarrow>
      (\<exists>re. Compile ue source flags = Inr re) \<or> (\<exists>e. Compile ue source flags = Inl (Syntax e))) \<and>
    (\<forall>re. Compile ue source flags = Inr re \<longrightarrow> \<not> UnicodeMode (re_flags re) \<longrightarrow>
      (FindStringSubmatchIndex ue (SetStepBudget n re) cx s start
         \<in> {Inl (Inr ErrBudget), Inl (Inr ErrCtx), Inr (find_sem ue (re_pattern re) (codeUnits s) start)}) \<and>
      (\<forall>cs i. find_sem ue (re_pattern re) (codeUnits s) start = Some cs \<longrightarrow> i \<le> NumSubexp re \<longrightarrow>
         length cs = 2 * (NumSubexp re + 1) \<and>
         (cs ! (2 * i) = -1 \<and> cs ! (2 * i + 1) = -1 \<or> (\<exists>m. Slice (viewOf s) (cs ! (2 * i)) (cs ! (2 * i + 1)) = Some m))))"
proof (intro conjI allI impI)
  fix f assume f: "ParseFlags flags = Inr f" "\<not> UnicodeSets f"
  have "e \<noteq> OutOfFuel \<and> e \<noteq> IndexPanic" if "Parse (udb ue) source f = Inl e" for e using Parse_error [OF that] f(2) by blast
  then have "e = IndexPanic \<or> e = OutOfFuel \<Longrightarrow> Compile ue source flags \<noteq> Inl e" for e
    using f(1) by (auto simp: Compile_def lift_syntax_def res_bind_eq_Inl Let_def split: sum.splits)
  then show "(\<exists>re. Compile ue source flags = Inr re) \<or> (\<exists>e. Compile ue source flags = Inl (Syntax e))"
    by (metis old.sum.exhaust parse_err.exhaust)
next
  fix re assume re: "Compile ue source flags = Inr re" "\<not> UnicodeMode (re_flags re)"
  note c = Compile_Inr [OF re(1)]
  obtain p where p: "re_prog re = Some p" "compile ue (re_pattern re) = Inr p" using c(3) by blast
  have ok: "pattern_ok ue (re_pattern re)" using Parse_pattern_ok [OF c(2) assms(1) re(2)] .
  have "FindSubmatchIndex p n cx (ToUnits s) start \<in> {Inl ErrBudget, Inl ErrCtx, Inr (find_sem ue (re_pattern re) (codeUnits s) start)}"
  proof (cases "FindSubmatchIndex p n cx (ToUnits s) start")
    case (Inl e)
    then show ?thesis using find_no_panic [OF p(2), of n cx "ToUnits s" start] find_no_fuel [OF p(2), of n cx "ToUnits s" start] ok
      by (cases e) (auto simp: pattern_ok_def)
  qed (use find_Inr [OF p(2) ok] ToUnits_codeUnits in auto)
  then show "FindStringSubmatchIndex ue (SetStepBudget n re) cx s start
      \<in> {Inl (Inr ErrBudget), Inl (Inr ErrCtx), Inr (find_sem ue (re_pattern re) (codeUnits s) start)}"
    using compiled_search [of "SetStepBudget n re" p ue cx "ToUnits s" start] p(1) by (auto simp: FindStringSubmatchIndex_def SetStepBudget_def)
  fix cs i assume r: "find_sem ue (re_pattern re) (codeUnits s) start = Some cs" and i: "i \<le> NumSubexp re"
  note shape = find_sem_shape [OF ok r]
  show "length cs = 2 * (NumSubexp re + 1)" using shape(1) by (simp add: NumSubexp_def)
  show "cs ! (2 * i) = -1 \<and> cs ! (2 * i + 1) = -1 \<or> (\<exists>m. Slice (viewOf s) (cs ! (2 * i)) (cs ! (2 * i + 1)) = Some m)"
    using shape(3) [of i] i span_sliceable [OF assms(2)] unfolding NumSubexp_def by blast
qed

theorem compile_and_search_witness:
  "\<exists>re. Compile ascii_env example_source [] = Inr re \<and>
     FindStringSubmatchIndex ascii_env (SetStepBudget 0 re) None (str ''xabdd'') 0
       \<in> {Inl (Inr ErrBudget), Inl (Inr ErrCtx), Inr (find_sem ascii_env (re_pattern re) (codeUnits (str ''xabdd'')) 0)}"
proof -
  have "isl (Compile ascii_env example_source []) = False" by code_simp
  then obtain re where re: "Compile ascii_env example_source [] = Inr re" by (cases "Compile ascii_env example_source []") auto
  have "ParseFlags [] = Inr noFlags" by code_simp
  then have "\<not> UnicodeMode (re_flags re)" using Compile_Inr(1) [OF re] by (simp add: noFlags_def UnicodeMode_def)
  moreover have "bytes_ok (str ''xabdd'')" by code_simp
  moreover have "names_plain (udb ascii_env)" using ascii_names_plain by (simp add: ascii_env_def)
  ultimately show ?thesis using re compile_and_search [of ascii_env "str ''xabdd''" "[]" example_source] by blast
qed

end
