(* ===== verification/Regexp_Class.thy ===== *)
theory Regexp_Class
  imports Regexp_Compiler
begin

text \<open>
  What character classes denote. A class denotes a set of code points and a set of strings;
  \<open>compileClassSet\<close> (\<open>src/jsregexp/compiler.go\<close>) computes both with range lists, folds over the
  operands and string lists without duplicates. The code-point half rests on the interface
  \<open>point_sets\<close> of \<open>Rune_Set\<close>.
\<close>

subsection \<open>Denotation\<close>

abbreviation code_points :: "rune set" where
  "code_points \<equiv> {0 .. 0x10FFFF}"

definition combine :: "SetOp \<Rightarrow> 'a set list \<Rightarrow> 'a set" where
  "combine op xs =
     (case xs of
        [] \<Rightarrow> {}
      | x # rest \<Rightarrow>
          (case op of
             SetUnion \<Rightarrow> \<Union> (set xs)
           | SetIntersection \<Rightarrow> x \<inter> \<Inter> (set rest)
           | SetSubtraction \<Rightarrow> x - \<Union> (set rest)))"

fun class_points :: "unicode_env \<Rightarrow> compiler \<Rightarrow> ClassSet \<Rightarrow> rune set"
  and item_points :: "unicode_env \<Rightarrow> compiler \<Rightarrow> ClassItem \<Rightarrow> rune set"
  and items_points :: "unicode_env \<Rightarrow> compiler \<Rightarrow> ClassItem list \<Rightarrow> rune set list" where
  "class_points ue c (ClassSet op items) = combine op (items_points ue c items)"
| "item_points ue c (ClassRange lo hi) = {min lo hi .. max lo hi}"
| "item_points ue c (ClassEscape k) = escape_set k (ic c \<and> cu c)"
| "item_points ue c (ClassProperty name value neg) =
     (case resolveProperty ue name value of
        Inr s \<Rightarrow> if neg then code_points - rset (ranges s) else rset (ranges s)
      | Inl e \<Rightarrow> (case propertyOfStrings ue name of Some pos \<Rightarrow> rset (ranges (cset pos)) | None \<Rightarrow> {}))"
| "item_points ue c (ClassString rs) = {r. rs = [r]}"
| "item_points ue c (ClassStringDisjunction alts) = {r. [r] \<in> set alts}"
| "item_points ue c (NestedClass neg s) =
     (if neg then code_points - class_points ue c s else class_points ue c s)"
| "items_points ue c [] = []"
| "items_points ue c (x # xs) = item_points ue c x # items_points ue c xs"

text \<open>Strings are compared as Go strings, so a surrogate and U+FFFD are the same element.\<close>

definition strings_of :: "rune list list \<Rightarrow> go_string set" where
  "strings_of ss = string_of_runes ` set ss"

fun class_strings :: "unicode_env \<Rightarrow> compiler \<Rightarrow> ClassSet \<Rightarrow> go_string set"
  and item_strings :: "unicode_env \<Rightarrow> compiler \<Rightarrow> ClassItem \<Rightarrow> go_string set"
  and items_strings :: "unicode_env \<Rightarrow> compiler \<Rightarrow> ClassItem list \<Rightarrow> go_string set list" where
  "class_strings ue c (ClassSet op items) = combine op (items_strings ue c items)"
| "item_strings ue c (ClassProperty name value neg) =
     (case resolveProperty ue name value of
        Inr s \<Rightarrow> {}
      | Inl e \<Rightarrow> (case propertyOfStrings ue name of Some pos \<Rightarrow> strings_of (cstrings pos) | None \<Rightarrow> {}))"
| "item_strings ue c (ClassString rs) = (if length rs = 1 then {} else {string_of_runes rs})"
| "item_strings ue c (ClassStringDisjunction alts) = strings_of (filter (\<lambda>a. length a \<noteq> 1) alts)"
| "item_strings ue c (NestedClass neg s) = (if neg then {} else class_strings ue c s)"
| "item_strings ue c x = {}"
| "items_strings ue c [] = []"
| "items_strings ue c (x # xs) = item_strings ue c x # items_strings ue c xs"

text \<open>The code points a parsed class mentions are code points.\<close>

fun class_wf :: "ClassSet \<Rightarrow> bool" and item_wf :: "ClassItem \<Rightarrow> bool" where
  "class_wf (ClassSet op items) \<longleftrightarrow> list_all item_wf items"
| "item_wf (ClassRange lo hi) \<longleftrightarrow> {lo, hi} \<subseteq> code_points"
| "item_wf (ClassString rs) \<longleftrightarrow> set rs \<subseteq> code_points"
| "item_wf (ClassStringDisjunction alts) \<longleftrightarrow> list_all (\<lambda>a. set a \<subseteq> code_points) alts"
| "item_wf (NestedClass neg s) \<longleftrightarrow> class_wf s"
| "item_wf x \<longleftrightarrow> True"

text \<open>A set the compiler may hold: normalized, within the code space.\<close>

definition good_set :: "charSetV \<Rightarrow> bool" where
  "good_set st \<longleftrightarrow> normal (ranges (cset st)) \<and> rset (ranges (cset st)) \<subseteq> code_points"

text \<open>What the class compiler relies on: the Unicode tables resolve to such sets.\<close>

definition tables_ok :: "unicode_env \<Rightarrow> bool" where
  "tables_ok ue \<longleftrightarrow>
     (\<forall>n v s. resolveProperty ue n v = Inr s \<longrightarrow> normal (ranges s) \<and> rset (ranges s) \<subseteq> code_points) \<and>
     (\<forall>n pos. propertyOfStrings ue n = Some pos \<longrightarrow> good_set pos)"

subsection \<open>String lists\<close>

lemma stringInList_iff: "stringInList xs s \<longleftrightarrow> string_of_runes s \<in> strings_of xs"
  unfolding stringInList_def list_ex_iff strings_of_def image_iff by metis

lemma strings_of_simps [simp]:
  "strings_of [] = {}" "strings_of (s # ss) = insert (string_of_runes s) (strings_of ss)"
  "strings_of (xs @ ys) = strings_of xs \<union> strings_of ys"
  by (auto simp: strings_of_def)

lemma strings_of_concat: "strings_of (concat xss) = \<Union> (set (map strings_of xss))"
  by (induction xss) auto

lemma dedup_from_strings: "strings_of (dedup_from seen ss) \<union> set seen = strings_of ss \<union> set seen"
  by (induction seen ss rule: dedup_from.induct) auto

lemma dedup_from_distinct: "distinct (map string_of_runes (dedup_from seen ss)) \<and>
    set (map string_of_runes (dedup_from seen ss)) \<inter> set seen = {}"
  by (induction seen ss rule: dedup_from.induct) auto

lemma strings_dedup [simp]: "strings_of (dedupStrings ss) = strings_of ss"
  using dedup_from_strings [of "[]" ss] by (simp add: dedupStrings_def)

subsection \<open>Set operations with strings\<close>

lemma foldl_intersect_sets:
  "cset (foldl intersect_sets s ss) = foldl intersect (cset s) (map cset ss)"
  "strings_of (cstrings (foldl intersect_sets s ss)) = strings_of (cstrings s) \<inter> (\<Inter>t \<in> set ss. strings_of (cstrings t))"
proof (induction ss arbitrary: s)
  case (Cons t ss)
  { case 1 show ?case using Cons(1) by (simp add: intersect_sets_def) }
  { case 2
    have "strings_of (cstrings (intersect_sets s t)) = strings_of (cstrings s) \<inter> strings_of (cstrings t)"
      by (auto simp: intersect_sets_def strings_of_def stringInList_iff)
    with Cons(2) [of "intersect_sets s t"] show ?case by auto }
qed simp_all

lemma foldl_subtract_sets:
  "cset (foldl subtract_sets s ss) = foldl subtract (cset s) (map cset ss)"
  "strings_of (cstrings (foldl subtract_sets s ss)) = strings_of (cstrings s) - (\<Union>t \<in> set ss. strings_of (cstrings t))"
proof (induction ss arbitrary: s)
  case (Cons t ss)
  { case 1 show ?case using Cons(1) by (simp add: subtract_sets_def) }
  { case 2
    have "strings_of (cstrings (subtract_sets s t)) = strings_of (cstrings s) - strings_of (cstrings t)"
      by (auto simp: subtract_sets_def strings_of_def stringInList_iff)
    with Cons(2) [of "subtract_sets s t"] show ?case by auto }
qed simp_all

lemma rset_concat: "rset (concat (map f xs)) = (\<Union>x \<in> set xs. rset (f x))"
  by (auto simp: rset_def)

lemma wf_concat: "\<forall>x \<in> set xs. wf_ranges (f x) \<Longrightarrow> wf_ranges (concat (map f xs))"
  by (auto simp: wf_ranges_def list_all_iff)

lemma union_sets_correct:
  assumes "\<forall>s \<in> set ops. good_set s"
  shows "rset (ranges (cset (union_sets ops))) = (\<Union>s \<in> set ops. rset (ranges (cset s)))"
    "good_set (union_sets ops)"
    "strings_of (cstrings (union_sets ops)) = (\<Union>s \<in> set ops. strings_of (cstrings s))"
proof -
  have wf: "wf_ranges (concat (map (\<lambda>s. ranges (cset s)) ops))"
    by (rule wf_concat) (use assms normal_wf in \<open>auto simp: good_set_def\<close>)
  then show "rset (ranges (cset (union_sets ops))) = (\<Union>s \<in> set ops. rset (ranges (cset s)))"
    by (simp add: union_sets_def rset_build rset_concat)
  with wf assms show "good_set (union_sets ops)"
    by (fastforce simp: good_set_def union_sets_def normal_build)
  show "strings_of (cstrings (union_sets ops)) = (\<Union>s \<in> set ops. strings_of (cstrings s))"
    by (auto simp: union_sets_def strings_of_concat)
qed

lemma combine_sets_correct:
  assumes ops: "\<forall>s \<in> set ops. good_set s"
  shows "good_set (combine_sets op ops)"
    "rset (ranges (cset (combine_sets op ops))) = combine op (map (\<lambda>s. rset (ranges (cset s))) ops)"
    "strings_of (cstrings (combine_sets op ops)) = combine op (map (\<lambda>s. strings_of (cstrings s)) ops)"
proof -
  have "good_set (combine_sets op ops) \<and>
    rset (ranges (cset (combine_sets op ops))) = combine op (map (\<lambda>s. rset (ranges (cset s))) ops) \<and>
    strings_of (cstrings (combine_sets op ops)) = combine op (map (\<lambda>s. strings_of (cstrings s)) ops)"
  proof (cases ops)
    case Nil
    then show ?thesis by (simp add: combine_sets_def combine_def good_set_def emptySet_def)
  next
    case (Cons s ss)
    have s: "normal (ranges (cset s))" "\<forall>t \<in> set (map cset ss). normal (ranges t)" "rset (ranges (cset s)) \<subseteq> code_points"
      using ops Cons by (auto simp: good_set_def)
    show ?thesis
    proof (cases op)
      case SetUnion
      then show ?thesis using union_sets_correct [OF ops] Cons by (simp add: combine_sets_def combine_def)
    next
      case SetIntersection
      then show ?thesis
        using runes.foldl_inter [OF s(1), of "map cset ss"] s(3) Cons
        by (auto simp: combine_sets_def combine_def good_set_def foldl_intersect_sets)
    next
      case SetSubtraction
      then show ?thesis
        using runes.foldl_diff [OF s(1,2)] s(3) Cons
        by (auto simp: combine_sets_def combine_def good_set_def foldl_subtract_sets)
    qed
  qed
  then show "good_set (combine_sets op ops)"
    "rset (ranges (cset (combine_sets op ops))) = combine op (map (\<lambda>s. rset (ranges (cset s))) ops)"
    "strings_of (cstrings (combine_sets op ops)) = combine op (map (\<lambda>s. strings_of (cstrings s)) ops)"
    by simp_all
qed

lemma single_set_correct:
  "wf_ranges (sb_ranges b) \<Longrightarrow> rset (sb_ranges b) \<subseteq> code_points \<Longrightarrow>
   good_set (single_set b) \<and> rset (ranges (cset (single_set b))) = rset (sb_ranges b) \<and> cstrings (single_set b) = []"
  by (simp add: single_set_def good_set_def normal_build rset_build)

lemma escape_set_code_points: "escape_set k f \<subseteq> code_points"
  using escape_tables_code_points
  by (cases k) (auto simp: wordCharFold_def isWordChar_def)

lemma string_disjunction_correct:
  "wf_ranges (sb_ranges b) \<Longrightarrow> rset (sb_ranges b) \<subseteq> code_points \<Longrightarrow> list_all (\<lambda>a. set a \<subseteq> code_points) alts \<Longrightarrow>
   good_set (string_disjunction alts b strs) \<and>
   rset (ranges (cset (string_disjunction alts b strs))) = rset (sb_ranges b) \<union> {r. [r] \<in> set alts} \<and>
   strings_of (cstrings (string_disjunction alts b strs)) =
     strings_of strs \<union> strings_of (filter (\<lambda>a. length a \<noteq> 1) alts)"
proof (induction alts arbitrary: b strs)
  case Nil
  then show ?case by (simp add: good_set_def normal_build rset_build)
next
  case (Cons alt alts)
  show ?case
  proof (cases "\<exists>r. alt = [r]")
    case True
    then obtain r where "alt = [r]" by blast
    with Cons show ?thesis by auto
  next
    case False
    then have step: "string_disjunction (alt # alts) b strs = string_disjunction alts b (strs @ [alt])"
      and len: "length alt \<noteq> 1"
      by (auto split: list.splits simp: length_Suc_conv)
    show ?thesis using Cons step len False by auto
  qed
qed

subsection \<open>Compiled classes denote their syntax\<close>

definition denotes :: "charSetV \<Rightarrow> rune set \<Rightarrow> go_string set \<Rightarrow> bool" where
  "denotes st ps ss \<longleftrightarrow> good_set st \<and> rset (ranges (cset st)) = ps \<and> strings_of (cstrings st) = ss"

lemma single_denotes:
  "wf_ranges (sb_ranges b) \<Longrightarrow> rset (sb_ranges b) \<subseteq> code_points \<Longrightarrow> denotes (single_set b) (rset (sb_ranges b)) {}"
  using single_set_correct [of b] by (simp add: denotes_def)

lemma complement_denotes:
  assumes "normal rs" "rset rs \<subseteq> code_points"
  shows "denotes (single_set (addComplement empty_builder rs)) (code_points - rset rs) {}"
proof -
  note c = addComplement_correct [OF normal_wf [OF assms(1)] assms(2), of empty_builder]
  have "denotes (single_set (addComplement empty_builder rs)) (rset (sb_ranges (addComplement empty_builder rs))) {}"
    by (rule single_denotes) (simp_all add: c)
  then show ?thesis by (simp add: c)
qed

lemma property_denotes:
  assumes "tables_ok ue" "operand ue c (ClassProperty name value neg) = Inr st"
  shows "denotes st (item_points ue c (ClassProperty name value neg)) (item_strings ue c (ClassProperty name value neg))"
proof (cases "resolveProperty ue name value")
  case (Inr s)
  then have s: "normal (ranges s)" "rset (ranges s) \<subseteq> code_points" using assms(1) by (auto simp: tables_ok_def)
  show ?thesis using assms(2) Inr complement_denotes [OF s] s
    by (auto simp: denotes_def good_set_def split: if_splits)
next
  case (Inl e)
  then show ?thesis using assms by (auto simp: tables_ok_def denotes_def split: option.splits if_splits)
qed

lemma compileClassSet_denotes:
  "tables_ok ue \<Longrightarrow> class_wf s \<Longrightarrow> compileClassSet ue c s = Inr st \<Longrightarrow>
     denotes st (class_points ue c s) (class_strings ue c s)"
  "tables_ok ue \<Longrightarrow> item_wf x \<Longrightarrow> operand ue c x = Inr st \<Longrightarrow> denotes st (item_points ue c x) (item_strings ue c x)"
  "tables_ok ue \<Longrightarrow> list_all item_wf xs \<Longrightarrow> operands ue c xs = Inr sts \<Longrightarrow>
     (\<forall>st \<in> set sts. good_set st) \<and> map (\<lambda>s. rset (ranges (cset s))) sts = items_points ue c xs \<and>
     map (\<lambda>s. strings_of (cstrings s)) sts = items_strings ue c xs"
proof (induction ue c s and ue c x and ue c xs arbitrary: st and st and sts rule: compileClassSet_operand_operands.induct)
  case (1 ue c op items)
  then show ?case using combine_sets_correct [of _ op] by (auto simp: res_bind_eq_Inr denotes_def)
next
  case (2 ue c l h)
  have "denotes (single_set (addRange empty_builder l h)) (rset (sb_ranges (addRange empty_builder l h))) {}"
    using 2 by (intro single_denotes) auto
  then show ?case using 2 by (auto simp: min_def max_def split: if_splits)
next
  case (3 ue c k)
  have "denotes (single_set (addClassEscape empty_builder k (ic c \<and> cu c)))
      (rset (sb_ranges (addClassEscape empty_builder k (ic c \<and> cu c)))) {}"
    by (intro single_denotes) (simp_all add: addClassEscape_correct escape_set_code_points)
  then show ?case using 3 by (simp add: addClassEscape_correct)
next
  case (4 ue c nm v ng)
  then show ?case using property_denotes by blast
next
  case (5 ue c rs)
  show ?case
  proof (cases "\<exists>r. rs = [r]")
    case True
    then obtain r where r: "rs = [r]" by blast
    have "denotes (single_set (addRune empty_builder r)) (rset (sb_ranges (addRune empty_builder r))) {}"
      using 5 r by (intro single_denotes) auto
    then show ?thesis using 5 r by auto
  next
    case False
    then have "st = \<lparr>cset = emptySet, cstrings = [rs]\<rparr>" "length rs \<noteq> 1"
      using 5(3) by (auto split: list.splits simp: length_Suc_conv)
    then show ?thesis using False by (auto simp: denotes_def good_set_def emptySet_def)
  qed
next
  case (6 ue c alts)
  then show ?case using string_disjunction_correct [of empty_builder alts "[]"] by (auto simp: denotes_def)
next
  case (7 ue c neg s)
  then obtain inner where i: "compileClassSet ue c s = Inr inner" by (auto simp: res_bind_eq_Inr)
  have d: "denotes inner (class_points ue c s) (class_strings ue c s)" using 7 i by simp
  show ?case using 7(4) i d complement_denotes [of "ranges (cset inner)"]
    by (auto simp: denotes_def good_set_def split: if_splits)
next
  case (9 ue c x xs)
  then show ?case by (auto simp: res_bind_eq_Inr denotes_def)
qed auto

subsection \<open>Properties\<close>

text \<open>
  C17: Character classes mean what their syntax says. When the Unicode tables resolve to normalized
  sets of code points and the class mentions code points only, \<open>compileClassSet\<close> returns a
  normalized set whose binary search decides the code points of the class (union, intersection
  and difference of its operands, complement of negated ones) and the strings of the class, with
  no string twice when the class is a union; without the \<open>i\<close> flag the consumer for the class
  therefore accepts exactly the characters of the class, or of its complement when negated.
\<close>

theorem class_denotation:
  assumes "tables_ok ue" "class_wf s" "compileClassSet ue c s = Inr st"
  shows "normal (ranges (cset st)) \<and> (\<forall>r. contains (cset st) r \<longleftrightarrow> r \<in> class_points ue c s) \<and>
    class_points ue c s \<subseteq> code_points \<and> strings_of (cstrings st) = class_strings ue c s \<and>
    (Op s = SetUnion \<longrightarrow> distinct (map string_of_runes (cstrings st))) \<and>
    (\<not> ic c \<longrightarrow> classConsumer ue c (cset st) negate m sp =
       (case readCP c m sp of None \<Rightarrow> None
        | Some (r, next) \<Rightarrow> if (r \<in> class_points ue c s) \<noteq> negate then Some next else None))"
proof -
  have d: "denotes st (class_points ue c s) (class_strings ue c s)"
    by (rule compileClassSet_denotes(1) [OF assms])
  then have n: "normal (ranges (cset st))" "rset (ranges (cset st)) = class_points ue c s"
    by (simp_all add: denotes_def good_set_def)
  have u: "distinct (map string_of_runes (cstrings st))" if op: "Op s = SetUnion"
  proof -
    obtain items ops where "s = ClassSet SetUnion items" "st = combine_sets SetUnion ops"
      using assms(3) op by (cases s) (auto simp: res_bind_eq_Inr)
    then show ?thesis
      using dedup_from_distinct [of "[]"] by (cases ops) (auto simp: combine_sets_def union_sets_def dedupStrings_def)
  qed
  have c: "classConsumer ue c (cset st) negate m sp =
       (case readCP c m sp of None \<Rightarrow> None
        | Some (r, next) \<Rightarrow> if (r \<in> class_points ue c s) \<noteq> negate then Some next else None)" if "\<not> ic c"
    using that classContainsFold_plain [OF n(1), of "udb ue" _ "cu c"] n(2) by (simp add: classConsumer_def split: option.split)
  show ?thesis
    using d u c contains_correct [OF n(1)] n by (auto simp: denotes_def good_set_def)
qed

text \<open>The class \<open>[[a-z]--[aeiou]\q{ch|x}]\<close>, written with the operators the parser produces.\<close>

definition consonants :: ClassSet where
  "consonants = ClassSet SetUnion
     [NestedClass False (ClassSet SetSubtraction [ClassRange 0x61 0x7A, NestedClass False (ClassSet SetUnion
        [ClassRange 0x61 0x61, ClassRange 0x65 0x65, ClassRange 0x69 0x69, ClassRange 0x6F 0x6F, ClassRange 0x75 0x75])]),
      ClassStringDisjunction [[0x63, 0x68], [0x78]]]"

theorem class_denotation_witness:
  "\<exists>st. compileClassSet ascii_env (initial_compiler noFlags []) consonants = Inr st \<and> normal (ranges (cset st)) \<and>
     strings_of (cstrings st) = {str ''ch''} \<and> contains (cset st) 0x62 \<and> \<not> contains (cset st) 0x65"
proof -
  let ?c = "initial_compiler noFlags []"
  have t: "tables_ok ascii_env" by (simp add: tables_ok_def ascii_env_def)
  have w: "class_wf consonants" by (simp add: consonants_def)
  obtain st where st: "compileClassSet ascii_env ?c consonants = Inr st"
    by (simp add: consonants_def)
  have p: "0x62 \<in> class_points ascii_env ?c consonants" "0x65 \<notin> class_points ascii_env ?c consonants"
    "class_strings ascii_env ?c consonants = {str ''ch''}"
    by (auto simp: consonants_def combine_def strings_of_def string_of_runes_def str_def)
  show ?thesis using class_denotation [OF t w st] st p by auto
qed

end
