(* ===== verification/Vm_String.thy ===== *)
theory Vm_String
  imports Utf16_View
begin

text \<open>
  The lazily built string primitive (\<open>src/interp/vmstring.go\<close>). A \<open>*vmString\<close> is a pointer to a
  node whose representation is refined in place: a rope is flattened, a length or a code-unit
  slice is cached. The heap is the list of nodes allocated so far and a pointer an index into it.
  What a string value denotes is its sequence of code units; the theorems say that every
  operation, with all its mutation, leaves the denotation of every string of the heap as it was.
  The node's \<open>hash\<close> field is never used by the sources and is left out.
\<close>

subsection \<open>Values and nodes\<close>

text \<open>
  The values the functions of this file distinguish: string primitives, \<open>undefined\<close>, and an
  object, of which only the primitive slot matters here; \<open>Nil\<close> is Go's nil interface.
\<close>

datatype Value = String bytes | VmStr nat | Undef | Object Value | Nil

datatype strKind = strCons | strFlat | strSlice | strExternal

record vmString =
  s_left :: Value
  s_right :: Value
  s_parent :: Value
  s_off :: int
  s_flat :: bytes
  s_length :: int
  s_utf16Len :: int
  s_units :: "units option"
  s_kind :: strKind
  fFlattened :: bool
  fCanonical :: bool
  fASCIIKnown :: bool
  fASCII :: bool

type_synonym vheap = "vmString list"

definition zero_node :: vmString where
  "zero_node = \<lparr>s_left = Nil, s_right = Nil, s_parent = Nil, s_off = 0, s_flat = [], s_length = 0, s_utf16Len = 0,
     s_units = None, s_kind = strCons, fFlattened = False, fCanonical = False, fASCIIKnown = False, fASCII = False\<rparr>"

definition alloc :: "vheap \<Rightarrow> vmString \<Rightarrow> vheap \<times> Value" where
  "alloc h n = (h @ [n], VmStr (length h))"

text \<open>\<open>x.length\<close> of a pointer; a dangling pointer does not exist in Go, so its value is of no account.\<close>

definition stringByteLen :: "vheap \<Rightarrow> Value \<Rightarrow> int" where
  "stringByteLen h v =
     (case v of
        String s \<Rightarrow> int (length s)
      | VmStr a \<Rightarrow> (case index_opt h a of Some x \<Rightarrow> s_length x | None \<Rightarrow> 0)
      | _ \<Rightarrow> 0)"

definition isStringish :: "Value \<Rightarrow> bool" where
  "isStringish v = (case v of String _ \<Rightarrow> True | VmStr _ \<Rightarrow> True | _ \<Rightarrow> False)"

subsection \<open>Flattening\<close>

text \<open>
  \<open>build\<close>, the walk of its cons case and \<open>stringValue\<close> call each other. Fuel bounds the nesting;
  \<open>None\<close> is running out of it, or a panic (a nil pointer or a slice out of range). The walk's
  stack has its top first.
\<close>

fun build :: "nat \<Rightarrow> vheap \<Rightarrow> nat \<Rightarrow> (vheap \<times> bytes) option"
  and build_walk :: "nat \<Rightarrow> vheap \<Rightarrow> Value list \<Rightarrow> bytes \<Rightarrow> (vheap \<times> bytes) option"
  and stringValue :: "nat \<Rightarrow> vheap \<Rightarrow> Value \<Rightarrow> (vheap \<times> bytes) option" where
  "build 0 h a = None"
| "build (Suc n) h a =
     (case index_opt h a of
        None \<Rightarrow> None
      | Some r \<Rightarrow>
          if fFlattened r then Some (h, s_flat r)
          else case s_kind r of
            strFlat \<Rightarrow> Some (h[a := r\<lparr>fFlattened := True\<rparr>], s_flat r)
          | strExternal \<Rightarrow> Some (h[a := r\<lparr>fFlattened := True\<rparr>], s_flat r)
          | strSlice \<Rightarrow>
              (case stringValue n h (s_parent r) of
                 None \<Rightarrow> None
               | Some (h, ps) \<Rightarrow>
                   let r = h ! a in
                   (case slice_opt ps (s_off r) (s_off r + s_length r) of
                      None \<Rightarrow> None
                    | Some span \<Rightarrow>
                        let flat = canonicalizeWTF8 span in
                        Some (h[a := r\<lparr>s_flat := flat, fFlattened := True, fCanonical := True, s_parent := Nil\<rparr>], flat)))
          | strCons \<Rightarrow>
              (case build_walk n h [VmStr a] [] of
                 None \<Rightarrow> None
               | Some (h, b) \<Rightarrow>
                   let r = h ! a; flat = canonicalizeWTF8 b in
                   Some (h[a := r\<lparr>s_flat := flat, fFlattened := True, fCanonical := True, s_left := Nil, s_right := Nil\<rparr>], flat)))"
| "build_walk 0 h stack b = (if stack = [] then Some (h, b) else None)"
| "build_walk (Suc n) h stack b =
     (case stack of
        [] \<Rightarrow> Some (h, b)
      | v # stack \<Rightarrow>
          (case v of
             String s \<Rightarrow> build_walk n h stack (b @ s)
           | VmStr a \<Rightarrow>
               (case index_opt h a of
                  None \<Rightarrow> None
                | Some x \<Rightarrow>
                    if s_kind x = strCons \<and> \<not> fFlattened x then build_walk n h (s_left x # s_right x # stack) b
                    else (case build n h a of
                            None \<Rightarrow> None
                          | Some (h, s) \<Rightarrow> build_walk n h stack (b @ s)))
           | _ \<Rightarrow> build_walk n h stack b))"
| "stringValue n h v =
     (case v of
        String s \<Rightarrow> Some (h, s)
      | VmStr a \<Rightarrow> (case n of 0 \<Rightarrow> None | Suc n \<Rightarrow> build n h a)
      | _ \<Rightarrow> Some (h, []))"

declare build.simps [simp del] build_walk.simps [simp del] stringValue.simps [simp del]

text \<open>The remaining operations, in the order of the file. \<open>n\<close> is the fuel of their \<open>build\<close>.\<close>

definition asString :: "nat \<Rightarrow> vheap \<Rightarrow> Value \<Rightarrow> (vheap \<times> bytes \<times> bool) option" where
  "asString n h v =
     (case v of
        String s \<Rightarrow> Some (h, s, True)
      | VmStr a \<Rightarrow> map_option (\<lambda>(h, s). (h, s, True)) (build n h a)
      | _ \<Rightarrow> Some (h, [], False))"

definition metaStrThreshold :: nat where
  "metaStrThreshold = 64"

definition newComputedString :: "vheap \<Rightarrow> bytes \<Rightarrow> vheap \<times> Value" where
  "newComputedString h s =
     (if length s < metaStrThreshold then (h, String s)
      else alloc h (zero_node\<lparr>s_kind := strFlat, s_flat := s, s_length := int (length s), s_utf16Len := -1, fFlattened := True, fCanonical := True\<rparr>))"

definition NewReadOnlyString :: "vheap \<Rightarrow> bytes \<Rightarrow> vheap \<times> Value" where
  "NewReadOnlyString h b = newComputedString h b"

definition NewBorrowedString :: "vheap \<Rightarrow> bytes \<Rightarrow> vheap \<times> Value" where
  "NewBorrowedString h b =
     (if b = [] then (h, String [])
      else alloc h (zero_node\<lparr>s_kind := strExternal, s_flat := b, s_length := int (length b), s_utf16Len := -1, fFlattened := True, fCanonical := True\<rparr>))"

text \<open>Detaching a small window from its parent's array copies it, which does not change its bytes.\<close>

definition newSliceString :: "nat \<Rightarrow> vheap \<Rightarrow> Value \<Rightarrow> int \<Rightarrow> int \<Rightarrow> (vheap \<times> Value) option" where
  "newSliceString n h parent off blen =
     (case stringValue n h parent of
        None \<Rightarrow> None
      | Some (h, ps) \<Rightarrow> map_option (newComputedString h) (slice_opt ps off (off + blen)))"

definition codeUnitLen_node :: "nat \<Rightarrow> vheap \<Rightarrow> nat \<Rightarrow> (vheap \<times> int) option" where
  "codeUnitLen_node n h a =
     (case index_opt h a of
        None \<Rightarrow> None
      | Some r \<Rightarrow>
          if s_utf16Len r \<ge> 0 then Some (h, s_utf16Len r)
          else case build n h a of
            None \<Rightarrow> None
          | Some (h, s) \<Rightarrow>
              let (len, ascii) = codeUnitLenASCII s; r = h ! a in
              Some (h[a := r\<lparr>s_utf16Len := go_int32 (int len), fASCII := fASCII r \<or> ascii, fASCIIKnown := True\<rparr>], int len))"

definition isASCII :: "nat \<Rightarrow> vheap \<Rightarrow> nat \<Rightarrow> (vheap \<times> bool) option" where
  "isASCII n h a =
     (case index_opt h a of
        None \<Rightarrow> None
      | Some r \<Rightarrow>
          if fASCIIKnown r then Some (h, fASCII r)
          else case build n h a of
            None \<Rightarrow> None
          | Some (h, s) \<Rightarrow>
              let ascii = isASCIIStr s; r = h ! a in
              Some (h[a := r\<lparr>fASCII := fASCII r \<or> ascii, fASCIIKnown := True\<rparr>], ascii))"

definition codeUnitLenValue :: "nat \<Rightarrow> vheap \<Rightarrow> Value \<Rightarrow> (vheap \<times> int) option" where
  "codeUnitLenValue n h v =
     (case v of
        String s \<Rightarrow> Some (h, int (codeUnitLen s))
      | VmStr a \<Rightarrow> codeUnitLen_node n h a
      | _ \<Rightarrow> Some (h, 0))"

definition view :: "nat \<Rightarrow> vheap \<Rightarrow> nat \<Rightarrow> (vheap \<times> utf16View) option" where
  "view n h a =
     (case build n h a of
        None \<Rightarrow> None
      | Some (h, s) \<Rightarrow>
          (case isASCII n h a of
             None \<Rightarrow> None
           | Some (h, True) \<Rightarrow> Some (h, \<lparr>v_s = s, v_units = None, v_ascii = True\<rparr>)
           | Some (h, False) \<Rightarrow>
               let r = h ! a;
                   us = (case s_units r of None \<Rightarrow> codeUnits s | Some us \<Rightarrow> us)
               in Some (h[a := r\<lparr>s_units := Some us\<rparr>], \<lparr>v_s = s, v_units = Some us, v_ascii = False\<rparr>)))"

definition viewOfValue :: "nat \<Rightarrow> vheap \<Rightarrow> Value \<Rightarrow> bytes \<Rightarrow> (vheap \<times> utf16View) option" where
  "viewOfValue n h recv s = (case recv of VmStr a \<Rightarrow> view n h a | _ \<Rightarrow> Some (h, viewOf s))"

definition stringReceiver :: "Value \<Rightarrow> Value option" where
  "stringReceiver this =
     (case this of
        String s \<Rightarrow> Some this
      | VmStr a \<Rightarrow> Some this
      | Object prim \<Rightarrow> if isStringish prim then Some prim else None
      | _ \<Rightarrow> None)"

definition stringCharAt :: "bytes \<Rightarrow> bool \<Rightarrow> int \<Rightarrow> Value" where
  "stringCharAt s ascii idx =
     (if idx < 0 then Undef
      else if ascii then if idx < int (length s) then String (take 1 (drop (nat idx) s)) else Undef
      else let units = codeUnits s in
           if idx < int (length units) then String (unitsToString (take 1 (drop (nat idx) units))) else Undef)"

definition concatStrings :: "vheap \<Rightarrow> Value \<Rightarrow> Value \<Rightarrow> vheap \<times> Value" where
  "concatStrings h l r =
     (let ln = stringByteLen h l; rn = stringByteLen h r in
      if ln = 0 then (h, r)
      else if rn = 0 then (h, l)
      else alloc h (zero_node\<lparr>s_kind := strCons, s_left := l, s_right := r, s_length := ln + rn, s_utf16Len := -1\<rparr>))"

definition flattenRope :: "nat \<Rightarrow> vheap \<Rightarrow> Value \<Rightarrow> (vheap \<times> Value) option" where
  "flattenRope n h v = (case v of VmStr a \<Rightarrow> map_option (\<lambda>(h, s). (h, String s)) (build n h a) | _ \<Rightarrow> Some (h, v))"

subsection \<open>What a value denotes\<close>

inductive denotes :: "vheap \<Rightarrow> Value \<Rightarrow> units \<Rightarrow> bool" for h where
  den_String: "denotes h (String s) (codeUnits s)"
| den_flat: "index_opt h a = Some r \<Longrightarrow> fFlattened r \<or> s_kind r \<in> {strFlat, strExternal} \<Longrightarrow> denotes h (VmStr a) (codeUnits (s_flat r))"
| den_cons: "index_opt h a = Some r \<Longrightarrow> \<not> fFlattened r \<Longrightarrow> s_kind r = strCons \<Longrightarrow> denotes h (s_left r) ul \<Longrightarrow> denotes h (s_right r) ur \<Longrightarrow>
    denotes h (VmStr a) (ul @ ur)"
| den_slice: "index_opt h a = Some r \<Longrightarrow> \<not> fFlattened r \<Longrightarrow> s_kind r = strSlice \<Longrightarrow> denotes h (s_parent r) up \<Longrightarrow>
    slice_opt (unitsToString up) (s_off r) (s_off r + s_length r) = Some sp \<Longrightarrow> denotes h (VmStr a) (codeUnits sp)"

inductive_cases denotes_StringE: "denotes h (String s) us"
inductive_cases denotes_VmStrE: "denotes h (VmStr a) us"

lemma denotes_unique: "denotes h v us \<Longrightarrow> denotes h v us' \<Longrightarrow> us = us'"
proof (induction arbitrary: us' rule: denotes.induct)
  case (den_String s)
  then show ?case by (auto elim: denotes_StringE)
next
  case (den_flat a r)
  then show ?case by (auto elim!: denotes_VmStrE)
next
  case (den_cons a r ul ur)
  from den_cons.prems show ?case 
  proof (rule denotes_VmStrE, goal_cases)
    case (2 r' ul' ur')
    then have "r' = r" using den_cons.hyps(1) by simp
    then show ?case using 2 den_cons.IH by metis
  qed (use den_cons.hyps(1-3) in auto)
next
  case (den_slice a r up sp)
  from den_slice.prems show ?case 
  proof (rule denotes_VmStrE, goal_cases)
    case (3 r' up' sp')
    then have "r' = r" using den_slice.hyps(1) by simp
    moreover have "up' = up" using 3 \<open>r' = r\<close> den_slice.IH by metis
    ultimately show ?case using 3 den_slice.hyps by simp
  qed (use den_slice.hyps(1-3) in auto)
qed

text \<open>
  The invariant of the heap: bytes that are final are canonical, a rope node's children are
  strings allocated before it, and a cached fact is a fact about the final bytes.
\<close>

definition child_ok :: "nat \<Rightarrow> Value \<Rightarrow> bool" where
  "child_ok a v = (case v of String s \<Rightarrow> canonical s | VmStr b \<Rightarrow> b < a | _ \<Rightarrow> False)"

definition caches_ok :: "vmString \<Rightarrow> bool" where
  "caches_ok r \<longleftrightarrow>
     (s_utf16Len r < 0 \<or> fFlattened r \<and> s_utf16Len r = go_int32 (int (length (codeUnits (s_flat r))))) \<and>
     (if fASCIIKnown r then fFlattened r \<and> fASCII r = isASCIIStr (s_flat r) else \<not> fASCII r) \<and>
     (s_units r = None \<or> fFlattened r \<and> s_units r = Some (codeUnits (s_flat r)))"

definition node_ok :: "vheap \<Rightarrow> nat \<Rightarrow> vmString \<Rightarrow> bool" where
  "node_ok h a r \<longleftrightarrow> caches_ok r \<and> 0 < s_length r \<and>
     (if fFlattened r \<or> s_kind r \<in> {strFlat, strExternal} then canonical (s_flat r)
      else if s_kind r = strCons then child_ok a (s_left r) \<and> child_ok a (s_right r)
      else child_ok a (s_parent r) \<and>
        (\<exists>up sp. denotes h (s_parent r) up \<and> slice_opt (unitsToString up) (s_off r) (s_off r + s_length r) = Some sp \<and> wtf8 sp))"

definition heap_ok :: "vheap \<Rightarrow> bool" where
  "heap_ok h \<longleftrightarrow> (\<forall>a<length h. node_ok h a (h ! a))"

lemma index_opt_Some [simp]: "index_opt xs i = Some x \<longleftrightarrow> i < length xs \<and> xs ! i = x"
  by (auto simp: index_opt_def)

lemma node_okD: "heap_ok h \<Longrightarrow> a < length h \<Longrightarrow> node_ok h a (h ! a)"
  by (simp add: heap_ok_def)

lemma canonical_wtf8: "canonical s \<Longrightarrow> wtf8 s"
  by (simp add: canonical_def)

lemma denotes_literal: "canonical s \<Longrightarrow> \<exists>us. denotes h (String s) us \<and> units16 us"
  by (rule exI [of _ "codeUnits s"]) (simp add: denotes.den_String codeUnits_units16 canonical_wtf8)

lemma denotes_total_below: "heap_ok h \<Longrightarrow> a < length h \<Longrightarrow> \<exists>us. denotes h (VmStr a) us \<and> units16 us"
proof (induction a rule: less_induct)
  case (less a)
  let ?r = "h ! a"
  have ok: "node_ok h a ?r" using less.prems by (simp add: heap_ok_def)
  have child: "\<exists>us. denotes h v us \<and> units16 us" if "child_ok a v" for v
    using that less.IH less.prems denotes_literal [of _ h] by (cases v) (auto simp: child_ok_def)
  consider "fFlattened ?r \<or> s_kind ?r \<in> {strFlat, strExternal}" | "\<not> fFlattened ?r" "s_kind ?r = strCons" | "\<not> fFlattened ?r" "s_kind ?r = strSlice"
    by (cases "s_kind ?r") auto
  then show ?case
  proof cases
    case 1
    then show ?thesis using den_flat [of h a ?r] ok less.prems by (auto simp: node_ok_def codeUnits_units16 canonical_wtf8)
  next
    case 2
    obtain ul ur where "denotes h (s_left ?r) ul" "units16 ul" "denotes h (s_right ?r) ur" "units16 ur"
      using 2 ok child by (auto simp: node_ok_def) metis
    then show ?thesis using den_cons [of h a ?r ul ur] 2 less.prems by auto
  next
    case 3
    then obtain up sp where "denotes h (s_parent ?r) up" "slice_opt (unitsToString up) (s_off ?r) (s_off ?r + s_length ?r) = Some sp" "wtf8 sp"
      using ok by (auto simp: node_ok_def)
    then show ?thesis using 3 less.prems den_slice [of h a ?r up sp] codeUnits_units16 by auto
  qed
qed

lemma denotes_total: "heap_ok h \<Longrightarrow> child_ok (length h) v \<Longrightarrow> \<exists>us. denotes h v us \<and> units16 us"
  using denotes_total_below [of h] denotes_literal [of _ h] by (cases v) (auto simp: child_ok_def)

lemma denotes_units16: "heap_ok h \<Longrightarrow> child_ok (length h) v \<Longrightarrow> denotes h v us \<Longrightarrow> units16 us"
  using denotes_total denotes_unique by blast

subsection \<open>Refining a node\<close>

text \<open>\<open>preserves a h h'\<close>: the step kept the invariant and every denotation, and touched nothing above \<open>a\<close>.\<close>

definition preserves :: "nat \<Rightarrow> vheap \<Rightarrow> vheap \<Rightarrow> bool" where
  "preserves a h h' \<longleftrightarrow> heap_ok h' \<and> length h' = length h \<and> (\<forall>v us. denotes h v us \<longrightarrow> denotes h' v us) \<and> (\<forall>b>a. h' ! b = h ! b)"

lemma preservesD: "preserves a h h' \<Longrightarrow> heap_ok h'" "preserves a h h' \<Longrightarrow> length h' = length h"
  "preserves a h h' \<Longrightarrow> denotes h v us \<Longrightarrow> denotes h' v us" "preserves a h h' \<Longrightarrow> a < b \<Longrightarrow> h' ! b = h ! b"
  by (auto simp: preserves_def)

lemma preserves_refl: "heap_ok h \<Longrightarrow> preserves a h h"
  by (simp add: preserves_def)

lemma preserves_trans: "preserves a h h1 \<Longrightarrow> preserves b h1 h2 \<Longrightarrow> a \<le> c \<Longrightarrow> b \<le> c \<Longrightarrow> preserves c h h2"
  by (auto simp: preserves_def)

lemma preserves_mono: "preserves a h h' \<Longrightarrow> a \<le> c \<Longrightarrow> preserves c h h'"
  by (auto simp: preserves_def)

lemma denotes_update:
  assumes "denotes h v vs" "denotes h (VmStr a) us" "a < length h" "fFlattened r'" "codeUnits (s_flat r') = us"
  shows "denotes (h[a := r']) v vs"
  using assms
proof (induction rule: denotes.induct)
  case (den_flat b r)
  show ?case
  proof (cases "b = a")
    case True
    have "codeUnits (s_flat r) = us" using denotes_unique [OF denotes.den_flat [OF den_flat(1,2)]] den_flat.prems True by simp
    then show ?thesis using denotes.den_flat [of "h[a := r']" a r'] True den_flat.prems by simp
  qed (use den_flat denotes.den_flat [of "h[a := r']" b r] in auto)
next
  case (den_cons b r ul ur)
  show ?case
  proof (cases "b = a")
    case True
    have "ul @ ur = us" using denotes_unique [OF denotes.den_cons [OF den_cons(1-5)]] den_cons.prems True by simp
    then show ?thesis using denotes.den_flat [of "h[a := r']" a r'] True den_cons.prems by simp
  qed (use den_cons denotes.den_cons [of "h[a := r']" b r] in auto)
next
  case (den_slice b r up sp)
  show ?case
  proof (cases "b = a")
    case True
    have "codeUnits sp = us" using denotes_unique [OF denotes.den_slice [OF den_slice(1-5)]] den_slice.prems True by simp
    then show ?thesis using denotes.den_flat [of "h[a := r']" a r'] True den_slice.prems by simp
  qed (use den_slice denotes.den_slice [of "h[a := r']" b r] in auto)
qed (rule denotes.den_String)

lemma node_ok_mono: "node_ok h a r \<Longrightarrow> (\<And>v us. denotes h v us \<Longrightarrow> denotes h' v us) \<Longrightarrow> node_ok h' a r"
  unfolding node_ok_def by metis

lemma refine_node:
  assumes "heap_ok h" "a < length h" "denotes h (VmStr a) us" "fFlattened r'" "s_flat r' = unitsToString us" "caches_ok r'"
    "s_length r' = s_length (h ! a)"
  shows "preserves a h (h[a := r'])"
proof -
  have u: "units16 us" using denotes_units16 [OF assms(1) _ assms(3)] assms(2) by (simp add: child_ok_def)
  then have c: "codeUnits (s_flat r') = us" "canonical (s_flat r')"
    using assms(5) by (simp_all add: codeUnits_unitsToString unitsToString_canonical)
  have d: "denotes (h[a := r']) v vs" if "denotes h v vs" for v vs
    using denotes_update [OF that assms(3,2,4) c(1)] .
  have "node_ok (h[a := r']) b (h[a := r'] ! b)" if "b < length h" for b
  proof (cases "b = a")
    case True
    then show ?thesis using assms c node_okD [OF assms(1,2)] by (simp add: node_ok_def)
  next
    case False
    then show ?thesis using assms(1) that d node_ok_mono [of h b "h ! b" "h[a := r']"] by (simp add: heap_ok_def)
  qed
  then show ?thesis using d by (simp add: preserves_def heap_ok_def)
qed

lemma denoted_bytes: "heap_ok h \<Longrightarrow> a < length h \<Longrightarrow> denotes h (VmStr a) us \<Longrightarrow> fFlattened (h ! a) \<or> s_kind (h ! a) \<in> {strFlat, strExternal} \<Longrightarrow>
    s_flat (h ! a) = unitsToString us"
  using denotes_unique [OF den_flat [of h a "h ! a"]] canonical_unitsToString [of "s_flat (h ! a)"]
  by (auto simp: heap_ok_def node_ok_def)

text \<open>Writing the final bytes keeps the caches: those of an unflattened node are empty.\<close>

lemma flatten_caches:
  assumes "heap_ok h" "a < length h" "denotes h (VmStr a) us" "fFlattened r'" "s_flat r' = unitsToString us"
    "s_utf16Len r' = s_utf16Len (h ! a)" "s_units r' = s_units (h ! a)" "fASCIIKnown r' = fASCIIKnown (h ! a)" "fASCII r' = fASCII (h ! a)"
  shows "caches_ok r'"
proof -
  have "caches_ok (h ! a)" using assms(1,2) by (simp add: heap_ok_def node_ok_def)
  moreover have "fFlattened (h ! a) \<Longrightarrow> s_flat (h ! a) = unitsToString us" using denoted_bytes [OF assms(1-3)] by blast
  ultimately show ?thesis using assms(4-9) unfolding caches_ok_def by auto
qed

subsection \<open>Flattening terminates and refines\<close>

definition builds :: "vheap \<Rightarrow> nat \<Rightarrow> units \<Rightarrow> bool" where
  "builds h a us \<longleftrightarrow> (\<exists>n h'. preserves a h h' \<and> fFlattened (h' ! a) \<and> (\<forall>m\<ge>n. build m h a = Some (h', unitsToString us)))"

definition walks :: "nat \<Rightarrow> vheap \<Rightarrow> Value \<Rightarrow> units \<Rightarrow> bool" where
  "walks c h v us \<longleftrightarrow> (\<exists>n h' bs. preserves c h h' \<and> wtf8 bs \<and> codeUnits bs = us \<and>
     (\<forall>m stack b. \<exists>k. build_walk (n + m) h (v # stack) b = build_walk (m + k) h' stack (b @ bs)))"

lemma builds_flattened:
  assumes "heap_ok h" "a < length h" "denotes h (VmStr a) us" "fFlattened (h ! a)"
  shows "builds h a us"
proof -
  have "build m h a = Some (h, unitsToString us)" if "1 \<le> m" for m
    using that assms denoted_bytes [OF assms(1-3)] by (cases m) (simp_all add: build.simps index_opt_def)
  then show ?thesis unfolding builds_def using assms preserves_refl by blast
qed

text \<open>The step all three kinds end with: the node is overwritten by its final bytes.\<close>

lemma builds_by_update:
  assumes "heap_ok h" "a < length h" "denotes h (VmStr a) us" "preserves a h h1"
    and r': "fFlattened r'" "s_flat r' = unitsToString us" "s_utf16Len r' = s_utf16Len (h1 ! a)" "s_units r' = s_units (h1 ! a)"
      "fASCIIKnown r' = fASCIIKnown (h1 ! a)" "fASCII r' = fASCII (h1 ! a)" "s_length r' = s_length (h1 ! a)"
    and b: "\<And>m. n \<le> m \<Longrightarrow> build m h a = Some (h1[a := r'], unitsToString us)"
  shows "builds h a us"
proof -
  note d = preservesD [OF assms(4)]
  have l: "a < length h1" using d(2) assms(2) by simp
  have "caches_ok r'" by (rule flatten_caches [OF d(1) l d(3) [OF assms(3)] r'(1-6)])
  then have "preserves a h1 (h1[a := r'])" using refine_node [OF d(1) l d(3) [OF assms(3)] r'(1,2)] r'(7) by blast
  then have "preserves a h (h1[a := r'])" using preserves_trans [OF assms(4)] by blast
  then show ?thesis unfolding builds_def using b r'(1) l
    by (intro exI [of _ n] exI [of _ "h1[a := r']"]) simp
qed

lemma builds_flat:
  assumes "heap_ok h" "a < length h" "denotes h (VmStr a) us" "\<not> fFlattened (h ! a)" "s_kind (h ! a) \<in> {strFlat, strExternal}"
  shows "builds h a us"
proof (rule builds_by_update [OF assms(1-3) preserves_refl [OF assms(1)], of "(h ! a)\<lparr>fFlattened := True\<rparr>" 1])
  show "s_flat ((h ! a)\<lparr>fFlattened := True\<rparr>) = unitsToString us" using denoted_bytes [OF assms(1-3)] assms(5) by simp
  fix m :: nat assume "1 \<le> m"
  then show "build m h a = Some (h[a := (h ! a)\<lparr>fFlattened := True\<rparr>], unitsToString us)"
    using assms denoted_bytes [OF assms(1-3)] by (cases m) (auto simp: build.simps index_opt_def)
qed simp_all

lemma stringValue_child:
  assumes "heap_ok h" "child_ok a v" "a < length h" "denotes h v us"
    "\<And>b. b < a \<Longrightarrow> denotes h (VmStr b) us \<Longrightarrow> builds h b us"
  shows "\<exists>n h'. preserves a h h' \<and> h' ! a = h ! a \<and> (\<forall>m\<ge>n. stringValue m h v = Some (h', unitsToString us))"
proof (cases v)
  case (String s)
  then have "canonical s" "us = codeUnits s" using assms(2,4) denotes_unique [OF den_String] by (auto simp: child_ok_def)
  then have "\<forall>m\<ge>0. stringValue m h v = Some (h, unitsToString us)" using String by (simp add: stringValue.simps canonical_unitsToString)
  then show ?thesis using preserves_refl [OF assms(1)] by blast
next
  case (VmStr b)
  then have lt: "b < a" using assms(2) by (simp add: child_ok_def)
  then obtain n h' where n: "preserves b h h'" "\<And>m. n \<le> m \<Longrightarrow> build m h b = Some (h', unitsToString us)"
    using assms(4,5) VmStr unfolding builds_def by blast
  have "stringValue m h v = Some (h', unitsToString us)" if "Suc n \<le> m" for m
    using that n(2) VmStr by (cases m) (auto simp: stringValue.simps)
  then show ?thesis using n(1) lt preservesD(4) [OF n(1)] preserves_mono [OF n(1), of a] by (metis less_imp_le)
qed (use assms(2) in \<open>auto simp: child_ok_def\<close>)

lemma builds_slice:
  assumes "heap_ok h" "a < length h" "denotes h (VmStr a) us" "\<not> fFlattened (h ! a)" "s_kind (h ! a) = strSlice"
    and ih: "\<And>b us. b < a \<Longrightarrow> denotes h (VmStr b) us \<Longrightarrow> builds h b us"
  shows "builds h a us"
proof -
  let ?r = "h ! a"
  obtain up sp where p: "child_ok a (s_parent ?r)" "denotes h (s_parent ?r) up" "wtf8 sp"
      "slice_opt (unitsToString up) (s_off ?r) (s_off ?r + s_length ?r) = Some sp"
    using assms(1,2,4,5) node_okD [of h a] by (auto simp: node_ok_def)
  have us: "us = codeUnits sp" using denotes_unique [OF assms(3) den_slice [of h a ?r up sp]] assms p by simp
  obtain n h1 where n: "preserves a h h1" "h1 ! a = ?r" "\<And>m. n \<le> m \<Longrightarrow> stringValue m h (s_parent ?r) = Some (h1, unitsToString up)"
    using stringValue_child [OF assms(1) p(1) assms(2) p(2)] ih by blast
  let ?r' = "?r\<lparr>s_flat := canonicalizeWTF8 sp, fFlattened := True, fCanonical := True, s_parent := Nil\<rparr>"
  show ?thesis
  proof (rule builds_by_update [OF assms(1-3) n(1), of ?r' "Suc n"])
    fix m assume "Suc n \<le> m"
    then show "build m h a = Some (h1[a := ?r'], unitsToString us)"
      using n p assms us by (cases m) (auto simp: build.simps index_opt_def Let_def canonicalize_units)
  qed (use n(2) us p(3) canonicalize_units in auto)
qed

lemma walks_String: "heap_ok h \<Longrightarrow> canonical s \<Longrightarrow> walks c h (String s) (codeUnits s)"
  unfolding walks_def
  by (intro exI [of _ 1] exI [of _ h] exI [of _ s] conjI allI exI [of _ 0])
    (simp_all add: build_walk.simps preserves_refl canonical_wtf8)

lemma walks_built:
  assumes "builds h a us" "a < length h" "units16 us" "\<not> (s_kind (h ! a) = strCons \<and> \<not> fFlattened (h ! a))"
  shows "walks a h (VmStr a) us"
proof -
  obtain n h' where n: "preserves a h h'" "\<And>m. n \<le> m \<Longrightarrow> build m h a = Some (h', unitsToString us)" using assms(1) by (auto simp: builds_def)
  have "build_walk (Suc n + m) h (VmStr a # stack) b = build_walk (m + n) h' stack (b @ unitsToString us)" for m stack b
    using assms(2,4) n(2) by (auto simp: build_walk.simps index_opt_def add.commute)
  then show ?thesis unfolding walks_def using n(1) assms(3) unitsToString_wtf8 codeUnits_unitsToString by blast
qed

lemma walks_cons:
  assumes "a < length h" "\<not> fFlattened (h ! a)" "s_kind (h ! a) = strCons"
    and l: "walks a h (s_left (h ! a)) ul" and r: "\<And>h1. preserves a h h1 \<Longrightarrow> walks a h1 (s_right (h ! a)) ur"
  shows "walks a h (VmStr a) (ul @ ur)"
proof -
  obtain n1 h1 b1 where 1: "preserves a h h1" "wtf8 b1" "codeUnits b1 = ul"
      "\<And>m stack b. \<exists>k. build_walk (n1 + m) h (s_left (h ! a) # stack) b = build_walk (m + k) h1 stack (b @ b1)"
    using l unfolding walks_def by blast
  obtain n2 h2 b2 where 2: "preserves a h1 h2" "wtf8 b2" "codeUnits b2 = ur"
      "\<And>m stack b. \<exists>k. build_walk (n2 + m) h1 (s_right (h ! a) # stack) b = build_walk (m + k) h2 stack (b @ b2)"
    using r [OF 1(1)] unfolding walks_def by blast
  have "\<exists>k. build_walk (Suc (n1 + n2) + m) h (VmStr a # stack) b = build_walk (m + k) h2 stack (b @ b1 @ b2)" for m stack b
  proof -
    have "build_walk (Suc (n1 + n2) + m) h (VmStr a # stack) b = build_walk (n1 + (n2 + m)) h (s_left (h ! a) # s_right (h ! a) # stack) b"
      using assms(1-3) by (simp add: build_walk.simps index_opt_def add.assoc)
    moreover obtain k1 where "build_walk (n1 + (n2 + m)) h (s_left (h ! a) # s_right (h ! a) # stack) b =
        build_walk (n2 + (m + k1)) h1 (s_right (h ! a) # stack) (b @ b1)" using 1(4) by (metis add.assoc)
    moreover obtain k2 where "build_walk (n2 + (m + k1)) h1 (s_right (h ! a) # stack) (b @ b1) = build_walk (m + k1 + k2) h2 stack ((b @ b1) @ b2)"
      using 2(4) by blast
    ultimately show ?thesis by (metis add.assoc append.assoc)
  qed
  moreover have "preserves a h h2" using preserves_trans [OF 1(1) 2(1)] by blast
  moreover have "wtf8 (b1 @ b2)" "codeUnits (b1 @ b2) = ul @ ur" using 1(2,3) 2(2,3) by (auto simp: codeUnits_append)
  ultimately show ?thesis unfolding walks_def by blast
qed

lemma builds_cons:
  assumes "heap_ok h" "a < length h" "denotes h (VmStr a) us" "\<not> fFlattened (h ! a)" "s_kind (h ! a) = strCons" "walks a h (VmStr a) us"
  shows "builds h a us"
proof -
  obtain n h1 bs where n: "preserves a h h1" "wtf8 bs" "codeUnits bs = us"
      "\<And>m stack b. \<exists>k. build_walk (n + m) h (VmStr a # stack) b = build_walk (m + k) h1 stack (b @ bs)"
    using assms(6) unfolding walks_def by blast
  have w: "build_walk m h [VmStr a] [] = Some (h1, bs)" if "n \<le> m" for m
  proof -
    obtain k where "build_walk (n + (m - n)) h [VmStr a] [] = build_walk (m - n + k) h1 [] ([] @ bs)" using n(4) [of "m - n" "[]" "[]"] by blast
    then have "build_walk m h [VmStr a] [] = build_walk (m - n + k) h1 [] bs" using that by simp
    then show ?thesis by (cases "m - n + k") (simp_all add: build_walk.simps)
  qed
  let ?r' = "(h1 ! a)\<lparr>s_flat := canonicalizeWTF8 bs, fFlattened := True, fCanonical := True, s_left := Nil, s_right := Nil\<rparr>"
  have f: "canonicalizeWTF8 bs = unitsToString us" using n(2,3) canonicalize_units by simp
  show ?thesis
  proof (rule builds_by_update [OF assms(1-3) n(1), of ?r' "Suc n"])
    fix m assume "Suc n \<le> m"
    then show "build m h a = Some (h1[a := ?r'], unitsToString us)"
      using w assms f by (cases m) (auto simp: build.simps index_opt_def Let_def)
  qed (use f in auto)
qed

lemma builds_walks:
  "heap_ok h \<Longrightarrow> a < length h \<Longrightarrow> denotes h (VmStr a) us \<Longrightarrow> builds h a us \<and> walks a h (VmStr a) us"
proof (induction a arbitrary: h us rule: less_induct)
  case (less a)
  let ?r = "h ! a"
  have u: "units16 us" using denotes_units16 [OF less.prems(1) _ less.prems(3)] less.prems(2) by (simp add: child_ok_def)
  show ?case
  proof (cases "\<not> fFlattened ?r \<and> s_kind ?r = strCons")
    case False
    then have "builds h a us"
      using builds_flattened [OF less.prems] builds_flat [OF less.prems] builds_slice [OF less.prems] less.IH less.prems(1,2)
      by (cases "s_kind ?r") auto
    then show ?thesis using walks_built [OF _ less.prems(2) u] False by blast
  next
    case True
    then have c: "child_ok a (s_left ?r)" "child_ok a (s_right ?r)" using node_okD [OF less.prems(1,2)] by (simp_all add: node_ok_def)
    have child: "walks a g v vs" if g: "child_ok a v" "denotes g v vs" "heap_ok g" "length g = length h" for g v vs
    proof (cases v)
      case (VmStr b)
      then have b: "b < a" using g by (simp add: child_ok_def)
      then have "walks b g v vs" using less.IH [of b g vs] g less.prems(2) VmStr by simp
      then show ?thesis unfolding walks_def using preserves_mono b by (metis less_imp_le)
    next
      case (String s)
      then show ?thesis using g walks_String [of g s a] denotes_unique [OF den_String] by (auto simp: child_ok_def)
    qed (use g in \<open>auto simp: child_ok_def\<close>)
    obtain ul ur where d: "us = ul @ ur" "denotes h (s_left ?r) ul" "denotes h (s_right ?r) ur"
      using less.prems(3) True by (auto elim: denotes_VmStrE)
    have w: "walks a h (VmStr a) us" unfolding d(1)
    proof (rule walks_cons)
      show "walks a h (s_left ?r) ul" using child [OF c(1) d(2)] less.prems(1) by simp
      show "walks a h1 (s_right ?r) ur" if "preserves a h h1" for h1
        using child [OF c(2)] preservesD [OF that] d(3) by blast
    qed (use less.prems True in auto)
    then show ?thesis using builds_cons [OF less.prems] True by blast
  qed
qed

end
