(* ===== verification/Vm_String_Facts.thy ===== *)
theory Vm_String_Facts
  imports Vm_String
begin

text \<open>
  What the string primitive promises: flattening ends and yields the canonical bytes of the
  denoted code units, concatenation denotes concatenation, cached metadata is what a fresh scan
  would compute, and none of it changes the meaning of any other string.
\<close>

subsection \<open>Growing the heap\<close>

definition keeps :: "vheap \<Rightarrow> vheap \<Rightarrow> bool" where
  "keeps h h' \<longleftrightarrow> heap_ok h' \<and> length h \<le> length h' \<and> (\<forall>v us. denotes h v us \<longrightarrow> denotes h' v us)"

lemma keeps_refl: "heap_ok h \<Longrightarrow> keeps h h"
  by (simp add: keeps_def)

lemma keeps_trans: "keeps h h1 \<Longrightarrow> keeps h1 h2 \<Longrightarrow> keeps h h2"
  by (auto simp: keeps_def)

lemma preserves_keeps: "preserves a h h' \<Longrightarrow> keeps h h'"
  by (simp add: preserves_def keeps_def)

lemma child_ok_mono: "child_ok a v \<Longrightarrow> a \<le> b \<Longrightarrow> child_ok b v"
  by (auto simp: child_ok_def split: Value.splits)

lemma keeps_child: "keeps h h' \<Longrightarrow> child_ok (length h) v \<Longrightarrow> child_ok (length h') v"
  using child_ok_mono by (auto simp: keeps_def)

lemma denotes_grow: "denotes h v us \<Longrightarrow> denotes (h @ [n]) v us"
proof (induction rule: denotes.induct)
  case (den_flat a r)
  then show ?case by (intro denotes.den_flat) (auto simp: nth_append)
next
  case (den_cons a r ul ur)
  then show ?case by (intro denotes.den_cons [of _ a r]) (auto simp: nth_append)
next
  case (den_slice a r up sp)
  then show ?case by (intro denotes.den_slice [of _ a r up]) (auto simp: nth_append)
qed (rule denotes.den_String)

lemma alloc_keeps:
  assumes "heap_ok h" "node_ok (h @ [n]) (length h) n"
  shows "keeps h (h @ [n])"
proof -
  have "node_ok (h @ [n]) a ((h @ [n]) ! a)" if "a < length h" for a
    using node_ok_mono [OF node_okD [OF assms(1) that]] denotes_grow that by (simp add: nth_append)
  then have "heap_ok (h @ [n])" using assms(2) by (auto simp: heap_ok_def nth_append less_Suc_eq)
  then show ?thesis using denotes_grow by (simp add: keeps_def)
qed

text \<open>A string value of the heap, and what an operation that returns one promises.\<close>

abbreviation valid :: "vheap \<Rightarrow> Value \<Rightarrow> bool" where
  "valid h v \<equiv> child_ok (length h) v"

definition yields :: "vheap \<Rightarrow> vheap \<times> Value \<Rightarrow> units \<Rightarrow> bool" where
  "yields h res us \<longleftrightarrow> keeps h (fst res) \<and> valid (fst res) (snd res) \<and> denotes (fst res) (snd res) us"

lemma fresh_caches: "s_utf16Len n = -1 \<Longrightarrow> s_units n = None \<Longrightarrow> \<not> fASCIIKnown n \<Longrightarrow> \<not> fASCII n \<Longrightarrow> caches_ok n"
  by (simp add: caches_ok_def)

lemma alloc_flat_yields:
  assumes "heap_ok h" "canonical (s_flat n)" "fFlattened n" "caches_ok n" "0 < s_length n"
  shows "yields h (alloc h n) (codeUnits (s_flat n))"
proof -
  have "keeps h (h @ [n])" using assms by (intro alloc_keeps) (simp_all add: node_ok_def)
  moreover have "denotes (h @ [n]) (VmStr (length h)) (codeUnits (s_flat n))" using assms(3) by (intro den_flat) simp_all
  ultimately show ?thesis by (simp add: yields_def alloc_def child_ok_def)
qed

lemma literal_yields: "heap_ok h \<Longrightarrow> canonical s \<Longrightarrow> yields h (h, String s) (codeUnits s)"
  by (simp add: yields_def keeps_refl child_ok_def denotes.den_String)

lemma newComputedString_yields: "heap_ok h \<Longrightarrow> canonical s \<Longrightarrow> yields h (newComputedString h s) (codeUnits s)"
  using alloc_flat_yields [of h "zero_node\<lparr>s_kind := strFlat, s_flat := s, s_length := int (length s), s_utf16Len := -1, fFlattened := True, fCanonical := True\<rparr>"]
  by (cases "s = []") (auto simp: newComputedString_def metaStrThreshold_def literal_yields fresh_caches zero_node_def)

lemma canonical_Nil: "canonical []"
  by (simp add: canonical_def canonicalizeWTF8_def)

lemma codeUnits_Nil [simp]: "codeUnits [] = []"
  by (simp add: codeUnits_unit_loop)

lemma den_empty: "denotes h (String []) []"
  using den_String [of h "[]"] by simp

lemma NewBorrowedString_yields: "heap_ok h \<Longrightarrow> canonical s \<Longrightarrow> yields h (NewBorrowedString h s) (codeUnits s)"
  using alloc_flat_yields [of h "zero_node\<lparr>s_kind := strExternal, s_flat := s, s_length := int (length s), s_utf16Len := -1, fFlattened := True, fCanonical := True\<rparr>"]
  by (cases "s = []") (use literal_yields [OF _ canonical_Nil] in \<open>auto simp: NewBorrowedString_def fresh_caches zero_node_def\<close>)

subsection \<open>Concatenation\<close>

lemma byte_len_pos: "heap_ok h \<Longrightarrow> valid h v \<Longrightarrow> 0 \<le> stringByteLen h v \<and> (stringByteLen h v = 0 \<longrightarrow> v = String [])"
  using node_okD [of h] by (cases v) (auto simp: child_ok_def stringByteLen_def index_opt_def node_ok_def less_imp_le, fastforce)

lemma concatStrings_yields:
  assumes "heap_ok h" "valid h l" "valid h r" "denotes h l ul" "denotes h r ur"
  shows "yields h (concatStrings h l r) (ul @ ur)"
proof -
  note len = byte_len_pos [OF assms(1,2)] byte_len_pos [OF assms(1,3)]
  show ?thesis
  proof (cases "stringByteLen h l = 0 \<or> stringByteLen h r = 0")
    case True
    then have "(ul = [] \<and> concatStrings h l r = (h, r)) \<or> (ur = [] \<and> concatStrings h l r = (h, l))"
      using len assms(4,5) denotes_unique [OF _ den_empty] by (auto simp: concatStrings_def Let_def)
    then show ?thesis using assms keeps_refl by (auto simp: yields_def)
  next
    case False
    let ?n = "zero_node\<lparr>s_kind := strCons, s_left := l, s_right := r, s_length := stringByteLen h l + stringByteLen h r, s_utf16Len := -1\<rparr>"
    have c: "concatStrings h l r = alloc h ?n" using False by (simp add: concatStrings_def Let_def)
    have "0 < stringByteLen h l + stringByteLen h r" using len False by linarith
    then have "keeps h (h @ [?n])" using assms(1-3)
      by (intro alloc_keeps) (simp_all add: node_ok_def fresh_caches zero_node_def)
    moreover have "denotes (h @ [?n]) (VmStr (length h)) (ul @ ur)"
      using denotes_grow [OF assms(4)] denotes_grow [OF assms(5)] by (intro den_cons [of _ _ ?n]) (simp_all add: zero_node_def)
    ultimately show ?thesis by (simp add: c yields_def alloc_def child_ok_def)
  qed
qed

text \<open>
  The interface the evaluator uses: \<open>+\<close>, \<open>join\<close> and template literals only ever append one string
  to another and rely on old strings keeping their meaning.
\<close>

locale string_store =
  fixes ok :: "'h \<Rightarrow> bool" and str_in :: "'h \<Rightarrow> 'v \<Rightarrow> bool" and den :: "'h \<Rightarrow> 'v \<Rightarrow> units \<Rightarrow> bool"
    and extends :: "'h \<Rightarrow> 'h \<Rightarrow> bool" and cat :: "'h \<Rightarrow> 'v \<Rightarrow> 'v \<Rightarrow> 'h \<times> 'v"
  assumes extends_refl: "ok h \<Longrightarrow> extends h h"
    and extends_trans: "extends h h1 \<Longrightarrow> extends h1 h2 \<Longrightarrow> extends h h2"
    and extends_ok: "extends h h' \<Longrightarrow> ok h'"
    and extends_str: "extends h h' \<Longrightarrow> str_in h v \<Longrightarrow> str_in h' v"
    and extends_den: "extends h h' \<Longrightarrow> den h v us \<Longrightarrow> den h' v us"
    and cat_den: "ok h \<Longrightarrow> str_in h l \<Longrightarrow> str_in h r \<Longrightarrow> den h l ul \<Longrightarrow> den h r ur \<Longrightarrow> cat h l r = (h', v) \<Longrightarrow>
      extends h h' \<and> str_in h' v \<and> den h' v (ul @ ur)"
begin

lemma append_all:
  assumes "ok h" "str_in h v" "den h v us" "list_all2 (\<lambda>c u. str_in h c \<and> den h c u) cs uss"
  shows "\<exists>h' v'. foldl (\<lambda>(h, v) c. cat h v c) (h, v) cs = (h', v') \<and> extends h h' \<and> str_in h' v' \<and> den h' v' (us @ concat uss)"
  using assms
proof (induction cs arbitrary: h v us uss)
  case (Cons c cs)
  obtain u uss' where u: "uss = u # uss'" "str_in h c" "den h c u" "list_all2 (\<lambda>c u. str_in h c \<and> den h c u) cs uss'"
    using Cons.prems(4) by (auto simp: list_all2_Cons1)
  obtain h1 v1 where c1: "cat h v c = (h1, v1)" by fastforce
  then have 1: "extends h h1" "str_in h1 v1" "den h1 v1 (us @ u)" using cat_den [OF Cons.prems(1,2) u(2) Cons.prems(3) u(3)] by auto
  have "list_all2 (\<lambda>c u. str_in h1 c \<and> den h1 c u) cs uss'"
    using u(4) by (rule list_all2_mono) (use extends_str [OF 1(1)] extends_den [OF 1(1)] in blast)
  then obtain h' v' where "foldl (\<lambda>(h, v) c. cat h v c) (h1, v1) cs = (h', v')" "extends h1 h'" "str_in h' v'" "den h' v' ((us @ u) @ concat uss')"
    using Cons.IH [OF extends_ok [OF 1(1)] 1(2,3)] by blast
  then show ?case using c1 u(1) extends_trans [OF 1(1)] by auto
qed (use extends_refl in auto)

end

interpretation rope: string_store heap_ok "valid" denotes keeps concatStrings
proof
  show "keeps h h' \<and> valid h' v \<and> denotes h' v (ul @ ur)"
    if "heap_ok h" "valid h l" "valid h r" "denotes h l ul" "denotes h r ur" "concatStrings h l r = (h', v)" for h l r ul ur h' v
    using concatStrings_yields [OF that(1-5)] that(6) by (simp add: yields_def)
qed (auto simp: keeps_refl keeps_child elim: keeps_trans, auto simp: keeps_def)

subsection \<open>Flattening and cached facts\<close>

lemma build_enough:
  assumes "heap_ok h" "a < length h" "denotes h (VmStr a) us"
  shows "\<exists>n h'. preserves a h h' \<and> fFlattened (h' ! a) \<and> (\<forall>m\<ge>n. build m h a = Some (h', unitsToString us))"
  using builds_walks [OF assms] by (simp add: builds_def)

lemma stringValue_enough:
  assumes "heap_ok h" "valid h v" "denotes h v us"
  shows "\<exists>n h'. keeps h h' \<and> (\<forall>m\<ge>n. stringValue m h v = Some (h', unitsToString us))"
proof (cases v)
  case (String s)
  then have "canonical s" "us = codeUnits s" using assms denotes_unique [OF den_String] by (auto simp: child_ok_def)
  then have "\<forall>m\<ge>0. stringValue m h v = Some (h, unitsToString us)" using String canonical_unitsToString by (simp add: stringValue.simps)
  then show ?thesis using keeps_refl [OF assms(1)] by blast
next
  case (VmStr a)
  then have a: "a < length h" using assms(2) by (simp add: child_ok_def)
  obtain n h' where n: "preserves a h h'" "\<And>m. n \<le> m \<Longrightarrow> build m h a = Some (h', unitsToString us)"
    using build_enough [OF assms(1) a] assms(3) VmStr by blast
  have "stringValue m h v = Some (h', unitsToString us)" if "Suc n \<le> m" for m
    using that n(2) VmStr by (cases m) (auto simp: stringValue.simps)
  then show ?thesis using preserves_keeps [OF n(1)] by blast
qed (use assms(2) in \<open>auto simp: child_ok_def\<close>)

text \<open>The other boundary crossings return the same bytes.\<close>

lemma crossings_agree:
  assumes "heap_ok h" "valid h v" "denotes h v us"
  shows "\<exists>n h'. keeps h h' \<and> (\<forall>m\<ge>n. asString m h v = Some (h', unitsToString us, True) \<and> flattenRope m h v = Some (h', String (unitsToString us)))"
proof (cases v)
  case (String s)
  then have "canonical s" "us = codeUnits s" using assms denotes_unique [OF den_String] by (auto simp: child_ok_def)
  then have "\<forall>m\<ge>0. asString m h v = Some (h, unitsToString us, True) \<and> flattenRope m h v = Some (h, String (unitsToString us))"
    using String canonical_unitsToString by (simp add: asString_def flattenRope_def)
  then show ?thesis using keeps_refl [OF assms(1)] by blast
next
  case (VmStr a)
  then have a: "a < length h" using assms(2) by (simp add: child_ok_def)
  obtain n h' where "preserves a h h'" "\<And>m. n \<le> m \<Longrightarrow> build m h a = Some (h', unitsToString us)"
    using build_enough [OF assms(1) a] assms(3) VmStr by blast
  then show ?thesis using VmStr preserves_keeps by (intro exI [of _ n] exI [of _ h']) (auto simp: asString_def flattenRope_def)
qed (use assms(2) in \<open>auto simp: child_ok_def\<close>)

lemma receiver_is_string: "stringReceiver this = Some v \<Longrightarrow> isStringish v \<and> (v = this \<or> this = Object v)"
  by (auto simp: stringReceiver_def isStringish_def split: Value.splits if_splits)

text \<open>A flattened node holds the canonical bytes of what it denotes, and its caches are facts about them.\<close>

lemma flattened_facts:
  assumes "heap_ok h" "a < length h" "denotes h (VmStr a) us" "fFlattened (h ! a)"
  shows "s_flat (h ! a) = unitsToString us" "codeUnits (unitsToString us) = us" "caches_ok (h ! a)" "units16 us"
proof -
  show u: "units16 us" using denotes_units16 [OF assms(1) _ assms(3)] assms(2) by (simp add: child_ok_def)
  show "s_flat (h ! a) = unitsToString us" using denoted_bytes [OF assms(1-3)] assms(4) by blast
  show "codeUnits (unitsToString us) = us" using u by (rule codeUnits_unitsToString)
  show "caches_ok (h ! a)" using node_okD [OF assms(1,2)] by (simp add: node_ok_def)
qed

lemma refine_cache:
  assumes "heap_ok h" "a < length h" "denotes h (VmStr a) us" "fFlattened (h ! a)" "caches_ok r'"
    "fFlattened r'" "s_flat r' = s_flat (h ! a)" "s_length r' = s_length (h ! a)"
  shows "preserves a h (h[a := r'])"
  using refine_node [OF assms(1-3,6)] assms flattened_facts(1) [OF assms(1-4)] by simp

lemma unflattened_fresh: "heap_ok h \<Longrightarrow> a < length h \<Longrightarrow> \<not> fFlattened (h ! a) \<Longrightarrow> s_utf16Len (h ! a) < 0 \<and> \<not> fASCIIKnown (h ! a)"
  using node_okD [of h a] by (auto simp: node_ok_def caches_ok_def)

lemma codeUnitLen_cached:
  assumes "heap_ok h" "a < length h" "denotes h (VmStr a) us" "0 \<le> s_utf16Len (h ! a)"
  shows "codeUnitLen_node m h a = Some (h, go_int32 (int (length us)))"
proof -
  have "fFlattened (h ! a)" using unflattened_fresh [OF assms(1,2)] assms(4) by linarith
  note f = flattened_facts [OF assms(1-3) this]
  then show ?thesis using assms(2,4) by (auto simp: codeUnitLen_node_def index_opt_def caches_ok_def)
qed

lemma codeUnitLen_fresh:
  assumes "heap_ok h" "a < length h" "denotes h (VmStr a) us" "s_utf16Len (h ! a) < 0"
  shows "\<exists>n h'. preserves a h h' \<and> s_utf16Len (h' ! a) = go_int32 (int (length us)) \<and>
    (\<forall>m\<ge>n. codeUnitLen_node m h a = Some (h', int (length us)))"
proof -
  obtain n h1 where n: "preserves a h h1" "fFlattened (h1 ! a)" "\<And>m. n \<le> m \<Longrightarrow> build m h a = Some (h1, unitsToString us)"
    using build_enough [OF assms(1-3)] by blast
  note d = preservesD [OF n(1)]
  have l: "a < length h1" using d(2) assms(2) by simp
  note f = flattened_facts [OF d(1) l d(3) [OF assms(3)] n(2)]
  let ?r = "h1 ! a"
  let ?r' = "?r\<lparr>s_utf16Len := go_int32 (int (length us)), fASCII := fASCII ?r \<or> isASCIIStr (unitsToString us), fASCIIKnown := True\<rparr>"
  have "caches_ok ?r'" using f n(2) by (auto simp: caches_ok_def split: if_splits)
  then have r: "preserves a h1 (h1[a := ?r'])" using refine_cache [OF d(1) l d(3) [OF assms(3)] n(2)] n(2) by simp
  have "codeUnitLen_node m h a = Some (h1[a := ?r'], int (length us))" if "n \<le> m" for m
    using assms(2,4) n(3) [OF that] f(2) by (simp add: codeUnitLen_node_def index_opt_def codeUnitLenASCII_eq Let_def)
  then show ?thesis using preserves_trans [OF n(1) r, of a] l by (intro exI [of _ n] exI [of _ "h1[a := ?r']"]) simp
qed

lemma isASCII_enough:
  assumes "heap_ok h" "a < length h" "denotes h (VmStr a) us"
  shows "\<exists>n h'. preserves a h h' \<and> fFlattened (h' ! a) \<and> (\<forall>m\<ge>n. isASCII m h a = Some (h', isASCIIStr (unitsToString us)))"
proof (cases "fASCIIKnown (h ! a)")
  case True
  then have fl: "fFlattened (h ! a)" using unflattened_fresh [OF assms(1,2)] by blast
  note f = flattened_facts [OF assms fl]
  have "isASCII m h a = Some (h, isASCIIStr (unitsToString us))" for m
    using True f(1,3) assms(2) by (auto simp: isASCII_def index_opt_def caches_ok_def)
  then show ?thesis using preserves_refl [OF assms(1)] fl by blast
next
  case False
  obtain n h1 where n: "preserves a h h1" "fFlattened (h1 ! a)" "\<And>m. n \<le> m \<Longrightarrow> build m h a = Some (h1, unitsToString us)"
    using build_enough [OF assms] by blast
  note d = preservesD [OF n(1)]
  have l: "a < length h1" using d(2) assms(2) by simp
  note f = flattened_facts [OF d(1) l d(3) [OF assms(3)] n(2)]
  let ?r = "h1 ! a"
  let ?r' = "?r\<lparr>fASCII := fASCII ?r \<or> isASCIIStr (unitsToString us), fASCIIKnown := True\<rparr>"
  have "caches_ok ?r'" using f n(2) by (auto simp: caches_ok_def split: if_splits)
  then have r: "preserves a h1 (h1[a := ?r'])" using refine_cache [OF d(1) l d(3) [OF assms(3)] n(2)] n(2) by simp
  have "isASCII m h a = Some (h1[a := ?r'], isASCIIStr (unitsToString us))" if "n \<le> m" for m
    using assms(2) False n(3) [OF that] by (simp add: isASCII_def index_opt_def Let_def)
  then show ?thesis using preserves_trans [OF n(1) r, of a] l n(2) by (intro exI [of _ n] exI [of _ "h1[a := ?r']"]) simp
qed

lemma view_enough:
  assumes "heap_ok h" "a < length h" "denotes h (VmStr a) us"
  shows "\<exists>n h'. preserves a h h' \<and> (\<forall>m\<ge>n. view m h a = Some (h', viewOf (unitsToString us)))"
proof -
  obtain n1 h1 where 1: "preserves a h h1" "\<And>m. n1 \<le> m \<Longrightarrow> build m h a = Some (h1, unitsToString us)"
    using build_enough [OF assms] by blast
  have l1: "a < length h1" using preservesD(2) [OF 1(1)] assms(2) by simp
  obtain n2 h2 where 2: "preserves a h1 h2" "fFlattened (h2 ! a)" "\<And>m. n2 \<le> m \<Longrightarrow> isASCII m h1 a = Some (h2, isASCIIStr (unitsToString us))"
    using isASCII_enough [OF preservesD(1) [OF 1(1)] l1 preservesD(3) [OF 1(1) assms(3)]] by blast
  have r2: "preserves a h h2" using preserves_trans [OF 1(1) 2(1)] by blast
  note d = preservesD [OF r2]
  have l: "a < length h2" using d(2) assms(2) by simp
  note f = flattened_facts [OF d(1) l d(3) [OF assms(3)] 2(2)]
  show ?thesis
  proof (cases "isASCIIStr (unitsToString us)")
    case True
    then have "view m h a = Some (h2, viewOf (unitsToString us))" if "n1 + n2 \<le> m" for m
      using that 1(2) [of m] 2(3) [of m] by (simp add: view_def viewOf_def)
    then show ?thesis using r2 by blast
  next
    case False
    let ?r' = "(h2 ! a)\<lparr>s_units := Some us\<rparr>"
    have u: "(case s_units (h2 ! a) of None \<Rightarrow> codeUnits (unitsToString us) | Some vs \<Rightarrow> vs) = us"
      using f by (auto simp: caches_ok_def split: option.splits)
    have "caches_ok ?r'" using f 2(2) by (simp add: caches_ok_def)
    then have r: "preserves a h2 (h2[a := ?r'])" using refine_cache [OF d(1) l d(3) [OF assms(3)] 2(2)] 2(2) by simp
    have "view m h a = Some (h2[a := ?r'], viewOf (unitsToString us))" if "n1 + n2 \<le> m" for m
      using that 1(2) [of m] 2(3) [of m] False u f(2) by (simp add: view_def viewOf_def Let_def)
    then show ?thesis using preserves_trans [OF r2 r, of a] by (intro exI [of _ "n1 + n2"] exI [of _ "h2[a := ?r']"]) simp
  qed
qed

lemma go_int32_nonneg: "0 \<le> go_int32 (int k) \<Longrightarrow> k < 2 ^ 32 \<Longrightarrow> go_int32 (int k) = int k"
proof -
  assume a: "0 \<le> go_int32 (int k)" "k < 2 ^ 32"
  show ?thesis
  proof (cases "k < 2 ^ 31")
    case False
    have "int k < 2 ^ 32" using a(2) by (metis of_nat_less_iff of_nat_numeral of_nat_power)
    moreover have "2 ^ 31 \<le> int k" using False by simp
    ultimately have "go_int32 (int k) = int k + 2 ^ 31 - 2 ^ 32 - 2 ^ 31"
      using mod_pos_pos_trivial [of "int k + 2 ^ 31 - 2 ^ 32" "2 ^ 32"] mod_diff_right_eq [of "int k + 2 ^ 31" "2 ^ 32" "2 ^ 32"]
      unfolding go_int32_def by simp
    then show ?thesis using a(1) \<open>int k < 2 ^ 32\<close> by simp
  qed (simp add: go_int32_def)
qed

subsection \<open>What string values promise\<close>

lemma heap_ok_Nil [simp]: "heap_ok []"
  by (simp add: heap_ok_def)

lemma ascii_canonical: "isASCIIStr s \<Longrightarrow> list_all (\<lambda>b. 0 \<le> b) s \<Longrightarrow> canonical s"
  using wtf8_ascii [of s] canonicalize_units [of s] unitsToString_ascii [of s] by (simp add: canonical_def)

text \<open>
  C24: Flattening always ends with the right bytes. In a well-formed heap every string value, a
  rope of any depth and sharing included, denotes one sequence of code units; given enough fuel
  flattening it returns exactly the canonical bytes of that sequence, and the mutated heap is
  well formed again with every string, flattened or not, denoting what it did before.
\<close>

theorem flatten_refines:
  assumes "heap_ok h" "valid h v"
  shows "\<exists>us. denotes h v us \<and> (\<exists>n h'. keeps h h' \<and> (\<forall>m\<ge>n. stringValue m h v = Some (h', unitsToString us)))"
  using denotes_total [OF assms] stringValue_enough [OF assms] by blast

theorem flatten_refines_witness:
  "\<exists>us. denotes (fst (concatStrings [] (String [0x61]) (String [0x62]))) (VmStr 0) us \<and>
     (\<exists>n h'. keeps (fst (concatStrings [] (String [0x61]) (String [0x62]))) h' \<and>
       (\<forall>m\<ge>n. stringValue m (fst (concatStrings [] (String [0x61]) (String [0x62]))) (VmStr 0) = Some (h', unitsToString us)))"
proof (rule flatten_refines)
  have c: "canonical [0x61]" "canonical [0x62]" by (simp_all add: ascii_canonical isASCIIStr_def)
  then have "yields [] (concatStrings [] (String [0x61]) (String [0x62])) (codeUnits [0x61] @ codeUnits [0x62])"
    by (intro concatStrings_yields den_String) (simp_all add: child_ok_def)
  then show "heap_ok (fst (concatStrings [] (String [0x61]) (String [0x62])))" by (simp add: yields_def keeps_def)
  show "valid (fst (concatStrings [] (String [0x61]) (String [0x62]))) (VmStr 0)"
    by (simp add: child_ok_def concatStrings_def stringByteLen_def alloc_def)
qed

text \<open>
  C25: Ropes implement concatenation. Appending any list of strings one after the other, as a loop
  of \<open>s += chunk\<close>, a join or a template literal does, never fails, keeps the heap well formed and
  every old string's meaning, and yields a string that denotes the code units of all of them in
  order, empty operands and surrogate pairs split across a join included.
\<close>

theorem append_refines:
  assumes "heap_ok h" "valid h v" "denotes h v us" "list_all2 (\<lambda>c u. valid h c \<and> denotes h c u) cs uss"
  shows "yields h (foldl (\<lambda>(h, v) c. concatStrings h v c) (h, v) cs) (us @ concat uss)"
  using rope.append_all [OF assms] by (auto simp: yields_def)

theorem append_refines_witness:
  "yields [] (foldl (\<lambda>(h, v) c. concatStrings h v c) ([], String []) [String [0x61], String [0x62]]) ([] @ concat [codeUnits [0x61], codeUnits [0x62]])"
proof (rule append_refines)
  have "canonical [0x61]" "canonical [0x62]" by (simp_all add: ascii_canonical isASCIIStr_def)
  then show "list_all2 (\<lambda>c u. valid [] c \<and> denotes [] c u) [String [0x61], String [0x62]] [codeUnits [0x61], codeUnits [0x62]]"
    by (simp add: child_ok_def denotes.den_String)
qed (simp_all add: child_ok_def canonical_Nil den_empty)

text \<open>
  C30: Constructors denote the bytes they are given. Wrapping canonical bytes, borrowed or copied,
  short or long enough to carry metadata, and taking a byte window of a string at code-point
  boundaries each yield a value that denotes the code units of those bytes; a window outside
  the parent's bytes is a panic and never a value.
\<close>

theorem constructors_denote:
  assumes "heap_ok h" "canonical s" "valid h p" "denotes h p up"
  shows "yields h (newComputedString h s) (codeUnits s) \<and> yields h (NewReadOnlyString h s) (codeUnits s) \<and>
    yields h (NewBorrowedString h s) (codeUnits s) \<and>
    (\<exists>n. \<forall>m\<ge>n. case slice_opt (unitsToString up) i (i + k) of
        None \<Rightarrow> newSliceString m h p i k = None
      | Some span \<Rightarrow> canonical span \<longrightarrow> (\<exists>res. newSliceString m h p i k = Some res \<and> yields h res (codeUnits span)))"
proof -
  obtain n h1 where n: "keeps h h1" "\<And>m. n \<le> m \<Longrightarrow> stringValue m h p = Some (h1, unitsToString up)"
    using stringValue_enough [OF assms(1,3,4)] by blast
  have "yields h (newComputedString h1 span) (codeUnits span)" if "canonical span" for span
    using newComputedString_yields [OF _ that, of h1] n(1) keeps_trans [OF n(1)] by (auto simp: yields_def keeps_def)
  then have "case slice_opt (unitsToString up) i (i + k) of
        None \<Rightarrow> newSliceString m h p i k = None
      | Some span \<Rightarrow> canonical span \<longrightarrow> (\<exists>res. newSliceString m h p i k = Some res \<and> yields h res (codeUnits span))" if "n \<le> m" for m
    using n(2) [OF that] by (auto simp: newSliceString_def split: option.splits)
  then show ?thesis
    using newComputedString_yields [OF assms(1,2)] NewBorrowedString_yields [OF assms(1,2)] by (auto simp: NewReadOnlyString_def)
qed

theorem constructors_denote_witness:
  "yields [] (newComputedString [] (replicate 100 0x61)) (codeUnits (replicate 100 0x61))"
proof -
  have "canonical (replicate 100 0x61)" by (rule ascii_canonical) (simp_all add: isASCIIStr_def list_all_iff)
  then show ?thesis using constructors_denote [of "[]" "replicate 100 0x61" "String []" "[]"]
    by (simp add: child_ok_def canonical_Nil den_empty)
qed

text \<open>
  C29: Cached metadata is what a fresh scan would find. Whatever was cached before, the ASCII test
  and the code-unit view of a string node return what the plain functions return on its flattened
  bytes, and leave every string's meaning and the caches' invariant intact.
\<close>

theorem cached_views_agree:
  assumes "heap_ok h" "a < length h" "denotes h (VmStr a) us"
  shows "(\<exists>n h'. preserves a h h' \<and> (\<forall>m\<ge>n. view m h a = Some (h', viewOf (unitsToString us)))) \<and>
    (\<exists>n h'. preserves a h h' \<and> (\<forall>m\<ge>n. isASCII m h a = Some (h', isASCIIStr (unitsToString us))))"
  using view_enough [OF assms] isASCII_enough [OF assms] by blast

theorem cached_views_agree_witness:
  "\<exists>n h'. preserves 0 (fst (NewBorrowedString [] [0x61])) h' \<and>
     (\<forall>m\<ge>n. view m (fst (NewBorrowedString [] [0x61])) 0 = Some (h', viewOf (unitsToString (codeUnits [0x61]))))"
proof -
  have "canonical [0x61]" by (simp add: ascii_canonical isASCIIStr_def)
  then have y: "yields [] (NewBorrowedString [] [0x61]) (codeUnits [0x61])" by (simp add: NewBorrowedString_yields)
  have "snd (NewBorrowedString [] [0x61]) = VmStr 0" by (simp add: NewBorrowedString_def alloc_def)
  then show ?thesis using y cached_views_agree [of "fst (NewBorrowedString [] [0x61])" 0 "codeUnits [0x61]"]
    by (simp add: yields_def keeps_def child_ok_def)
qed

text \<open>
  C28: The cached length and its limit. The length of a string node is its number of code units on
  the first call and on every later one as long as there are fewer than \<open>2\<^sup>3\<^sup>2\<close> of them: between
  \<open>2\<^sup>3\<^sup>1\<close> and \<open>2\<^sup>3\<^sup>2\<close> the 32-bit cache holds a negative number and the length is recomputed.
  From \<open>2\<^sup>3\<^sup>2\<close> on the cache wraps: where it wraps to a non-negative number, every call after the
  first returns that number and not the length.
\<close>

theorem cached_length_exact:
  assumes "heap_ok h" "a < length h" "denotes h (VmStr a) us"
  shows "\<exists>n h' k. preserves a h h' \<and> (\<forall>m\<ge>n. codeUnitLen_node m h a = Some (h', k)) \<and>
    (s_utf16Len (h ! a) < 0 \<or> length us < 2 ^ 32 \<longrightarrow> k = int (length us)) \<and>
    (0 \<le> go_int32 (int (length us)) \<longrightarrow> (\<forall>m. codeUnitLen_node m h' a = Some (h', go_int32 (int (length us)))))"
proof (cases "0 \<le> s_utf16Len (h ! a)")
  case True
  have "fFlattened (h ! a)" using unflattened_fresh [OF assms(1,2)] True by linarith
  then have "s_utf16Len (h ! a) = go_int32 (int (length us))" using flattened_facts [OF assms] True by (auto simp: caches_ok_def)
  then show ?thesis using codeUnitLen_cached [OF assms True] preserves_refl [OF assms(1), of a] True go_int32_nonneg [of "length us"]
    by (intro exI [of _ 0] exI [of _ h] exI [of _ "go_int32 (int (length us))"]) auto
next
  case False
  then obtain n h' where n: "preserves a h h'" "s_utf16Len (h' ! a) = go_int32 (int (length us))"
      "\<And>m. n \<le> m \<Longrightarrow> codeUnitLen_node m h a = Some (h', int (length us))"
    using codeUnitLen_fresh [OF assms] by auto
  have "codeUnitLen_node m h' a = Some (h', go_int32 (int (length us)))" if "0 \<le> go_int32 (int (length us))" for m
    using codeUnitLen_cached [OF preservesD(1) [OF n(1)] _ preservesD(3) [OF n(1) assms(3)]] preservesD(2) [OF n(1)] assms(2) that n(2) by simp
  then show ?thesis using n(1,3) by (intro exI [of _ n] exI [of _ h'] exI [of _ "int (length us)"]) auto
qed

lemma big_node: "yields [] (NewBorrowedString [] (replicate (2 ^ 32) 0x61)) (replicate (2 ^ 32) 0x61)"
proof -
  have "canonical (replicate (2 ^ 32) 0x61)" "isASCIIStr (replicate (2 ^ 32) 0x61)"
    using ascii_canonical [of "replicate (2 ^ 32) 0x61"] by (simp_all add: isASCIIStr_def list_all_iff)
  then show ?thesis using NewBorrowedString_yields [of "[]" "replicate (2 ^ 32) 0x61"] by simp
qed

theorem cached_length_exact_witness:
  "\<exists>h'. (\<exists>n. \<forall>m\<ge>n. codeUnitLen_node m (fst (NewBorrowedString [] (replicate (2 ^ 32) 0x61))) 0 = Some (h', 2 ^ 32)) \<and>
     (\<forall>m. codeUnitLen_node m h' 0 = Some (h', 0))"
proof -
  let ?h = "fst (NewBorrowedString [] (replicate (2 ^ 32) 0x61))"
  have v: "snd (NewBorrowedString [] (replicate (2 ^ 32) 0x61)) = VmStr 0" "s_utf16Len (?h ! 0) = -1"
    by (simp_all add: NewBorrowedString_def alloc_def zero_node_def)
  have "heap_ok ?h" "0 < length ?h" "denotes ?h (VmStr 0) (replicate (2 ^ 32) 0x61)"
    using big_node v(1) by (simp_all add: yields_def keeps_def child_ok_def)
  from cached_length_exact [OF this] obtain n h' k where
    "\<forall>m\<ge>n. codeUnitLen_node m ?h 0 = Some (h', k)" "k = 2 ^ 32" "\<forall>m. codeUnitLen_node m h' 0 = Some (h', 0)"
    using v(2) by (auto simp: go_int32_def)
  then show ?thesis by blast
qed

text \<open>
  Indexing a string: the one-unit string at the index, a lone surrogate for half of a pair, and
  \<open>undefined\<close> exactly out of range.
\<close>

lemma char_at_exact:
  assumes "bytes_ok s"
  shows "stringCharAt s (isASCIIStr s) idx =
    (if 0 \<le> idx \<and> idx < int (length (codeUnits s)) then String (unitsToString [codeUnits s ! nat idx]) else Undef)"
proof -
  have t: "take (Suc 0) (drop k xs) = [xs ! k]" if "k < length xs" for k and xs :: "int list"
    using that by (simp add: take_Suc_conv_app_nth hd_drop_conv_nth)
  have a: "unitsToString [s ! k] = [s ! k]" if "isASCIIStr s" "k < length s" for k
    using that assms unitsToString_ascii [of "[s ! k]"] by (simp add: isASCIIStr_def bytes_ok_def list_all_length)
  show ?thesis using a t by (auto simp: stringCharAt_def Let_def nat_less_iff simp del: unitsToString.simps)
qed


end
