(* ===== verification/Event_Loop.thy ===== *)
theory Event_Loop
  imports Go_Prelude "HOL-Library.Multiset"
begin

text \<open>
  The event loop (\<open>src/interp/eventloop.go\<close>) and the host interface to it
  (\<open>src/interp/host_api.go\<close>). The queues hold jobs; what a job does is a parameter \<open>exec\<close>, which
  may push jobs, change the timer count and fail. \<open>vm_step\<close> is one step of \<open>run\<close> on the goroutine
  that owns the interpreter, and \<open>reach\<close> interleaves it with the queue operations of any other
  goroutine, each of which holds the lock and is therefore atomic. A job runs in one step: what it
  does to the queues commutes with what the others do, since they only append or count.
\<close>

subsection \<open>State and operations\<close>

record 'j eventLoop =
  nextTick :: "'j list"
  micro :: "'j list"
  macro :: "'j list"
  activeTimers :: int
  stopped :: bool

definition newEventLoop :: "'j eventLoop" where
  "newEventLoop = \<lparr>nextTick = [], micro = [], macro = [], activeTimers = 0, stopped = False\<rparr>"

definition pushMicro :: "'j \<Rightarrow> 'j eventLoop \<Rightarrow> 'j eventLoop" where
  "pushMicro f l = l\<lparr>micro := micro l @ [f]\<rparr>"

definition pushNextTick :: "'j \<Rightarrow> 'j eventLoop \<Rightarrow> 'j eventLoop" where
  "pushNextTick f l = l\<lparr>nextTick := nextTick l @ [f]\<rparr>"

definition pushMacro :: "'j \<Rightarrow> 'j eventLoop \<Rightarrow> 'j eventLoop" where
  "pushMacro f l = l\<lparr>macro := macro l @ [f]\<rparr>"

definition addTimer :: "'j eventLoop \<Rightarrow> 'j eventLoop" where
  "addTimer l = l\<lparr>activeTimers := activeTimers l + 1\<rparr>"

definition removeTimer :: "'j eventLoop \<Rightarrow> 'j eventLoop" where
  "removeTimer l = (if activeTimers l > 0 then l\<lparr>activeTimers := activeTimers l - 1\<rparr> else l)"

definition stop :: "'j eventLoop \<Rightarrow> 'j eventLoop" where
  "stop l = l\<lparr>stopped := True\<rparr>"

text \<open>The host interface. \<open>wrap f\<close> is the job that drops the registration and then does \<open>f\<close>.\<close>

definition Enqueue :: "('f \<Rightarrow> 'j) \<Rightarrow> 'f \<Rightarrow> 'j eventLoop \<Rightarrow> 'j eventLoop" where
  "Enqueue wrap f l = pushMacro (wrap f) (addTimer l)"

definition Pin :: "'j eventLoop \<Rightarrow> 'j eventLoop \<times> bool" where
  "Pin l = (addTimer l, False)"

text \<open>The release function of \<open>Pin\<close>; the flag is its \<open>sync.Once\<close>.\<close>

definition release :: "'j eventLoop \<times> bool \<Rightarrow> 'j eventLoop \<times> bool" where
  "release = (\<lambda>(l, once). if once then (l, once) else (removeTimer l, True))"

definition QueueMicrotask :: "'j \<Rightarrow> 'j eventLoop \<Rightarrow> 'j eventLoop" where
  "QueueMicrotask = pushMicro"

definition QueueNextTick :: "'j \<Rightarrow> 'j eventLoop \<Rightarrow> 'j eventLoop" where
  "QueueNextTick = pushNextTick"

text \<open>\<open>PromiseCapability.Resolve\<close>: \<open>settle v\<close> is the job that settles the promise.\<close>

definition Resolve :: "('v \<Rightarrow> 'j) \<Rightarrow> 'v \<Rightarrow> 'j eventLoop \<Rightarrow> 'j eventLoop" where
  "Resolve settle v = QueueMicrotask (settle v)"

subsection \<open>Draining and running\<close>

type_synonym ('j, 'w) vm = "'j eventLoop \<times> 'w"
type_synonym ('j, 'w, 'e) exec = "'j \<Rightarrow> ('j, 'w) vm \<Rightarrow> ('j, 'w) vm \<times> 'e option"

definition take_job :: "'j eventLoop \<Rightarrow> ('j \<times> 'j eventLoop) option" where
  "take_job l =
     (case nextTick l of
        f # fs \<Rightarrow> Some (f, l\<lparr>nextTick := fs\<rparr>)
      | [] \<Rightarrow> (case micro l of f # fs \<Rightarrow> Some (f, l\<lparr>micro := fs\<rparr>) | [] \<Rightarrow> None))"

text \<open>\<open>None\<close> is a drain that never ends, when jobs keep queueing jobs.\<close>

partial_function (option) drainMicro :: "('j, 'w, 'e) exec \<Rightarrow> ('j, 'w) vm \<Rightarrow> (('j, 'w) vm \<times> 'e option) option" where
  "drainMicro exec v =
     (case take_job (fst v) of
        None \<Rightarrow> Some (v, None)
      | Some (f, l) \<Rightarrow>
          (case exec f (l, snd v) of
             (v, Some e) \<Rightarrow> Some (v, Some e)
           | (v, None) \<Rightarrow> drainMicro exec v))"

text \<open>
  Where \<open>run\<close> is: in \<open>drainMicro\<close>, holding the lock at the test of its inner loop, in
  \<open>cond.Wait\<close>, or returned.
\<close>

datatype 'e pc = Drain | Check | Wait | Done "'e option"

type_synonym ('j, 'w, 'e) config = "'e pc \<times> ('j, 'w) vm"

fun vm_step :: "('j, 'w, 'e) exec \<Rightarrow> ('j, 'w, 'e) config \<Rightarrow> ('j, 'w, 'e) config" where
  "vm_step exec (Drain, l, w) =
     (case take_job l of
        None \<Rightarrow> (Check, l, w)
      | Some (f, l) \<Rightarrow>
          (case exec f (l, w) of
             (v, Some e) \<Rightarrow> (Done (Some e), v)
           | (v, None) \<Rightarrow> (Drain, v)))"
| "vm_step exec (Check, l, w) =
     (if macro l = [] \<and> \<not> stopped l
      then if activeTimers l = 0 \<and> micro l = [] \<and> nextTick l = [] then (Done None, l, w) else (Wait, l, w)
      else if stopped l then (Done None, l, w)
      else case exec (hd (macro l)) (l\<lparr>macro := tl (macro l)\<rparr>, w) of
             (v, Some e) \<Rightarrow> (Done (Some e), v)
           | (v, None) \<Rightarrow> (Drain, v))"
| "vm_step exec (Wait, l, w) = (Check, l, w)"
| "vm_step exec (Done r, l, w) = (Done r, l, w)"

text \<open>The operations other goroutines perform on the queues.\<close>

datatype 'j env = EMacro 'j | EMicro 'j | ETick 'j | EAdd | ERemove | EStop

fun apply_env :: "'j env \<Rightarrow> 'j eventLoop \<Rightarrow> 'j eventLoop" where
  "apply_env (EMacro f) l = pushMacro f l"
| "apply_env (EMicro f) l = pushMicro f l"
| "apply_env (ETick f) l = pushNextTick f l"
| "apply_env EAdd l = addTimer l"
| "apply_env ERemove l = removeTimer l"
| "apply_env EStop l = stop l"

text \<open>
  The reachable configurations when the other goroutines perform only operations in \<open>A\<close>. A wake-up
  needs no signal here, so the relation allows more than the condition variable does.
\<close>

inductive reach :: "('j, 'w, 'e) exec \<Rightarrow> 'j env set \<Rightarrow> ('j, 'w) vm \<Rightarrow> ('j, 'w, 'e) config \<Rightarrow> bool"
  for exec A v0 where
  reach_start: "reach exec A v0 (Drain, v0)"
| reach_vm: "reach exec A v0 c \<Longrightarrow> reach exec A v0 (vm_step exec c)"
| reach_env: "reach exec A v0 (pc, l, w) \<Longrightarrow> a \<in> A \<Longrightarrow> reach exec A v0 (pc, apply_env a l, w)"

lemmas queue_defs = newEventLoop_def pushMicro_def pushNextTick_def pushMacro_def addTimer_def removeTimer_def stop_def

subsection \<open>Order of jobs\<close>

lemma take_job_None: "take_job l = None \<longleftrightarrow> nextTick l = [] \<and> micro l = []"
  by (auto simp: take_job_def split: list.splits)

text \<open>The operations a timer goroutine performs, and those of \<open>Enqueue\<close>, \<open>Pin\<close> and \<open>Close\<close>.\<close>

definition task_ops :: "'j env set" where
  "task_ops = range EMacro \<union> {EAdd, ERemove, EStop}"

lemma task_ops_quiet: "a \<in> task_ops \<Longrightarrow> nextTick (apply_env a l) = nextTick l \<and> micro (apply_env a l) = micro l"
  by (auto simp: task_ops_def queue_defs)

lemma quiet_at_check:
  "reach exec A v0 (pc, l, w) \<Longrightarrow> A \<subseteq> task_ops \<Longrightarrow> pc = Check \<or> pc = Wait \<Longrightarrow> nextTick l = [] \<and> micro l = []"
proof (induction "(pc, l, w)" arbitrary: pc l w rule: reach.induct)
  case (reach_vm c)
  obtain pc' l' w' where c: "c = (pc', l', w')" by (cases c)
  then have ih: "pc' = Check \<or> pc' = Wait \<Longrightarrow> nextTick l' = [] \<and> micro l' = []" using reach_vm by blast
  show ?case using reach_vm(3,5) ih unfolding c
    by (cases pc') (auto simp: take_job_None split: option.splits prod.splits if_splits)
next
  case (reach_env pc l w a)
  then show ?case using task_ops_quiet [of a l] by auto
qed auto

text \<open>What a drain does when its jobs queue nothing: all of them in order, up to the first error.\<close>

fun run_jobs :: "('j \<Rightarrow> 'w \<Rightarrow> 'w \<times> 'e option) \<Rightarrow> 'j list \<Rightarrow> 'w \<Rightarrow> 'w \<times> 'j list \<times> 'e option" where
  "run_jobs g [] w = (w, [], None)"
| "run_jobs g (f # fs) w = (case g f w of (w, Some e) \<Rightarrow> (w, fs, Some e) | (w, None) \<Rightarrow> run_jobs g fs w)"

lemma drain_jobs:
  assumes "\<And>f l w. exec f (l, w) = ((l, fst (g f w)), snd (g f w))"
  shows "\<exists>l'. drainMicro exec (l, w) = Some ((l', fst (run_jobs g (nextTick l @ micro l) w)), snd (snd (run_jobs g (nextTick l @ micro l) w))) \<and>
    nextTick l' @ micro l' = fst (snd (run_jobs g (nextTick l @ micro l) w)) \<and> macro l' = macro l"
proof (induction "length (nextTick l @ micro l)" arbitrary: l w)
  case 0
  then have "take_job l = None" by (simp add: take_job_None)
  then show ?case using 0 by (simp add: drainMicro.simps [of exec])
next
  case (Suc n)
  obtain f fs where j: "nextTick l @ micro l = f # fs" using Suc(2) by (cases "nextTick l @ micro l") auto
  obtain l1 where t: "take_job l = Some (f, l1)" "nextTick l1 @ micro l1 = fs" "macro l1 = macro l"
    using j by (cases "nextTick l"; cases "micro l") (auto simp: take_job_def)
  have n: "n = length (nextTick l1 @ micro l1)" using Suc(2) j t(2) by simp
  show ?case
  proof (cases "snd (g f w)")
    case None
    then show ?thesis using Suc(1) [OF n, of "fst (g f w)"] t j assms [of f l1 w]
      by (simp add: drainMicro.simps [of exec "(l, w)"] prod.case_eq_if)
  next
    case (Some e)
    then show ?thesis using t j assms [of f l1 w]
      by (simp add: drainMicro.simps [of exec "(l, w)"] prod.case_eq_if)
  qed
qed

subsection \<open>Progress\<close>

text \<open>
  Jobs that queue only jobs of smaller rank, never fail and never stop the loop. The rank bounds
  how long a chain of jobs that queue each other can get.
\<close>

definition ranked :: "('j, 'w, 'e) exec \<Rightarrow> ('j \<Rightarrow> nat) \<Rightarrow> bool" where
  "ranked exec rank \<longleftrightarrow>
     (\<forall>f l w. \<exists>l' w' ns ms ts. exec f (l, w) = ((l', w'), None) \<and> stopped l' = stopped l \<and>
        nextTick l' = nextTick l @ ns \<and> micro l' = micro l @ ms \<and> macro l' = macro l @ ts \<and>
        (\<forall>g \<in> set (ns @ ms @ ts). rank g < rank f))"

definition pending :: "('j \<Rightarrow> nat) \<Rightarrow> 'j eventLoop \<Rightarrow> nat multiset" where
  "pending rank l = mset (map rank (nextTick l @ micro l @ macro l))"

lemma ranked_decreases:
  assumes "ranked exec rank" "exec f (l, w) = ((l', w'), e)" "pending rank l0 = add_mset (rank f) (pending rank l)"
  shows "e = None" "stopped l' = stopped l" "(pending rank l', pending rank l0) \<in> mult less_than"
proof -
  obtain l1 w1 ns ms ts where s: "exec f (l, w) = ((l1, w1), None)" "stopped l1 = stopped l"
      "nextTick l1 = nextTick l @ ns" "micro l1 = micro l @ ms" "macro l1 = macro l @ ts" "\<And>g. g \<in> set (ns @ ms @ ts) \<Longrightarrow> rank g < rank f"
    using assms(1) unfolding ranked_def by blast
  show "e = None" "stopped l' = stopped l" using s assms(2) by auto
  have l: "l' = l1" using s(1) assms(2) by simp
  have "pending rank l' = pending rank l + mset (map rank (ns @ ms @ ts))" unfolding l by (simp add: pending_def s)
  moreover have "(pending rank l + mset (map rank (ns @ ms @ ts)), pending rank l + {#rank f#}) \<in> mult less_than"
    by (rule one_step_implies_mult) (use s(6) in auto)
  ultimately show "(pending rank l', pending rank l0) \<in> mult less_than" using assms(3) by simp
qed

lemma funpow_step: "(vm_step exec ^^ n) (vm_step exec c) = (vm_step exec ^^ Suc n) c"
  by (simp add: funpow_swap1)

lemma drain_progress:
  assumes "ranked exec rank"
  shows "\<not> stopped l \<Longrightarrow> \<exists>n pc l' w'. (vm_step exec ^^ n) (Drain, l, w) = (pc, l', w') \<and>
    nextTick l' = [] \<and> micro l' = [] \<and> macro l' = [] \<and> (if activeTimers l' = 0 then pc = Done None else pc = Wait)"
proof (induction "pending rank l" arbitrary: l w rule: wf_induct_rule [OF wf_mult [OF wf_less_than]])
  case 1
  let ?goal = "\<lambda>c. \<exists>n pc l' w'. (vm_step exec ^^ n) c = (pc, l', w') \<and>
    nextTick l' = [] \<and> micro l' = [] \<and> macro l' = [] \<and> (if activeTimers l' = 0 then pc = Done None else pc = Wait)"
  have later: "?goal c" if "?goal (vm_step exec c)" for c using that funpow_step by metis
  have job: "?goal (Drain, v)" if e: "exec f (l1, w) = (v, e)" "pending rank l = add_mset (rank f) (pending rank l1)" "stopped l1 = stopped l" for f l1 v e
    using ranked_decreases [OF assms, of f l1 w "fst v" "snd v" e l] 1 e by (cases v) auto
  show ?case
  proof (cases "take_job l")
    case (Some p)
    obtain f l1 where p: "p = (f, l1)" by fastforce
    obtain v e where e: "exec f (l1, w) = (v, e)" by fastforce
    have d: "pending rank l = add_mset (rank f) (pending rank l1)" "stopped l1 = stopped l"
      using Some p by (auto simp: take_job_def pending_def split: list.splits)
    have "e = None" using ranked_decreases(1) [OF assms, of f l1 w "fst v" "snd v" e l] e d by simp
    then have "vm_step exec (Drain, l, w) = (Drain, v)" using Some p e by simp
    then show ?thesis using later job [OF e d] by metis
  next
    case None
    then have q: "nextTick l = []" "micro l = []" "vm_step exec (Drain, l, w) = (Check, l, w)"
      using take_job_None [of l] by simp_all
    have "?goal (Check, l, w)"
    proof (cases "macro l")
      case Nil
      then have "vm_step exec (Check, l, w) = (if activeTimers l = 0 then (Done None, l, w) else (Wait, l, w))" using q 1(2) by simp
      then show ?thesis using q Nil by (intro exI [of _ 1]) auto
    next
      case (Cons f fs)
      let ?l1 = "l\<lparr>macro := fs\<rparr>"
      obtain v e where e: "exec f (?l1, w) = (v, e)" by fastforce
      have d: "pending rank l = add_mset (rank f) (pending rank ?l1)" "stopped ?l1 = stopped l" using Cons by (simp_all add: pending_def)
      have "e = None" using ranked_decreases(1) [OF assms, of f ?l1 w "fst v" "snd v" e l] e d by simp
      then have "vm_step exec (Check, l, w) = (Drain, v)" using Cons e 1(2) by simp
      then show ?thesis using later job [OF e d] by metis
    qed
    then show ?thesis using later q(3) by metis
  qed
qed

lemma stuck_step:
  assumes "macro l = []" "\<not> stopped l" "0 < activeTimers l" "pc = Wait \<or> pc = Check"
  shows "\<exists>pc'. vm_step exec (pc, l, w) = (pc', l, w) \<and> (pc' = Wait \<or> pc' = Check)"
  using assms by auto

lemma stuck_steps:
  assumes "macro l = []" "\<not> stopped l" "0 < activeTimers l" "pc = Wait \<or> pc = Check"
  shows "\<exists>pc'. (vm_step exec ^^ n) (pc, l, w) = (pc', l, w) \<and> (pc' = Wait \<or> pc' = Check)"
proof (induction n)
  case (Suc n)
  then obtain pc' where "(vm_step exec ^^ n) (pc, l, w) = (pc', l, w)" "pc' = Wait \<or> pc' = Check" by blast
  then show ?case using stuck_step [OF assms(1-3), of pc' exec w] by simp
qed (use assms in simp)

subsection \<open>What the loop promises\<close>


definition logging :: "nat \<Rightarrow> (nat, nat list) vm \<Rightarrow> (nat, nat list) vm \<times> unit option" where
  "logging f v = ((if f = 0 then fst v else pushMicro (f - 1) (fst v), snd v @ [f]), None)"






text \<open>
  C39: A microtask posted while the loop waits is not run. When another goroutine resolves a promise
  through its capability while the loop waits for a pending timer or pin, the loop wakes, finds no
  macrotask and waits again: however often it is woken, the settlement stays in the microtask queue
  until a macrotask arrives.
\<close>

theorem resolve_while_waiting:
  assumes "macro l = []" "\<not> stopped l" "0 < activeTimers l"
  shows "\<exists>pc. (vm_step exec ^^ n) (Wait, Resolve settle v l, w) = (pc, Resolve settle v l, w) \<and> (pc = Wait \<or> pc = Check) \<and>
    settle v \<in> set (micro (Resolve settle v l))"
  using stuck_steps [of "Resolve settle v l" Wait n exec w] assms by (simp add: Resolve_def QueueMicrotask_def pushMicro_def)

theorem resolve_while_waiting_witness:
  "\<exists>pc. (vm_step logging ^^ 1000) (Wait, Resolve id (7 :: nat) (fst (Pin newEventLoop)), []) = (pc, Resolve id 7 (fst (Pin newEventLoop)), []) \<and> (pc = Wait \<or> pc = Check) \<and>
    id (7 :: nat) \<in> set (micro (Resolve id 7 (fst (Pin newEventLoop))))"
  by (rule resolve_while_waiting) (simp_all add: Pin_def queue_defs)

end
