(* ===== verification/Timers.thy ===== *)
theory Timers
  imports Event_Loop
begin

text \<open>
  The timer functions of scripts (\<open>src/interp/builtin_timers.go\<close>) on top of the event loop. The
  timer provider is code of the host: \<open>armed\<close> holds the callbacks it was asked to make and may
  make at any time, its cancel function disarms one, and \<open>fire\<close> is the provider calling back. When
  it does so is up to it, so delays play no part here. What a script callback does is the parameter
  \<open>call\<close>. Timer ids and handles are unbounded here, 64-bit counters in the source.
\<close>

subsection \<open>State and operations\<close>

datatype 'cb job = TimerJob int bool 'cb | MicroJob 'cb

record 'cb timers =
  cancels :: "int \<Rightarrow> nat option"
  counter :: int
  armed :: "nat \<Rightarrow> (int \<times> bool \<times> 'cb) option"
  next_handle :: nat

type_synonym 'cb tvm = "('cb job, 'cb timers) vm"
type_synonym ('cb, 'e) call = "'cb \<Rightarrow> 'cb tvm \<Rightarrow> 'cb tvm \<times> 'e option"

definition no_timers :: "'cb timers" where
  "no_timers = \<lparr>cancels = (\<lambda>_. None), counter = 0, armed = (\<lambda>_. None), next_handle = 0\<rparr>"

definition nextID :: "'cb timers \<Rightarrow> 'cb timers \<times> int" where
  "nextID t = (t\<lparr>counter := counter t + 1\<rparr>, counter t + 1)"

definition registry_set :: "int \<Rightarrow> nat \<Rightarrow> 'cb timers \<Rightarrow> 'cb timers" where
  "registry_set tid h t = t\<lparr>cancels := (cancels t)(tid := Some h)\<rparr>"

definition registry_clear :: "int \<Rightarrow> 'cb timers \<Rightarrow> 'cb timers \<times> bool" where
  "registry_clear tid t =
     (case cancels t tid of
        Some h \<Rightarrow> (t\<lparr>armed := (armed t)(h := None), cancels := (cancels t)(tid := None)\<rparr>, True)
      | None \<Rightarrow> (t, False))"

text \<open>\<open>TimerProvider.AfterFunc\<close>: the callback of timer \<open>id\<close> is armed; the handle stands for the cancel function.\<close>

definition AfterFunc :: "int \<times> bool \<times> 'cb \<Rightarrow> 'cb timers \<Rightarrow> 'cb timers \<times> nat" where
  "AfterFunc x t = (t\<lparr>armed := (armed t)(next_handle t := Some x), next_handle := next_handle t + 1\<rparr>, next_handle t)"

definition fire :: "nat \<Rightarrow> 'cb tvm \<Rightarrow> 'cb tvm" where
  "fire h v =
     (case armed (snd v) h of
        Some (tid, repeat, cb) \<Rightarrow> (pushMacro (TimerJob tid repeat cb) (fst v), (snd v)\<lparr>armed := (armed (snd v))(h := None)\<rparr>)
      | None \<Rightarrow> v)"

text \<open>\<open>setTimeout\<close> and \<open>setInterval\<close>; the argument is \<open>None\<close> when it is not callable.\<close>

definition schedule :: "bool \<Rightarrow> 'cb option \<Rightarrow> 'cb tvm \<Rightarrow> 'cb tvm \<times> int" where
  "schedule repeat cb v =
     (case cb of
        None \<Rightarrow> (v, 0)
      | Some cb \<Rightarrow>
          let (t, tid) = nextID (snd v);
              l = addTimer (fst v);
              (t, h) = AfterFunc (tid, repeat, cb) t
          in ((l, registry_set tid h t), tid))"

definition setImmediate :: "'cb option \<Rightarrow> 'cb tvm \<Rightarrow> 'cb tvm \<times> int" where
  "setImmediate cb v = schedule False cb v"

definition clearTimer :: "int \<Rightarrow> 'cb tvm \<Rightarrow> 'cb tvm" where
  "clearTimer tid v = (let (t, ok) = registry_clear tid (snd v) in if ok then (removeTimer (fst v), t) else (fst v, t))"

definition queueMicrotask :: "'cb option \<Rightarrow> 'cb tvm \<Rightarrow> 'cb tvm option" where
  "queueMicrotask cb v = (case cb of None \<Rightarrow> None | Some cb \<Rightarrow> Some (pushMicro (MicroJob cb) (fst v), snd v))"

text \<open>What the queued functions do.\<close>

fun timer_exec :: "('cb, 'e) call \<Rightarrow> ('cb job, 'cb timers, 'e) exec" where
  "timer_exec call (TimerJob tid repeat cb) v =
     (let (v, err) = call cb v in
      if repeat then
        let (t, h) = AfterFunc (tid, repeat, cb) (snd v) in ((fst v, registry_set tid h t), err)
      else
        let (t, ok) = registry_clear tid (snd v) in ((removeTimer (fst v), t), err))"
| "timer_exec call (MicroJob cb) v = call cb v"

subsection \<open>The account of live timers\<close>

fun timer_ids :: "'cb job list \<Rightarrow> int list" where
  "timer_ids [] = []"
| "timer_ids (TimerJob tid r cb # js) = tid # timer_ids js"
| "timer_ids (MicroJob cb # js) = timer_ids js"

text \<open>
  \<open>timers_ok\<close>: the loop counts exactly the registered timers; an armed callback belongs to the
  registered timer of its id; a fired timer is registered, queued once and not armed.
\<close>

definition unarmed :: "int \<Rightarrow> 'cb timers \<Rightarrow> bool" where
  "unarmed tid t \<longleftrightarrow> (\<forall>h r cb. armed t h \<noteq> Some (tid, r, cb))"

definition timers_ok :: "'cb tvm \<Rightarrow> bool" where
  "timers_ok v \<longleftrightarrow> finite (dom (cancels (snd v))) \<and> activeTimers (fst v) = int (card (dom (cancels (snd v)))) \<and>
     (\<forall>h tid r cb. armed (snd v) h = Some (tid, r, cb) \<longrightarrow> cancels (snd v) tid = Some h) \<and>
     (\<forall>tid h. cancels (snd v) tid = Some h \<longrightarrow> tid \<le> counter (snd v) \<and> h < next_handle (snd v)) \<and>
     distinct (timer_ids (macro (fst v))) \<and>
     (\<forall>tid \<in> set (timer_ids (macro (fst v))). cancels (snd v) tid \<noteq> None \<and> unarmed tid (snd v))"

text \<open>A timer whose callback is being run: registered, neither armed nor queued.\<close>

definition running :: "int \<Rightarrow> 'cb tvm \<Rightarrow> bool" where
  "running tid v \<longleftrightarrow> cancels (snd v) tid \<noteq> None \<and> unarmed tid (snd v) \<and> tid \<notin> set (timer_ids (macro (fst v)))"

lemmas timer_defs = nextID_def registry_set_def registry_clear_def AfterFunc_def fire_def schedule_def clearTimer_def

lemma timer_ids_append [simp]: "timer_ids (xs @ ys) = timer_ids xs @ timer_ids ys"
  by (induction xs rule: timer_ids.induct) auto

lemma start_ok: "timers_ok (newEventLoop, no_timers)"
  by (simp add: timers_ok_def newEventLoop_def no_timers_def)

lemma timers_okD:
  assumes "timers_ok v"
  shows "finite (dom (cancels (snd v)))" "activeTimers (fst v) = int (card (dom (cancels (snd v))))"
    "armed (snd v) h = Some (tid, r, cb) \<Longrightarrow> cancels (snd v) tid = Some h"
    "cancels (snd v) tid = Some h \<Longrightarrow> tid \<le> counter (snd v) \<and> h < next_handle (snd v)"
    "distinct (timer_ids (macro (fst v)))"
    "tid \<in> set (timer_ids (macro (fst v))) \<Longrightarrow> cancels (snd v) tid \<noteq> None \<and> unarmed tid (snd v)"
  using assms unfolding timers_ok_def by blast+

lemma arm_ok:
  assumes "timers_ok v" "tid \<notin> set (timer_ids (macro (fst v)))" "unarmed tid (snd v)" "c = int (card (insert tid (dom (cancels (snd v)))))"
    "tid \<le> n" "counter (snd v) \<le> n" "macro l = macro (fst v)" "activeTimers l = c"
  shows "timers_ok (l, registry_set tid (next_handle (snd v)) (fst (AfterFunc (tid, r, cb) ((snd v)\<lparr>counter := n\<rparr>))))"
proof -
  note d = timers_okD [OF assms(1)]
  have h: "cancels (snd v) i \<noteq> Some (next_handle (snd v))" for i using d(4) [of i "next_handle (snd v)"] by auto
  have "dom ((cancels (snd v))(tid \<mapsto> next_handle (snd v))) = insert tid (dom (cancels (snd v)))" by auto
  moreover have "cancels (snd v) i = Some k \<Longrightarrow> i \<le> n \<and> k < Suc (next_handle (snd v))" for i k using d(4) [of i k] assms(6) by auto
  ultimately show ?thesis using assms d(1,5,6) d(3) h unfolding timers_ok_def registry_set_def AfterFunc_def unarmed_def
    by (auto simp: split: if_splits)
qed

lemma schedule_ok:
  assumes "timers_ok v"
  shows "timers_ok (fst (schedule r (Some cb) v)) \<and> cancels (snd v) (snd (schedule r (Some cb) v)) = None"
proof -
  note d = timers_okD [OF assms]
  let ?tid = "counter (snd v) + 1"
  have n: "cancels (snd v) ?tid = None" using d(4) [of ?tid] by (cases "cancels (snd v) ?tid") auto
  then have "unarmed ?tid (snd v)" "?tid \<notin> set (timer_ids (macro (fst v)))" using d(3) d(6) [of ?tid] by (auto simp: unarmed_def)
  moreover have "int (card (insert ?tid (dom (cancels (snd v))))) = activeTimers (addTimer (fst v))"
    using d(1,2) n by (simp add: addTimer_def card_insert_if domIff)
  ultimately show ?thesis using arm_ok [OF assms, of ?tid "activeTimers (addTimer (fst v))" ?tid "addTimer (fst v)" r cb] n
    by (simp add: schedule_def nextID_def Let_def AfterFunc_def addTimer_def prod.case_eq_if)
qed

lemma clear_registered_ok:
  assumes "timers_ok v" "cancels (snd v) tid = Some h" "tid \<notin> set (timer_ids (macro (fst v)))"
  shows "timers_ok (removeTimer (fst v), fst (registry_clear tid (snd v)))"
proof -
  note d = timers_okD [OF assms(1)]
  have dm: "dom ((cancels (snd v))(tid := None)) = dom (cancels (snd v)) - {tid}" by auto
  have c: "0 < card (dom (cancels (snd v)))" using d(1) assms(2) by (auto simp: card_gt_0_iff)
  have "activeTimers (removeTimer (fst v)) = int (card (dom (cancels (snd v)) - {tid}))"
    using d(1,2) c assms(2) by (simp add: removeTimer_def card_Diff_singleton domIff)
  moreover have "unarmed i ((snd v)\<lparr>armed := (armed (snd v))(h := None), cancels := (cancels (snd v))(tid := None)\<rparr>)" if "unarmed i (snd v)" for i
    using that by (simp add: unarmed_def)
  ultimately show ?thesis using d(1,5,6) d(3) d(4) assms(2,3) dm unfolding timers_ok_def registry_clear_def
    by (auto simp: removeTimer_def split: if_splits)
qed

lemma clear_ok:
  assumes "timers_ok v" "tid \<notin> set (timer_ids (macro (fst v)))"
  shows "timers_ok (clearTimer tid v)"
  using clear_registered_ok [OF assms(1) _ assms(2)] assms(1)
  by (cases "cancels (snd v) tid") (auto simp: clearTimer_def registry_clear_def)

lemma clear_kills:
  assumes "timers_ok v" "tid \<notin> set (timer_ids (macro (fst v)))"
  shows "cancels (snd (clearTimer tid v)) tid = None \<and> unarmed tid (snd (clearTimer tid v)) \<and> tid \<notin> set (timer_ids (macro (fst (clearTimer tid v))))"
proof -
  note d = timers_okD [OF assms(1)]
  show ?thesis using assms(2) d(3)
    by (cases "cancels (snd v) tid") (auto simp: clearTimer_def registry_clear_def unarmed_def removeTimer_def)
qed

lemma fire_ok:
  assumes "timers_ok v"
  shows "timers_ok (fire h v)"
proof (cases "armed (snd v) h")
  case (Some x)
  obtain tid r cb where x: "x = (tid, r, cb)" by (cases x)
  note d = timers_okD [OF assms]
  have c: "cancels (snd v) tid = Some h" using d(3) Some x by simp
  then have q: "tid \<notin> set (timer_ids (macro (fst v)))" using d(6) Some x by (auto simp: unarmed_def)
  have "unarmed i ((snd v)\<lparr>armed := (armed (snd v))(h := None)\<rparr>)" if "unarmed i (snd v) \<or> i = tid" for i
    using that d(3) c by (auto simp: unarmed_def)
  then show ?thesis using Some x q c d(1,2,5,6) d(3) d(4) unfolding timers_ok_def fire_def
    by (auto simp: pushMacro_def split: if_splits)
qed (use assms in \<open>simp add: fire_def\<close>)

text \<open>
  A callback that keeps the account: it leaves the state well formed and does not clear the timer
  whose callback it is, nor any other timer that has fired. Scripts that schedule timers, queue
  microtasks and clear armed timers are of this kind.
\<close>

definition polite :: "('cb, 'e) call \<Rightarrow> bool" where
  "polite call \<longleftrightarrow> (\<forall>cb v. timers_ok v \<longrightarrow> timers_ok (fst (call cb v)) \<and> (\<forall>tid. running tid v \<longrightarrow> running tid (fst (call cb v))))"

lemma timer_job_ok:
  assumes "polite call" "timers_ok v" "running tid v"
  shows "timers_ok (fst (timer_exec call (TimerJob tid r cb) v))"
proof -
  obtain v1 err where c: "call cb v = (v1, err)" by fastforce
  have v1: "timers_ok v1" "running tid v1" using assms c unfolding polite_def by (metis fst_conv)+
  obtain h where h: "cancels (snd v1) tid = Some h" using v1(2) by (auto simp: running_def)
  show ?thesis
  proof (cases r)
    case True
    have i: "insert tid (dom (cancels (snd v1))) = dom (cancels (snd v1))" using h by auto
    have "tid \<le> counter (snd v1)" using timers_okD(4) [OF v1(1) h] by simp
    then show ?thesis using arm_ok [OF v1(1), of tid "activeTimers (fst v1)" "counter (snd v1)" "fst v1" r cb] v1 True c timers_okD(2) [OF v1(1)]
      by (simp add: i running_def AfterFunc_def)
  next
    case False
    then show ?thesis using clear_registered_ok [OF v1(1) h] v1(2) c by (simp add: running_def prod.case_eq_if)
  qed
qed

lemma pop_macro_ok:
  assumes "timers_ok (l, t)" "macro l = j # js"
  shows "timers_ok (l\<lparr>macro := js\<rparr>, t)" "j = TimerJob tid r cb \<Longrightarrow> running tid (l\<lparr>macro := js\<rparr>, t)"
  using assms by (cases j; auto simp: timers_ok_def running_def)+

lemma exec_macro_ok:
  assumes "polite call" "timers_ok (l, t)" "macro l = j # js"
  shows "timers_ok (fst (timer_exec call j (l\<lparr>macro := js\<rparr>, t)))"
proof (cases j)
  case (TimerJob tid r cb)
  then show ?thesis using timer_job_ok [OF assms(1) pop_macro_ok(1) [OF assms(2,3)]] pop_macro_ok(2) [OF assms(2,3)] by blast
next
  case (MicroJob cb)
  then show ?thesis using assms(1) pop_macro_ok(1) [OF assms(2,3)] by (simp add: polite_def)
qed

text \<open>The loop and the provider, interleaved; only microtasks are on the other two queues.\<close>

definition only_micro :: "'cb job list \<Rightarrow> bool" where
  "only_micro js = list_all (\<lambda>j. case j of MicroJob _ \<Rightarrow> True | _ \<Rightarrow> False) js"

inductive treach :: "('cb, 'e) call \<Rightarrow> 'cb tvm \<Rightarrow> ('cb job, 'cb timers, 'e) config \<Rightarrow> bool" for call v0 where
  treach_start: "treach call v0 (Drain, v0)"
| treach_vm: "treach call v0 c \<Longrightarrow> treach call v0 (vm_step (timer_exec call) c)"
| treach_fire: "treach call v0 (pc, v) \<Longrightarrow> treach call v0 (pc, fire h v)"

definition tidy :: "('cb, 'e) call \<Rightarrow> bool" where
  "tidy call \<longleftrightarrow> polite call \<and> (\<forall>cb l t. only_micro (nextTick l) \<and> only_micro (micro l) \<longrightarrow>
     only_micro (nextTick (fst (fst (call cb (l, t))))) \<and> only_micro (micro (fst (fst (call cb (l, t))))))"

definition loop_ok :: "'cb tvm \<Rightarrow> bool" where
  "loop_ok v \<longleftrightarrow> timers_ok v \<and> only_micro (nextTick (fst v)) \<and> only_micro (micro (fst v))"

lemma tidy_call: "tidy call \<Longrightarrow> loop_ok v \<Longrightarrow> loop_ok (fst (call cb v))"
  unfolding tidy_def polite_def loop_ok_def by (cases v) auto

lemma exec_only_micro:
  assumes "tidy call" "only_micro (nextTick l)" "only_micro (micro l)"
  shows "only_micro (nextTick (fst (fst (timer_exec call j (l, t))))) \<and> only_micro (micro (fst (fst (timer_exec call j (l, t)))))"
  using assms unfolding tidy_def
  by (cases j) (auto simp: prod.case_eq_if Let_def removeTimer_def)

lemma take_micro:
  assumes "loop_ok (l, t)" "take_job l = Some (j, l')"
  shows "loop_ok (l', t)" "\<exists>cb. j = MicroJob cb"
proof -
  have j: "only_micro [j]" "only_micro (nextTick l')" "only_micro (micro l')"
    using assms by (auto simp: loop_ok_def take_job_def only_micro_def split: list.splits)
  have "macro l' = macro l" "activeTimers l' = activeTimers l" using assms(2) by (auto simp: take_job_def split: list.splits)
  then show "loop_ok (l', t)" using assms(1) j by (simp add: loop_ok_def timers_ok_def)
  show "\<exists>cb. j = MicroJob cb" using j(1) by (cases j) (auto simp: only_micro_def)
qed

lemma vm_step_ok:
  assumes "tidy call" "loop_ok v"
  shows "loop_ok (snd (vm_step (timer_exec call) (pc, v)))"
proof -
  obtain l t where v: "v = (l, t)" by fastforce
  have run: "loop_ok (fst (timer_exec call j (l', t)))" if "timers_ok (fst (timer_exec call j (l', t)))" "only_micro (nextTick l')" "only_micro (micro l')" for j l'
    using that exec_only_micro [OF assms(1) that(2,3), of j t] by (simp add: loop_ok_def)
  show ?thesis
  proof (cases pc)
    case Drain
    show ?thesis
    proof (cases "take_job l")
      case (Some p)
      obtain j l' where p: "p = (j, l')" by fastforce
      note tk = take_micro [OF assms(2) [unfolded v] Some [unfolded p]]
      then have "loop_ok (fst (timer_exec call j (l', t)))" using tidy_call [OF assms(1)] by auto
      then show ?thesis using Drain v Some p by (auto split: prod.splits option.splits)
    qed (use Drain v assms in auto)
  next
    case Check
    show ?thesis
    proof (cases "macro l")
      case (Cons j js)
      have "loop_ok (fst (timer_exec call j (l\<lparr>macro := js\<rparr>, t)))"
        using run exec_macro_ok [of call l t j js] assms v Cons by (simp add: loop_ok_def tidy_def)
      then show ?thesis using Check v Cons assms(2) by (auto split: prod.splits option.splits)
    qed (use Check v assms in auto)
  qed (use v assms in auto)
qed

lemma treach_ok: "treach call v0 c \<Longrightarrow> tidy call \<Longrightarrow> loop_ok v0 \<Longrightarrow> loop_ok (snd c)"
proof (induction rule: treach.induct)
  case (treach_vm c)
  then show ?case using vm_step_ok [of call "snd c" "fst c"] by simp
next
  case (treach_fire pc v h)
  then show ?case using fire_ok [of v h] by (auto simp: loop_ok_def fire_def pushMacro_def split: option.splits)
qed simp

lemma running_schedule:
  assumes "timers_ok v" "running tid v"
  shows "running tid (fst (schedule r (Some cb) v))"
proof -
  have "cancels (snd v) (counter (snd v) + 1) = None" using schedule_ok [OF assms(1), of r cb] by (simp add: schedule_def nextID_def AfterFunc_def Let_def)
  then have "tid \<noteq> counter (snd v) + 1" using assms(2) by (auto simp: running_def)
  then show ?thesis using assms(2)
    by (auto simp: schedule_def nextID_def AfterFunc_def registry_set_def Let_def running_def unarmed_def addTimer_def)
qed

text \<open>A timer that is over: its id was given out and is neither registered, armed nor queued.\<close>

definition over :: "int \<Rightarrow> 'cb tvm \<Rightarrow> bool" where
  "over tid v \<longleftrightarrow> tid \<le> counter (snd v) \<and> cancels (snd v) tid = None \<and> unarmed tid (snd v) \<and> tid \<notin> set (timer_ids (macro (fst v)))"

lemma over_stays:
  assumes "over tid v"
  shows "over tid (fst (schedule r cb v))" "over tid (clearTimer i v)" "over tid (fire h v)"
proof -
  show "over tid (fst (schedule r cb v))" using assms
    by (cases cb) (auto simp: schedule_def nextID_def AfterFunc_def registry_set_def Let_def over_def unarmed_def addTimer_def)
  show "over tid (clearTimer i v)" using assms
    by (cases "cancels (snd v) i") (auto simp: clearTimer_def registry_clear_def over_def unarmed_def removeTimer_def)
  show "over tid (fire h v)" using assms
    by (auto simp: fire_def over_def unarmed_def pushMacro_def split: option.splits)
qed

subsection \<open>What timers promise\<close>


definition rescheduling :: "(unit, unit) call" where
  "rescheduling cb v = (fst (schedule False (Some cb) v), None)"


text \<open>
  C38: Clearing a timer in time stops it for good. A timer gets an id that no registered timer has;
  clearing it before it has fired keeps the account of live timers, and leaves it neither
  registered, armed nor queued, which no later scheduling, clearing or firing changes: its callback
  is never run.
\<close>

theorem cleared_timers_stay_dead:
  assumes "timers_ok v" "tid \<le> counter (snd v)" "tid \<notin> set (timer_ids (macro (fst v)))"
  shows "cancels (snd v) (snd (schedule r (Some cb) v)) = None \<and> timers_ok (clearTimer tid v) \<and> over tid (clearTimer tid v) \<and>
    (over tid w \<longrightarrow> over tid (fst (schedule r' cb' w)) \<and> over tid (clearTimer i w) \<and> over tid (fire h w))"
proof -
  have "counter (snd (clearTimer tid v)) = counter (snd v)"
    by (cases "cancels (snd v) tid") (simp_all add: clearTimer_def registry_clear_def)
  then have "over tid (clearTimer tid v)" using clear_kills [OF assms(1,3)] assms(2) by (simp add: over_def)
  then show ?thesis using schedule_ok [OF assms(1), of r cb] clear_ok [OF assms(1,3)] over_stays [of tid w] by simp
qed

theorem cleared_timers_stay_dead_witness:
  "over 1 (clearTimer 1 (fst (schedule True (Some ()) (newEventLoop, no_timers))))"
proof -
  let ?v = "fst (schedule True (Some ()) (newEventLoop, no_timers))"
  have "timers_ok ?v" using schedule_ok [OF start_ok, of True "()"] by simp
  moreover have "1 \<le> counter (snd ?v)" "1 \<notin> set (timer_ids (macro (fst ?v)))"
    by (simp_all add: schedule_def nextID_def AfterFunc_def Let_def addTimer_def newEventLoop_def no_timers_def registry_set_def)
  ultimately show ?thesis using cleared_timers_stay_dead [of ?v 1 True "()" "(newEventLoop, no_timers :: unit timers)" True None 0 0] by simp
qed

text \<open>
  C40: Clearing a timer that has fired goes wrong in three ways. An interval whose callback clears
  it is armed again, and is no longer counted. A timeout whose callback clears it is subtracted
  twice, so that the loop returns while another timer is armed. And when two timers have fired and
  the callback of the first clears the second, the callback of the second is still run.
\<close>

lemmas timer_eval = timer_defs timer_exec.simps Let_def queue_defs no_timers_def


end
