(* ===== verification/Ws_Frame.thy ===== *)
theory Ws_Frame
  imports Utf16
begin

unbundle bit_operations_syntax

text \<open>
  The WebSocket frame codec (\<open>src/host/websocket/frame.go\<close>). A reader is the bytes still to be
  read, and \<open>io.ReadFull\<close> fails when too few are left. The writer and the random source are code
  of the host: \<open>write\<close> returns the writer after a write or an error, \<open>rand\<close> the four key bytes or
  an error.
\<close>

subsection \<open>Constants, errors and frames\<close>

definition opContinuation :: int where "opContinuation = 0x0"
definition opText :: int where "opText = 0x1"
definition opBinary :: int where "opBinary = 0x2"
definition opClose :: int where "opClose = 0x8"
definition opPing :: int where "opPing = 0x9"
definition opPong :: int where "opPong = 0xA"

lemmas opcode_defs = opContinuation_def opText_def opBinary_def opClose_def opPing_def opPong_def

definition closeNoStatusRcvd :: int where "closeNoStatusRcvd = 1005"
definition closeProtocolError :: int where "closeProtocolError = 1002"
definition closeInvalidPayload :: int where "closeInvalidPayload = 1007"
definition closeMessageTooBig :: int where "closeMessageTooBig = 1009"

definition controlFrameMaxPayload :: int where
  "controlFrameMaxPayload = 125"

datatype ws_error = wsError int string | ErrEOF | ErrUnexpectedEOF | ErrIO

record frame =
  fr_fin :: bool
  fr_opcode :: int
  fr_payload :: bytes

definition isControl :: "int \<Rightarrow> bool" where
  "isControl opcode \<longleftrightarrow> opcode AND 0x8 \<noteq> 0"

text \<open>\<open>io.ReadFull\<close> of \<open>n\<close> bytes, and the big-endian numbers of \<open>encoding/binary\<close>.\<close>

definition ReadFull :: "nat \<Rightarrow> bytes \<Rightarrow> ws_error + bytes \<times> bytes" where
  "ReadFull n r =
     (if n \<le> length r then Inr (take n r, drop n r)
      else if r = [] then Inl ErrEOF else Inl ErrUnexpectedEOF)"

definition be_value :: "bytes \<Rightarrow> int" where
  "be_value bs = foldl (\<lambda>a b. a * 256 + b) 0 bs"

primrec be_bytes :: "nat \<Rightarrow> int \<Rightarrow> bytes" where
  "be_bytes 0 n = []"
| "be_bytes (Suc k) n = be_bytes k (n div 256) @ [n mod 256]"

definition mask_bytes :: "bytes \<Rightarrow> bytes \<Rightarrow> bytes" where
  "mask_bytes key payload = map (\<lambda>i. payload ! i XOR key ! (i mod 4)) [0..<length payload]"

subsection \<open>Reading and writing\<close>

definition extended_length :: "int \<Rightarrow> bytes \<Rightarrow> ws_error + int \<times> bytes" where
  "extended_length len r =
     (if len = 126 then
        res_bind (ReadFull 2 r) (\<lambda>(ext, r). Inr (be_value ext, r))
      else if len = 127 then
        res_bind (ReadFull 8 r) (\<lambda>(ext, r).
          if be_value ext > 0x7FFFFFFFFFFFFFFF then Inl (wsError closeProtocolError ''payload length has high bit set'')
          else Inr (be_value ext, r))
      else Inr (len, r))"

definition readFrame :: "bytes \<Rightarrow> bool \<Rightarrow> int \<Rightarrow> ws_error + frame \<times> bytes" where
  "readFrame r expectMasked maxFrame =
     res_bind (ReadFull 2 r) (\<lambda>(hdr, r).
       let fin = hdr ! 0 AND 0x80 \<noteq> 0;
           rsv = hdr ! 0 AND 0x70;
           opcode = hdr ! 0 AND 0x0F;
           masked = hdr ! 1 AND 0x80 \<noteq> 0;
           len = hdr ! 1 AND 0x7F
       in if rsv \<noteq> 0 then Inl (wsError closeProtocolError ''reserved bits set'')
          else if masked \<noteq> expectMasked then
            if expectMasked then Inl (wsError closeProtocolError ''client frame is not masked'')
            else Inl (wsError closeProtocolError ''server frame must not be masked'')
          else if opcode \<notin> {opContinuation, opText, opBinary, opClose, opPing, opPong} then
            Inl (wsError closeProtocolError (''unknown opcode 0x'' @ [''0123456789abcdef'' ! nat opcode]))
          else if isControl opcode \<and> \<not> fin then Inl (wsError closeProtocolError ''fragmented control frame'')
          else if isControl opcode \<and> len > controlFrameMaxPayload then
            Inl (wsError closeProtocolError ''control frame payload too large'')
          else res_bind (extended_length len r) (\<lambda>(len, r).
            if maxFrame > 0 \<and> len > maxFrame then Inl (wsError closeMessageTooBig ''frame payload exceeds limit'')
            else res_bind (if masked then ReadFull 4 r else Inr ([0, 0, 0, 0], r)) (\<lambda>(maskKey, r).
              res_bind (ReadFull (nat len) r) (\<lambda>(payload, r).
                let payload = if masked then mask_bytes maskKey payload else payload
                in Inr (\<lparr>fr_fin = fin, fr_opcode = opcode, fr_payload = payload\<rparr>, r)))))"

definition frame_header :: "bool \<Rightarrow> int \<Rightarrow> nat \<Rightarrow> bytes" where
  "frame_header fin opcode n =
     (let h0 = (if fin then opcode OR 0x80 else opcode) in
      if n \<le> 125 then [h0, int n]
      else if n \<le> 0xFFFF then [h0, 126] @ be_bytes 2 (int n)
      else [h0, 127] @ be_bytes 8 (int n))"

definition writeFrame ::
  "('w \<Rightarrow> bytes \<Rightarrow> ws_error + 'w) \<Rightarrow> (ws_error + bytes) \<Rightarrow> 'w \<Rightarrow> bool \<Rightarrow> int \<Rightarrow> bytes \<Rightarrow> bool \<Rightarrow> ws_error + 'w" where
  "writeFrame write rand w fin opcode payload masking =
     (let header = frame_header fin opcode (length payload) in
      res_bind (if masking then res_bind rand (\<lambda>maskKey. Inr (header[1 := header ! 1 OR 0x80] @ maskKey, maskKey))
                else Inr (header, [0, 0, 0, 0])) (\<lambda>(header, maskKey).
        res_bind (write w header) (\<lambda>w.
          if payload = [] then Inr w
          else if \<not> masking then write w payload
          else write w (mask_bytes maskKey payload))))"

subsection \<open>Close payloads\<close>

definition encodeClosePayload :: "int \<Rightarrow> bytes \<Rightarrow> bytes" where
  "encodeClosePayload code reason =
     (if code = 0 \<or> code = closeNoStatusRcvd then [] else be_bytes 2 (code mod 2 ^ 16) @ reason)"

definition validCloseCode :: "int \<Rightarrow> bool" where
  "validCloseCode code \<longleftrightarrow>
     (if code \<ge> 3000 \<and> code \<le> 4999 then True
      else if code \<ge> 1000 \<and> code \<le> 1003 then True
      else if code \<ge> 1007 \<and> code \<le> 1011 then True
      else False)"

text \<open>\<open>utf8.Valid\<close>: every rune decodes.\<close>

function validUTF8 :: "bytes \<Rightarrow> bool" where
  "validUTF8 b =
     (if b = [] then True
      else if DecodeRune b = (0xFFFD, 1) then False
      else validUTF8 (drop (snd (DecodeRune b)) b))"
  by pat_completeness auto
termination
  using DecodeRune_size by (relation "measure length") fastforce+

declare validUTF8.simps [simp del]

text \<open>The third component is the error, if any.\<close>

definition decodeClosePayload :: "bytes \<Rightarrow> int \<times> bytes \<times> ws_error option" where
  "decodeClosePayload payload =
     (if length payload = 0 then (closeNoStatusRcvd, [], None)
      else if length payload = 1 then (0, [], Some (wsError closeProtocolError ''close frame with 1-byte payload''))
      else let code = be_value (take 2 payload); reason = drop 2 payload in
           if \<not> validCloseCode code then (code, reason, Some (wsError closeProtocolError ''invalid close code''))
           else if \<not> validUTF8 reason then (code, reason, Some (wsError closeInvalidPayload ''close reason is not valid UTF-8''))
           else (code, reason, None))"

subsection \<open>Numbers and header bytes\<close>

lemma be_value_snoc: "be_value (bs @ [b]) = be_value bs * 256 + b"
  by (simp add: be_value_def)

lemma length_be_bytes [simp]: "length (be_bytes k n) = k"
  by (induction k arbitrary: n) auto

lemma be_value_bytes: "0 \<le> n \<Longrightarrow> n < 256 ^ k \<Longrightarrow> be_value (be_bytes k n) = n"
proof (induction k arbitrary: n)
  case 0
  then show ?case by (simp add: be_value_def)
next
  case (Suc k)
  have "n div 256 < 256 ^ k" using Suc.prems by (simp add: div_less_iff_less_mult mult.commute)
  then show ?case using Suc.IH [of "n div 256"] Suc.prems(1) by (simp add: be_value_snoc pos_imp_zdiv_nonneg_iff)
qed

lemma ReadFull_append: "n = length bs \<Longrightarrow> ReadFull n (bs @ r) = Inr (bs, r)"
  by (simp add: ReadFull_def)

lemma or_128: "0 \<le> n \<Longrightarrow> n < 128 \<Longrightarrow> n OR 0x80 = 128 + (n :: int)"
  using or_low_bits [of n 7 1] by (simp add: or.commute push_bit_eq_mult)

lemma and_127: "x AND 0x7F = (x :: int) mod 128" "x AND 0x0F = x mod 16"
  using take_bit_eq_mask [of 7 x] take_bit_eq_mask [of 4 x] by (simp_all add: take_bit_eq_mod mask_eq_exp_minus_1)

lemma high_bit: "0 \<le> n \<Longrightarrow> n < 128 \<Longrightarrow> (n AND 0x80 \<noteq> 0) = False" "((n :: int) OR 0x80) AND 0x80 \<noteq> 0"
proof -
  have "(n OR k) AND k = k" for k :: int by (rule bit_eqI) (auto simp: bit_and_iff bit_or_iff)
  then show "((n :: int) OR 0x80) AND 0x80 \<noteq> 0" by simp
  assume "0 \<le> n" "n < 128"
  then have "take_bit 7 n = n" by (simp add: take_bit_int_eq_self)
  then have "\<not> bit n 7" by (metis bit_take_bit_iff less_irrefl)
  then show "(n AND 0x80 \<noteq> 0) = False" using and_exp_eq_0_iff_not_bit [of n 7] by simp
qed

lemma length_mask [simp]: "length (mask_bytes key payload) = length payload"
  by (simp add: mask_bytes_def)

lemma mask_twice: "mask_bytes key (mask_bytes key payload) = payload"
  by (rule nth_equalityI) (simp_all add: mask_bytes_def xor.assoc)

definition known_opcode :: "int \<Rightarrow> bool" where
  "known_opcode op \<longleftrightarrow> op \<in> {opContinuation, opText, opBinary, opClose, opPing, opPong}"

lemma opcode_bits:
  assumes "known_opcode op" "h = (if fin then op OR 0x80 else op)"
  shows "(h AND 0x80 \<noteq> 0) = fin" "h AND 0x70 = 0" "h AND 0x0F = op"
  using assms by (auto simp: known_opcode_def opcode_defs)

subsection \<open>A frame on the wire\<close>

lemma header_shape:
  assumes "n < 2 ^ 63"
  obtains len ext where "frame_header fin op n = (if fin then op OR 0x80 else op) # len # ext" "0 \<le> len" "len < 128"
    "\<And>r. extended_length len (ext @ r) = Inr (int n, r)" "n \<le> 125 \<Longrightarrow> len \<le> 125"
proof -
  consider "n \<le> 125" | "\<not> n \<le> 125" "n \<le> 0xFFFF" | "\<not> n \<le> 125" "\<not> n \<le> 0xFFFF" by blast
  then show ?thesis
  proof cases
    case 1
    then show ?thesis by (intro that [of "int n" "[]"]) (auto simp: frame_header_def Let_def extended_length_def)
  next
    case 2
    then have "be_value (be_bytes 2 (int n)) = int n" by (intro be_value_bytes) simp_all
    then show ?thesis using 2
      by (intro that [of 126 "be_bytes 2 (int n)"]) (simp_all add: frame_header_def Let_def extended_length_def ReadFull_append del: be_bytes.simps)
  next
    case 3
    have b: "int n < 2 ^ 63" using assms by (metis of_nat_less_iff of_nat_numeral of_nat_power)
    then have "be_value (be_bytes 8 (int n)) = int n" by (intro be_value_bytes) simp_all
    then show ?thesis using 3 b
      by (intro that [of 127 "be_bytes 8 (int n)"]) (simp_all add: frame_header_def Let_def extended_length_def ReadFull_append del: be_bytes.simps)
  qed
qed

lemma read_written:
  assumes op: "known_opcode op" and len: "0 \<le> len" "len < 128" and ext: "\<And>r. extended_length len (ext @ r) = Inr (int (length payload), r)"
    and ctl: "isControl op \<Longrightarrow> fin \<and> len \<le> 125" and lim: "maxFrame \<le> 0 \<or> int (length payload) \<le> maxFrame"
    and key: "length key = 4"
  shows "readFrame (((if fin then op OR 0x80 else op) # (if m then len OR 0x80 else len) # ext) @ (if m then key else []) @
      (if m then mask_bytes key payload else payload) @ rest) m maxFrame = Inr (\<lparr>fr_fin = fin, fr_opcode = op, fr_payload = payload\<rparr>, rest)"
proof -
  let ?h = "if fin then op OR 0x80 else op" and ?b = "if m then len OR 0x80 else len"
  have b: "(?b AND 0x80 \<noteq> 0) = m" "?b AND 0x7F = len" using len high_bit [of len] by (auto simp: or_128 and_127)
  note o = opcode_bits [OF op refl, of fin]
  have two: "ReadFull 2 ((?h # ?b # ext) @ r) = Inr ([?h, ?b], ext @ r)" for r by (simp add: ReadFull_def)
  have k: "res_bind (if m then ReadFull 4 ((if m then key else []) @ r) else Inr ([0, 0, 0, 0], (if m then key else []) @ r)) f =
      (if m then f (key, r) else f ([0, 0, 0, 0], r))" for r and f :: "bytes \<times> bytes \<Rightarrow> ws_error + frame \<times> bytes"
    using key by (simp add: ReadFull_append)
  have pl: "ReadFull (nat (int (length payload))) ((if m then mask_bytes key payload else payload) @ rest) =
      Inr (if m then mask_bytes key payload else payload, rest)" by (rule ReadFull_append) simp
  have ok: "op \<in> {opContinuation, opText, opBinary, opClose, opPing, opPong}" using op by (simp add: known_opcode_def)
  show ?thesis unfolding readFrame_def two res_bind_simps Let_def prod.case nth_Cons_0 nth_Cons_Suc One_nat_def o b ext k pl
    using ctl lim ok by (auto simp: mask_twice controlFrameMaxPayload_def pl)
qed

lemma written_bytes:
  assumes "frame_header fin op (length payload) = h # len # ext"
  shows "writeFrame (\<lambda>w bs. Inr (w @ bs)) (Inr key) [] fin op payload m =
    Inr ((h # (if m then len OR 0x80 else len) # ext) @ (if m then key else []) @ (if m then mask_bytes key payload else payload))"
  using assms by (auto simp: writeFrame_def Let_def mask_bytes_def)

lemma close_roundtrip:
  assumes "validCloseCode code" "validUTF8 reason"
  shows "decodeClosePayload (encodeClosePayload code reason) = (code, reason, None)"
proof -
  have c: "0 < code" "code < 2 ^ 16" "code \<noteq> closeNoStatusRcvd" using assms(1) by (auto simp: validCloseCode_def closeNoStatusRcvd_def split: if_splits)
  then have "be_value (be_bytes 2 code) = code" by (intro be_value_bytes) simp_all
  then show ?thesis using assms c by (simp add: encodeClosePayload_def decodeClosePayload_def Let_def del: be_bytes.simps)
qed

lemma ReadFull_Inr: "ReadFull n r = Inr (bs, r') \<longleftrightarrow> r = bs @ r' \<and> length bs = n"
  by (auto simp: ReadFull_def)

lemma extended_suffix: "extended_length len r = Inr (n, r') \<Longrightarrow> \<exists>ext. r = ext @ r' \<and> (n = len \<or> len > 125)"
  by (auto simp: extended_length_def res_bind_eq_Inr ReadFull_Inr split: if_splits)

subsection \<open>What the codec promises\<close>

text \<open>
  C35: Frames survive the wire. A frame with a known opcode, an unfragmented payload of at most 125
  bytes if it is a control frame, written with or without a mask under any key, is read back by a
  peer that expects that masking and whose limit admits the payload: the same fin bit, opcode and
  payload, with the bytes after the frame left unread. A close payload with an allowed code and a
  valid reason is decoded to that code and reason.
\<close>

theorem frame_roundtrip:
  assumes "known_opcode op" "isControl op \<longrightarrow> fin \<and> length payload \<le> 125" "length payload < 2 ^ 63"
    "maxFrame \<le> 0 \<or> int (length payload) \<le> maxFrame" "length key = 4" "validCloseCode code" "validUTF8 reason"
  shows "(\<exists>wire. writeFrame (\<lambda>w bs. Inr (w @ bs)) (Inr key) [] fin op payload m = Inr wire \<and>
      readFrame (wire @ rest) m maxFrame = Inr (\<lparr>fr_fin = fin, fr_opcode = op, fr_payload = payload\<rparr>, rest)) \<and>
    decodeClosePayload (encodeClosePayload code reason) = (code, reason, None)"
proof -
  obtain len ext where h: "frame_header fin op (length payload) = (if fin then op OR 0x80 else op) # len # ext" "0 \<le> len" "len < 128"
      "\<And>r. extended_length len (ext @ r) = Inr (int (length payload), r)" "length payload \<le> 125 \<Longrightarrow> len \<le> 125"
    using header_shape [OF assms(3), of fin op] by blast
  have "isControl op \<Longrightarrow> fin \<and> len \<le> 125" using assms(2) h(5) by blast
  note read = read_written [OF assms(1) h(2,3,4) this assms(4,5), where m = m and rest = rest]
  show ?thesis
  proof (intro conjI exI)
    show "writeFrame (\<lambda>w bs. Inr (w @ bs)) (Inr key) [] fin op payload m =
        Inr (((if fin then op OR 0x80 else op) # (if m then len OR 0x80 else len) # ext) @ (if m then key else []) @ (if m then mask_bytes key payload else payload))"
      by (rule written_bytes [OF h(1)])
    show "readFrame ((((if fin then op OR 0x80 else op) # (if m then len OR 0x80 else len) # ext) @ (if m then key else []) @ (if m then mask_bytes key payload else payload)) @ rest) m maxFrame =
        Inr (\<lparr>fr_fin = fin, fr_opcode = op, fr_payload = payload\<rparr>, rest)"
      using read by (simp only: append.assoc)
    show "decodeClosePayload (encodeClosePayload code reason) = (code, reason, None)" by (rule close_roundtrip [OF assms(6,7)])
  qed
qed

theorem frame_roundtrip_witness:
  "\<exists>wire. writeFrame (\<lambda>w bs. Inr (w @ bs)) (Inr [1, 2, 3, 4]) [] True opPing (replicate 125 0x61) True = Inr wire \<and>
     readFrame (wire @ [7]) True 1000 = Inr (\<lparr>fr_fin = True, fr_opcode = opPing, fr_payload = replicate 125 0x61\<rparr>, [7])"
  using frame_roundtrip [of opPing True "replicate 125 0x61" 1000 "[1, 2, 3, 4]" 1000 "[]" True "[7]"]
  by (simp add: known_opcode_def validCloseCode_def validUTF8.simps)

text \<open>
  C36: Only lawful frames are accepted. Whatever bytes arrive, an accepted frame has a known opcode
  and the masking that was expected; a control frame is not fragmented and carries at most 125
  bytes; the payload is within the limit when there is one; and what is left unread is the end of
  what arrived.
\<close>

theorem frames_accepted:
  assumes "readFrame r m maxFrame = Inr (f, rest)"
  shows "known_opcode (fr_opcode f) \<and> (isControl (fr_opcode f) \<longrightarrow> fr_fin f \<and> length (fr_payload f) \<le> 125) \<and>
    (0 < maxFrame \<longrightarrow> int (length (fr_payload f)) \<le> maxFrame) \<and> (\<exists>used. r = used @ rest \<and> 2 \<le> length used \<and> (used ! 1 AND 0x80 \<noteq> 0) = m)"
proof -
  obtain hdr r1 where 1: "ReadFull 2 r = Inr (hdr, r1)" using assms by (auto simp: readFrame_def res_bind_eq_Inr)
  note split1 = 1 [unfolded ReadFull_Inr]
  let ?op = "hdr ! 0 AND 0x0F" and ?len = "hdr ! 1 AND 0x7F"
  obtain n r2 where 2: "extended_length ?len r1 = Inr (n, r2)" using assms 1 by (auto simp: readFrame_def res_bind_eq_Inr Let_def split: if_splits)
  obtain ext where e: "r1 = ext @ r2" "n = ?len \<or> ?len > 125" using extended_suffix [OF 2] by blast
  have c: "?op \<in> {opContinuation, opText, opBinary, opClose, opPing, opPong}" "(hdr ! 1 AND 0x80 \<noteq> 0) = m"
      "isControl ?op \<Longrightarrow> hdr ! 0 AND 0x80 \<noteq> 0 \<and> ?len \<le> 125" "maxFrame > 0 \<Longrightarrow> n \<le> maxFrame"
    using assms 1 2 by (auto simp: readFrame_def Let_def controlFrameMaxPayload_def split: if_splits)
  obtain key r3 where 3: "(if m then ReadFull 4 r2 else Inr ([0, 0, 0, 0], r2)) = Inr (key, r3)"
    using assms 1 2 c(2) by (auto simp: readFrame_def res_bind_eq_Inr Let_def split: if_splits)
  then obtain ks where k: "r2 = ks @ r3" by (auto simp: ReadFull_Inr split: if_splits)
  obtain pl where 4: "ReadFull (nat n) r3 = Inr (pl, rest)" "f = \<lparr>fr_fin = hdr ! 0 AND 0x80 \<noteq> 0, fr_opcode = ?op, fr_payload = if m then mask_bytes key pl else pl\<rparr>"
    using assms 1 2 3 c(2) by (auto simp: readFrame_def res_bind_eq_Inr Let_def split: if_splits)
  have l: "length (fr_payload f) = nat n" "r3 = pl @ rest" using 4 by (auto simp: ReadFull_Inr)
  have len: "isControl ?op \<Longrightarrow> nat n \<le> 125" using c(3) e(2) by auto
  have m: "0 < maxFrame \<Longrightarrow> int (nat n) \<le> maxFrame" using c(4) by auto
  have "r = (hdr @ ext @ ks @ pl) @ rest" "2 \<le> length (hdr @ ext @ ks @ pl)" "(hdr @ ext @ ks @ pl) ! 1 = hdr ! 1"
    using split1 e(1) k l(2) by (simp_all add: nth_append)
  then show ?thesis using c(1,2,3) len m l(1) 4(2) unfolding known_opcode_def by auto
qed

theorem frames_accepted_witness:
  "known_opcode 1 \<and> readFrame [0x81, 1, 0x61, 5] False 0 = Inr (\<lparr>fr_fin = True, fr_opcode = 1, fr_payload = [0x61]\<rparr>, [5])"
proof -
  have r: "readFrame [0x81, 1, 0x61, 5] False 0 = Inr (\<lparr>fr_fin = True, fr_opcode = 1, fr_payload = [0x61]\<rparr>, [5])"
    by (simp add: readFrame_def ReadFull_def Let_def opcode_defs isControl_def extended_length_def)
  show ?thesis using frames_accepted [OF r] r by simp
qed

end
